(* ===== verification/Prelude.thy ===== *)
theory Prelude
  imports Complex_Main "HOL-Library.Word"
begin

unbundle bit_operations_syntax

section \<open>The C run time the components share\<close>

text \<open>
  What the translation of every source file rests on: the integer types, the outcome of a C
  function (a value, the end of the process, a failed assertion, undefined behaviour), checked
  access to arrays, the \<open>for\<close> loop with early exit, C strings and the constants of
  \<^verbatim>\<open>globals.h\<close>. The collection \<open>ospec_simps\<close> holds the rewrite rules that push a
  specification through an outcome, so that component proofs are \<open>auto simp: ospec_simps\<close>.
\<close>

named_theorems ospec_simps \<open>rules that compute the specification of an outcome\<close>

type_synonym u8 = "8 word"
type_synonym u32 = "32 word"
type_synonym u64 = "64 word"
type_synonym i32 = "32 word"
type_synonym i64 = "64 word"

subsection \<open>Constants of globals.h\<close>

abbreviation RETVAL_OK :: int where "RETVAL_OK \<equiv> 0"
abbreviation RETVAL_ERR :: int where "RETVAL_ERR \<equiv> -1"

definition BUFFSIZE :: nat where "BUFFSIZE = 1024"
definition MAX_PATH :: nat where "MAX_PATH = 1024"
definition IPADDR_SIZE :: nat where "IPADDR_SIZE = 46"
definition REMOTE_COMMAND_SIZE :: nat where "REMOTE_COMMAND_SIZE = 144"
definition LOCALHOST :: string where "LOCALHOST = ''localhost''"

subsection \<open>Outcomes\<close>

text \<open>
  \<open>Exit c\<close> is a call of \<^verbatim>\<open>exit(c)\<close>, \<open>Abort\<close> a failed \<^verbatim>\<open>assert\<close> in a build
  without \<^verbatim>\<open>NDEBUG\<close>, \<open>Undef\<close> an access outside an object, a read past the end of an
  unterminated string, a null dereference or an over-wide shift.
\<close>

datatype 'a outcome = Ret 'a | Exit int | Abort | Undef

fun obind :: "'a outcome \<Rightarrow> ('a \<Rightarrow> 'b outcome) \<Rightarrow> 'b outcome" where
  "obind (Ret x) f = f x"
| "obind (Exit c) f = Exit c"
| "obind Abort f = Abort"
| "obind Undef f = Undef"

lemma obind_cong [fundef_cong]:
  "m = m' \<Longrightarrow> (\<And>x. m' = Ret x \<Longrightarrow> f x = g x) \<Longrightarrow> obind m f = obind m' g"
  by (cases m') auto

lemma obind_assoc: "obind (obind m f) g = obind m (\<lambda>x. obind (f x) g)"
  by (cases m) auto

lemma obind_eq_Ret: "obind m f = Ret y \<longleftrightarrow> (\<exists>x. m = Ret x \<and> f x = Ret y)"
  by (cases m) auto

text \<open>\<^verbatim>\<open>assert\<close>: the flag says whether the build defines \<^verbatim>\<open>NDEBUG\<close>.\<close>

definition c_assert :: "bool \<Rightarrow> bool \<Rightarrow> 'a outcome \<Rightarrow> 'a outcome" where
  "c_assert nd b m = (if b \<or> nd then m else Abort)"

lemma c_assert_True [simp]: "c_assert nd True m = m"
  by (simp add: c_assert_def)

lemma c_assert_holds: "b \<Longrightarrow> c_assert nd b m = m"
  by (simp add: c_assert_def)

lemma c_assert_cong [fundef_cong]:
  "nd = nd' \<Longrightarrow> b = b' \<Longrightarrow> (b' \<or> nd' \<Longrightarrow> m = m') \<Longrightarrow> c_assert nd b m = c_assert nd' b' m'"
  by (simp add: c_assert_def)

text \<open>
  \<open>ospec E m P\<close>: the outcome neither aborts nor is undefined, its value satisfies \<open>P\<close>, and it
  ends the process only with a code allowed by \<open>E\<close>.
\<close>

fun ospec :: "(int \<Rightarrow> bool) \<Rightarrow> 'a outcome \<Rightarrow> ('a \<Rightarrow> bool) \<Rightarrow> bool" where
  "ospec E (Ret x) P = P x"
| "ospec E (Exit c) P = E c"
| "ospec E Abort P = False"
| "ospec E Undef P = False"

abbreviation returns :: "'a outcome \<Rightarrow> ('a \<Rightarrow> bool) \<Rightarrow> bool" where
  "returns \<equiv> ospec (\<lambda>_. False)"

abbreviation safe :: "'a outcome \<Rightarrow> ('a \<Rightarrow> bool) \<Rightarrow> bool" where
  "safe \<equiv> ospec (\<lambda>_. True)"

lemma ospec_obind [ospec_simps]: "ospec E (obind m f) P = ospec E m (\<lambda>x. ospec E (f x) P)"
  by (cases m) auto

lemma ospec_c_assert [ospec_simps]: "b \<Longrightarrow> ospec E (c_assert nd b m) P = ospec E m P"
  by (simp add: c_assert_def)

lemma ospec_if [ospec_simps]:
  "ospec E (if b then m else m') P = (if b then ospec E m P else ospec E m' P)"
  by simp

lemma ospec_mono:
  "ospec E m P \<Longrightarrow> (\<And>x. m = Ret x \<Longrightarrow> P x \<Longrightarrow> Q x) \<Longrightarrow> (\<And>c. E c \<Longrightarrow> F c) \<Longrightarrow> ospec F m Q"
  by (cases m) auto

lemma ospec_conj: "ospec E m P \<Longrightarrow> ospec E m Q \<Longrightarrow> ospec E m (\<lambda>x. P x \<and> Q x)"
  by (cases m) auto

lemma returns_iff: "returns m P \<longleftrightarrow> (\<exists>x. m = Ret x \<and> P x)"
  by (cases m) auto

lemma returns_safe: "returns m P \<Longrightarrow> safe m P"
  by (cases m) auto

lemma safe_Ret: "safe m P \<Longrightarrow> m = Ret x \<Longrightarrow> P x"
  by simp

subsection \<open>What the operating system answers\<close>

text \<open>
  The results of the system calls a function makes while it runs, one record per call of the
  function: the build flag, the return codes of \<^verbatim>\<open>pthread_mutex_init/lock/unlock\<close> (0 is success),
  whether \<^verbatim>\<open>malloc\<close>/\<^verbatim>\<open>calloc\<close> and \<^verbatim>\<open>realloc\<close> find memory (\<open>buf_ok\<close> is the allocation of a string
  buffer), the return code of creating a thread (attributes included), and \<^verbatim>\<open>time(NULL)\<close>.
\<close>

record sysenv =
  ndebug :: bool
  mutex_init_rv :: int
  lock_rv :: int
  unlock_rv :: int
  malloc_ok :: bool
  realloc_ok :: bool
  buf_ok :: bool
  pthread_rv :: int
  now :: i64

definition sys_ok :: "sysenv \<Rightarrow> bool" where
  "sys_ok e \<longleftrightarrow> mutex_init_rv e = 0 \<and> lock_rv e = 0 \<and> unlock_rv e = 0 \<and> malloc_ok e \<and> realloc_ok e
     \<and> buf_ok e \<and> pthread_rv e = 0"

text \<open>A system in which every call succeeds, for the concrete runs of the theories.\<close>

definition calm_env :: sysenv where
  "calm_env = \<lparr>ndebug = False, mutex_init_rv = 0, lock_rv = 0, unlock_rv = 0, malloc_ok = True,
     realloc_ok = True, buf_ok = True, pthread_rv = 0, now = 1000\<rparr>"

lemma calm_env_ok [simp]: "sys_ok calm_env" "now calm_env = 1000" "malloc_ok calm_env" "realloc_ok calm_env"
    "lock_rv calm_env = 0" "unlock_rv calm_env = 0" "\<not> ndebug calm_env" "buf_ok calm_env"
  by (simp_all add: calm_env_def sys_ok_def)

text \<open>
  A critical section: \<^verbatim>\<open>if (lock) return RETVAL_ERR; ...; if (unlock) return RETVAL_ERR; return rv\<close>.
\<close>

definition with_mutex :: "sysenv \<Rightarrow> 'st \<Rightarrow> ('st \<Rightarrow> (int \<times> 'st) outcome) \<Rightarrow> (int \<times> 'st) outcome" where
  "with_mutex e st body =
     (if lock_rv e \<noteq> 0 then Ret (RETVAL_ERR, st)
      else obind (body st) (\<lambda>(rv, st').
        if unlock_rv e \<noteq> 0 then Ret (RETVAL_ERR, st') else Ret (rv, st')))"

lemma ospec_with_mutex:
  assumes "lock_rv e = 0 \<Longrightarrow> ospec E (body st) (\<lambda>(rv, st'). R rv st')"
  shows "ospec E (with_mutex e st body) (\<lambda>(rv, st').
    if lock_rv e \<noteq> 0 then rv = RETVAL_ERR \<and> st' = st
    else \<exists>rv0. R rv0 st' \<and> rv = (if unlock_rv e = 0 then rv0 else RETVAL_ERR))"
proof (cases "lock_rv e = 0")
  case True
  show ?thesis
    unfolding with_mutex_def using True
    by (simp add: ospec_obind) (rule ospec_mono [OF assms [OF True]], auto)
next
  case False
  then show ?thesis by (simp add: with_mutex_def)
qed

lemma with_mutex_ok: "lock_rv e = 0 \<Longrightarrow> unlock_rv e = 0 \<Longrightarrow> with_mutex e st body = body st"
  by (cases "body st") (auto simp: with_mutex_def)

subsection \<open>Checked access to arrays\<close>

definition read_at :: "'a list \<Rightarrow> nat \<Rightarrow> 'a outcome" where
  "read_at xs i = (if i < length xs then Ret (xs ! i) else Undef)"

definition write_at :: "'a list \<Rightarrow> nat \<Rightarrow> 'a \<Rightarrow> 'a list outcome" where
  "write_at xs i x = (if i < length xs then Ret (xs[i := x]) else Undef)"

lemma read_at_Ret [simp]: "i < length xs \<Longrightarrow> read_at xs i = Ret (xs ! i)"
  by (simp add: read_at_def)

lemma write_at_Ret [simp]: "i < length xs \<Longrightarrow> write_at xs i x = Ret (xs[i := x])"
  by (simp add: write_at_def)

text \<open>\<^verbatim>\<open>memcpy(buf + pos, src, |src|)\<close> and \<^verbatim>\<open>memcpy(dst, buf + pos, n)\<close>.\<close>

definition memcpy_to :: "'a list \<Rightarrow> nat \<Rightarrow> 'a list \<Rightarrow> 'a list outcome" where
  "memcpy_to buf pos src =
     (if pos + length src \<le> length buf
      then Ret (take pos buf @ src @ drop (pos + length src) buf) else Undef)"

definition memcpy_from :: "'a list \<Rightarrow> nat \<Rightarrow> nat \<Rightarrow> 'a list outcome" where
  "memcpy_from buf pos n =
     (if pos + n \<le> length buf then Ret (take n (drop pos buf)) else Undef)"

subsection \<open>The for loop\<close>

text \<open>
  \<open>c_for i n body s\<close> is \<^verbatim>\<open>for (; i < n; i++) body\<close> on the loop state \<open>s\<close>; a body that
  answers \<open>Inl b\<close> leaves the loop (\<^verbatim>\<open>break\<close>, \<^verbatim>\<open>return\<close>) with \<open>b\<close>.
\<close>

function c_for :: "nat \<Rightarrow> nat \<Rightarrow> (nat \<Rightarrow> 's \<Rightarrow> ('b + 's) outcome) \<Rightarrow> 's \<Rightarrow> ('b + 's) outcome" where
  "c_for i n body s =
     (if i < n
      then obind (body i s) (\<lambda>r. case r of Inl b \<Rightarrow> Ret (Inl b) | Inr s' \<Rightarrow> c_for (Suc i) n body s')
      else Ret (Inr s))"
  by pat_completeness auto
termination
  by (relation "measure (\<lambda>(i, n, body, s). n - i)") auto

declare c_for.simps [simp del]

lemma c_for_done [simp]: "n \<le> i \<Longrightarrow> c_for i n body s = Ret (Inr s)"
  by (subst c_for.simps) simp

lemma c_for_step: "i < n \<Longrightarrow> c_for i n body s =
    obind (body i s) (\<lambda>r. case r of Inl b \<Rightarrow> Ret (Inl b) | Inr s' \<Rightarrow> c_for (Suc i) n body s')"
  by (subst c_for.simps) simp

text \<open>The loop rule: an invariant \<open>I\<close> of the index and the state, \<open>Q\<close> for early exits.\<close>

lemma c_for_rule:
  assumes "I i s" and "i \<le> n"
    and "\<And>j t. i \<le> j \<Longrightarrow> j < n \<Longrightarrow> I j t \<Longrightarrow> ospec E (body j t) (case_sum Q (I (Suc j)))"
  shows "ospec E (c_for i n body s) (case_sum Q (I n))"
  using assms
proof (induction "n - i" arbitrary: i s)
  case 0
  then show ?case by simp
next
  case (Suc k)
  then have lt: "i < n" by simp
  have body: "ospec E (body i s) (case_sum Q (I (Suc i)))"
    using Suc.prems lt by simp
  have rest: "ospec E (c_for (Suc i) n body t) (case_sum Q (I n))" if "I (Suc i) t" for t
    using Suc.hyps Suc.prems(3) that lt by auto
  have "ospec E (body i s) (\<lambda>r. ospec E (case r of Inl b \<Rightarrow> Ret (Inl b)
          | Inr s' \<Rightarrow> c_for (Suc i) n body s') (case_sum Q (I n)))"
    by (rule ospec_mono [OF body]) (auto split: sum.splits intro: rest)
  with lt show ?case by (simp add: c_for_step ospec_obind)
qed

text \<open>A loop that only searches: the first index at which \<open>f\<close> answers.\<close>

definition first_hit :: "(nat \<Rightarrow> 'b option) \<Rightarrow> nat \<Rightarrow> nat \<Rightarrow> 'b option" where
  "first_hit f i n = Option.bind (List.find (\<lambda>j. f j \<noteq> None) [i..<n]) f"

lemma first_hit_done [simp]: "n \<le> i \<Longrightarrow> first_hit f i n = None"
  by (simp add: first_hit_def)

lemma first_hit_step: "i < n \<Longrightarrow>
    first_hit f i n = (case f i of None \<Rightarrow> first_hit f (Suc i) n | Some b \<Rightarrow> Some b)"
  by (simp add: first_hit_def upt_conv_Cons split: option.splits)

lemma c_for_search:
  assumes "\<And>j. i \<le> j \<Longrightarrow> j < n \<Longrightarrow> body j s = Ret (case f j of None \<Rightarrow> Inr s | Some b \<Rightarrow> Inl b)"
  shows "c_for i n body s = Ret (case first_hit f i n of None \<Rightarrow> Inr s | Some b \<Rightarrow> Inl b)"
  using assms
proof (induction "n - i" arbitrary: i)
  case 0
  then show ?case by simp
next
  case (Suc k)
  then have lt: "i < n" and IH: "f i = None \<Longrightarrow> c_for (Suc i) n body s =
      Ret (case first_hit f (Suc i) n of None \<Rightarrow> Inr s | Some b \<Rightarrow> Inl b)"
    by auto
  from lt Suc.prems have "body i s = Ret (case f i of None \<Rightarrow> Inr s | Some b \<Rightarrow> Inl b)" by simp
  with lt IH show ?case
    by (cases "f i") (simp_all add: c_for_step first_hit_step)
qed

lemma first_hit_None: "first_hit f i n = None \<longleftrightarrow> (\<forall>j. i \<le> j \<longrightarrow> j < n \<longrightarrow> f j = None)"
proof (cases "List.find (\<lambda>j. f j \<noteq> None) [i..<n]")
  case None
  then have "\<forall>j. i \<le> j \<longrightarrow> j < n \<longrightarrow> f j = None" by (simp add: find_None_iff)
  with None show ?thesis by (simp add: first_hit_def)
next
  case (Some j)
  then have "f j \<noteq> None \<and> i \<le> j \<and> j < n" by (force simp: find_Some_iff)
  with Some show ?thesis by (auto simp: first_hit_def)
qed

lemma first_hit_Some:
  "first_hit f i n = Some b \<Longrightarrow> \<exists>j. i \<le> j \<and> j < n \<and> f j = Some b \<and> (\<forall>k. i \<le> k \<longrightarrow> k < j \<longrightarrow> f k = None)"
proof (induction "n - i" arbitrary: i)
  case 0
  then show ?case by simp
next
  case (Suc k)
  then have lt: "i < n" by simp
  show ?case
  proof (cases "f i")
    case None
    with Suc.prems lt have "first_hit f (Suc i) n = Some b" by (simp add: first_hit_step)
    moreover have "k = n - Suc i" using Suc.hyps(2) by simp
    ultimately obtain j where j: "Suc i \<le> j" "j < n" "f j = Some b"
        "\<forall>k. Suc i \<le> k \<longrightarrow> k < j \<longrightarrow> f k = None"
      using Suc.hyps(1) by blast
    have "\<forall>k. i \<le> k \<longrightarrow> k < j \<longrightarrow> f k = None"
      using None j(4) by (metis Suc_leI le_neq_implies_less)
    with j show ?thesis by (metis Suc_leD)
  next
    case (Some c)
    with Suc lt show ?thesis by (auto simp: first_hit_step)
  qed
qed

subsection \<open>C strings\<close>

text \<open>
  A \<^verbatim>\<open>char\<close> array is a list of its bytes; a \<^verbatim>\<open>const char *\<close> argument is the list of the
  bytes before its terminator. \<open>cstr\<close> reads an array as a string, \<open>c_string\<close> does so in a
  function that would run past the end of an unterminated array.
\<close>

abbreviation NUL :: char where "NUL \<equiv> CHR 0x00"

definition cstr :: "char list \<Rightarrow> string" where
  "cstr a = takeWhile (\<lambda>c. c \<noteq> NUL) a"

definition terminated :: "char list \<Rightarrow> bool" where
  "terminated a \<longleftrightarrow> NUL \<in> set a"

definition c_string :: "char list \<Rightarrow> string outcome" where
  "c_string a = (if terminated a then Ret (cstr a) else Undef)"

text \<open>\<^verbatim>\<open>strncpy(dst, src, n)\<close>: at most \<open>n\<close> bytes of the string, then padding.\<close>

definition strncpy :: "string \<Rightarrow> nat \<Rightarrow> char list" where
  "strncpy s n = take n s @ replicate (n - length s) NUL"

text \<open>\<^verbatim>\<open>strcmp(a, b) == 0\<close> on two byte arrays: stops at the first difference.\<close>

fun strcmp_eq :: "char list \<Rightarrow> char list \<Rightarrow> bool outcome" where
  "strcmp_eq (a # as) (b # bs) =
     (if a \<noteq> b then Ret False else if a = NUL then Ret True else strcmp_eq as bs)"
| "strcmp_eq _ _ = Undef"

text \<open>\<^verbatim>\<open>strchr(s, c)\<close> as an index.\<close>

definition strchr :: "string \<Rightarrow> char \<Rightarrow> nat option" where
  "strchr s c = List.find (\<lambda>i. s ! i = c) [0..<length s]"

definition is_cstring :: "string \<Rightarrow> bool" where
  "is_cstring s \<longleftrightarrow> NUL \<notin> set s"

lemma length_strncpy [simp]: "length (strncpy s n) = n"
  by (simp add: strncpy_def)

lemma cstr_append_NUL [simp]: "is_cstring s \<Longrightarrow> cstr (s @ NUL # xs) = s"
  unfolding cstr_def is_cstring_def by (induction s) auto

lemma is_cstring_cstr [simp]: "is_cstring (cstr a)"
  by (auto simp: is_cstring_def cstr_def dest: set_takeWhileD)

lemma terminated_split: "terminated a \<Longrightarrow> \<exists>xs. a = cstr a @ NUL # xs"
  unfolding terminated_def cstr_def
  by (induction a) auto

lemma length_cstr: "terminated a \<Longrightarrow> length (cstr a) < length a"
  using terminated_split [of a] by (metis length_append length_Cons less_add_Suc1 add_Suc_right)

lemma strcmp_eq_terminated:
  "terminated a \<Longrightarrow> terminated b \<Longrightarrow> strcmp_eq a b = Ret (cstr a = cstr b)"
proof (induction a arbitrary: b)
  case Nil
  then show ?case by (simp add: terminated_def)
next
  case (Cons c a)
  then show ?case
    by (cases b) (auto simp: terminated_def cstr_def)
qed

text \<open>The bytes a \<^verbatim>\<open>const char *\<close> argument points to.\<close>

definition bytes_of :: "string \<Rightarrow> char list" where
  "bytes_of s = s @ [NUL]"

lemma terminated_bytes_of [simp]: "terminated (bytes_of s)"
  by (simp add: bytes_of_def terminated_def)

lemma cstr_bytes_of [simp]: "is_cstring s \<Longrightarrow> cstr (bytes_of s) = s"
  by (simp add: bytes_of_def)

text \<open>The idiom \<^verbatim>\<open>strncpy(dst, s, n); dst[n - 1] = 0\<close>.\<close>

lemma strncpy_cut: "0 < n \<Longrightarrow>
    (strncpy s n)[n - Suc 0 := NUL] = take (n - Suc 0) s @ NUL # replicate (n - Suc 0 - length s) NUL"
  by (rule nth_equalityI) (auto simp: strncpy_def nth_append nth_list_update nth_Cons' min_def)

lemma is_cstring_take [simp]: "is_cstring s \<Longrightarrow> is_cstring (take k s)"
  by (auto simp: is_cstring_def dest: in_set_takeD)

lemma strncpy_terminated: "0 < n \<Longrightarrow> terminated ((strncpy s n)[n - Suc 0 := NUL])"
  by (simp add: strncpy_cut terminated_def)

lemma cstr_strncpy: "is_cstring s \<Longrightarrow> 0 < n \<Longrightarrow> cstr ((strncpy s n)[n - Suc 0 := NUL]) = take (n - Suc 0) s"
  by (simp add: strncpy_cut)

lemma strchr_None: "strchr s c = None \<longleftrightarrow> c \<notin> set s"
  by (auto simp: strchr_def find_None_iff in_set_conv_nth)

lemma strchr_Some: "strchr s c = Some k \<Longrightarrow> k < length s \<and> s ! k = c \<and> c \<notin> set (take k s)"
  unfolding strchr_def find_Some_iff by (auto simp: in_set_conv_nth)

lemma strchr_append: "c \<notin> set s \<Longrightarrow> strchr (s @ c # t) c = Some (length s)"
  unfolding strchr_def find_Some_iff
  by (rule exI [of _ "length s"]) (auto simp: nth_append in_set_conv_nth)

subsection \<open>Reading lines\<close>

text \<open>\<^verbatim>\<open>fgets(line, n, f)\<close> on what is left of the file: the line and the rest; \<open>None\<close> at the end.\<close>

definition fgets :: "nat \<Rightarrow> string \<Rightarrow> (string \<times> string) option" where
  "fgets n f =
     (if f = [] then None
      else (let chunk = take (n - 1) f;
                len = (case strchr chunk (CHR 0x0A) of None \<Rightarrow> length chunk | Some k \<Rightarrow> k + 1)
            in Some (take len f, drop len f)))"

lemma fgets_split:
  assumes "2 \<le> n" and "fgets n f = Some (line, rest)"
  shows "line @ rest = f \<and> line \<noteq> [] \<and> length line < n"
proof -
  have len: "strchr xs c = Some k \<Longrightarrow> k < length xs" for xs c k
    by (auto simp: strchr_def find_Some_iff)
  show ?thesis
    using assms by (auto simp: fgets_def Let_def min_def split: if_splits option.splits dest!: len)
qed

subsection \<open>Numbers in text\<close>

definition isspace :: "char \<Rightarrow> bool" where
  "isspace c \<longleftrightarrow> c \<in> set [CHR '' '', CHR 0x09, CHR 0x0A, CHR 0x0B, CHR 0x0C, CHR 0x0D]"

definition isdigit :: "char \<Rightarrow> bool" where
  "isdigit c \<longleftrightarrow> 48 \<le> (of_char c :: nat) \<and> (of_char c :: nat) \<le> 57"

definition digits_value :: "string \<Rightarrow> int" where
  "digits_value ds = foldl (\<lambda>n c. 10 * n + (of_char c - 48)) 0 ds"

text \<open>\<^verbatim>\<open>atoi\<close>: blanks, a sign, digits; a value outside \<^verbatim>\<open>int\<close> is undefined behaviour.\<close>

definition atoi :: "string \<Rightarrow> int outcome" where
  "atoi str =
     (let s = dropWhile isspace str;
          neg = (s \<noteq> [] \<and> hd s = CHR ''-'');
          s = (if s \<noteq> [] \<and> (hd s = CHR ''-'' \<or> hd s = CHR ''+'') then tl s else s);
          n = digits_value (takeWhile isdigit s);
          n = (if neg then - n else n)
      in if - (2 ^ 31) \<le> n \<and> n < 2 ^ 31 then Ret n else Undef)"

text \<open>The decimal notation of a number, which \<^verbatim>\<open>atoi\<close> reads back.\<close>

fun decimal :: "nat \<Rightarrow> string" where
  "decimal n = (if n < 10 then [char_of (48 + n)] else decimal (n div 10) @ [char_of (48 + n mod 10)])"

declare decimal.simps [simp del]

text \<open>\<^verbatim>\<open>%i\<close> of a 32 bit integer.\<close>

definition show_i32 :: "i32 \<Rightarrow> string" where
  "show_i32 w = (if sint w < 0 then CHR ''-'' # decimal (nat (- sint w)) else decimal (nat (sint w)))"

lemma digit_char:
  assumes "d < 10"
  shows "isdigit (char_of (48 + d))" and "of_char (char_of (48 + d) :: char) = (48 + int d)"
proof -
  have "(48 + d) mod 256 = 48 + d" using assms by simp
  then have oc: "(of_char (char_of (48 + d) :: char) :: nat) = 48 + d"
    by (simp only: of_char_of)
  with assms show "isdigit (char_of (48 + d))" by (simp add: isdigit_def)
  have "(of_char (char_of (48 + d) :: char) :: int) = int (of_char (char_of (48 + d) :: char))"
    by (simp only: of_nat_of_char)
  with oc show "of_char (char_of (48 + d) :: char) = (48 + int d)" by simp
qed

lemma decimal_digits: "list_all isdigit (decimal n)" and decimal_nonempty: "decimal n \<noteq> []"
proof (induction n rule: decimal.induct)
  case (1 n)
  { case 1
    show ?case using "1.IH"(1) by (subst decimal.simps) (auto simp: digit_char) }
  { case 2
    show ?case by (subst decimal.simps) auto }
qed

lemma digits_value_decimal: "digits_value (decimal n) = int n"
proof (induction n rule: decimal.induct)
  case (1 n)
  show ?case
  proof (cases "n < 10")
    case True
    then show ?thesis by (subst decimal.simps) (simp add: digits_value_def digit_char)
  next
    case False
    then have "digits_value (decimal n) = 10 * digits_value (decimal (n div 10)) + int (n mod 10)"
      by (subst decimal.simps) (simp add: digits_value_def digit_char)
    with 1 False show ?thesis by (simp add: zdiv_int zmod_int)
  qed
qed

lemma isdigit_not: "isdigit c \<Longrightarrow> \<not> isspace c" "isdigit c \<Longrightarrow> c \<noteq> CHR ''-''" "isdigit c \<Longrightarrow> c \<noteq> CHR ''+''"
    "isdigit c \<Longrightarrow> c \<noteq> CHR ''/''" "isdigit c \<Longrightarrow> c \<noteq> CHR '':''" "isdigit c \<Longrightarrow> c \<noteq> NUL" "isdigit c \<Longrightarrow> c \<noteq> CHR 0x0A"
  by (auto simp: isdigit_def isspace_def)

lemma atoi_decimal:
  assumes "n < 2 ^ 31" and "rest = [] \<or> \<not> isdigit (hd rest)"
  shows "atoi (decimal n @ rest) = Ret (int n)"
proof -
  obtain c cs where ds: "decimal n = c # cs" using decimal_nonempty by (cases "decimal n") auto
  then have c: "isdigit c" "list_all isdigit (decimal n)" using decimal_digits [of n] by auto
  have "takeWhile isdigit (decimal n @ rest) = decimal n"
    using c(2) assms(2) by (cases rest) (auto simp: takeWhile_append list_all_iff)
  then have tw: "takeWhile isdigit (c # cs @ rest) = c # cs" using ds by simp
  have "digits_value (c # cs) = int n" using digits_value_decimal [of n] ds by simp
  with c tw ds assms(1) show ?thesis
    unfolding atoi_def Let_def ds append_Cons
    by (simp only: dropWhile.simps isdigit_not if_False list.sel list.simps simp_thms) simp
qed

end
