(* ===== verification/Slot_Vector.thy ===== *)
theory Slot_Vector
  imports Prelude
begin

section \<open>Growable vectors of optional entries\<close>

text \<open>
  \<^verbatim>\<open>records.c\<close> and \<^verbatim>\<open>exclude.c\<close> keep their entries the same way: an array of pointers with
  null for a free slot, a size that grows by a chunk, and a fill mark above which every slot is
  free. This theory has the entries of such an array as a list (\<open>somes\<close>) and, for entries with a
  key, as a map (\<open>slot_map\<close>); the idiom that finds a free slot or grows the array
  (\<open>alloc_slot\<close>); and the interface \<open>slot_vector\<close> that both files implement.
\<close>

primrec somes :: "'a option list \<Rightarrow> 'a list" where
  "somes [] = []"
| "somes (x # xs) = (case x of None \<Rightarrow> somes xs | Some r \<Rightarrow> r # somes xs)"

definition keys_unique :: "('a \<Rightarrow> 'k) \<Rightarrow> 'a option list \<Rightarrow> bool" where
  "keys_unique key v \<longleftrightarrow> distinct (map key (somes v))"

definition slot_map :: "('a \<Rightarrow> 'k) \<Rightarrow> 'a option list \<Rightarrow> 'k \<Rightarrow> 'a option" where
  "slot_map key v = map_of (map (\<lambda>r. (key r, r)) (somes v))"

lemma somes_append [simp]: "somes (xs @ ys) = somes xs @ somes ys"
  by (induction xs) (auto split: option.splits)

lemma set_somes: "r \<in> set (somes v) \<longleftrightarrow> Some r \<in> set v"
  by (induction v) (auto split: option.splits)

lemma somes_replicate_None [simp]: "somes (replicate n None) = []"
  by (induction n) auto

lemma somes_split:
  "i < length v \<Longrightarrow> somes v = somes (take i v) @ (case v ! i of None \<Rightarrow> [] | Some r \<Rightarrow> [r]) @ somes (drop (Suc i) v)"
  by (subst id_take_nth_drop [of i v]) (auto split: option.splits)

lemma somes_upd:
  "i < length v \<Longrightarrow> somes (v[i := x]) = somes (take i v) @ (case x of None \<Rightarrow> [] | Some r \<Rightarrow> [r]) @ somes (drop (Suc i) v)"
  by (subst upd_conv_take_nth_drop) (auto split: option.splits)

lemma somes_Nil_iff: "somes v = [] \<longleftrightarrow> (\<forall>i < length v. v ! i = None)"
  by (induction v) (auto split: option.splits simp: less_Suc_eq_0_disj)

lemma somes_take_rest:
  assumes "\<forall>j. n \<le> j \<longrightarrow> j < length v \<longrightarrow> v ! j = None"
  shows "somes (take n v) = somes v"
proof -
  have "somes (drop n v) = []"
    using assms by (auto simp: somes_Nil_iff)
  then show ?thesis
    by (metis append_Nil2 append_take_drop_id somes_append)
qed

subsection \<open>Entries with unique keys as a map\<close>

lemma slot_map_None: "slot_map key v k = None \<longleftrightarrow> (\<forall>r. Some r \<in> set v \<longrightarrow> key r \<noteq> k)"
  by (auto simp: slot_map_def map_of_eq_None_iff image_image image_iff set_somes)

lemma slot_map_Some:
  assumes "keys_unique key v"
  shows "slot_map key v k = Some r \<longleftrightarrow> Some r \<in> set v \<and> key r = k"
proof -
  have "distinct (map fst (map (\<lambda>r. (key r, r)) (somes v)))"
    using assms by (simp add: keys_unique_def comp_def)
  then show ?thesis
    unfolding slot_map_def by (subst map_of_eq_Some_iff) (auto simp: set_somes)
qed

lemma slot_map_eqI:
  assumes "keys_unique key v" and "\<And>k r. m k = Some r \<longleftrightarrow> Some r \<in> set v \<and> key r = k"
  shows "slot_map key v = m"
proof (rule ext)
  fix k
  show "slot_map key v k = m k"
    using assms(2) slot_map_Some [OF assms(1)] by (metis option.exhaust)
qed

lemma slot_map_insert:
  assumes "keys_unique key v" and "i < length v" and "v ! i = None" and "slot_map key v (key r) = None"
  shows "keys_unique key (v[i := Some r])" and "slot_map key (v[i := Some r]) = (slot_map key v)(key r \<mapsto> r)"
proof -
  note s = somes_split [OF assms(2)] somes_upd [OF assms(2), of "Some r"]
  have fresh: "key r \<notin> key ` set (somes v)"
    using assms(4) by (auto simp: slot_map_None set_somes)
  with assms(1,3) s show u: "keys_unique key (v[i := Some r])"
    by (auto simp: keys_unique_def)
  have "set (v[i := Some r]) - {None} = insert (Some r) (set v) - {None}"
  proof -
    have "set (somes (v[i := Some r])) = insert r (set (somes v))"
      using assms(3) s by auto
    then show ?thesis by (force simp: set_eq_iff set_somes)
  qed
  then have mem: "Some x \<in> set (v[i := Some r]) \<longleftrightarrow> x = r \<or> Some x \<in> set v" for x by auto
  have "key x \<noteq> key r" if "Some x \<in> set v" for x
    using fresh that by (metis image_eqI set_somes)
  then show "slot_map key (v[i := Some r]) = (slot_map key v)(key r \<mapsto> r)"
    using u by (intro slot_map_eqI) (auto simp: slot_map_Some [OF assms(1)] mem)
qed

lemma slot_map_delete:
  assumes "keys_unique key v" and "i < length v" and "v ! i = Some r"
  shows "keys_unique key (v[i := None])" and "slot_map key (v[i := None]) = (slot_map key v)(key r := None)"
proof -
  note s = somes_split [OF assms(2)] somes_upd [OF assms(2), of None]
  show u: "keys_unique key (v[i := None])"
    using assms(1,3) s by (auto simp: keys_unique_def)
  have mem: "Some x \<in> set (v[i := None]) \<longleftrightarrow> Some x \<in> set v \<and> key x \<noteq> key r" for x
  proof -
    have "x \<in> set (somes (v[i := None])) \<longleftrightarrow> x \<in> set (somes v) \<and> key x \<noteq> key r"
      using assms(1,3) s by (auto simp: keys_unique_def) (metis image_eqI)+
    then show ?thesis by (simp only: set_somes)
  qed
  show "slot_map key (v[i := None]) = (slot_map key v)(key r := None)"
    using u by (intro slot_map_eqI) (auto simp: slot_map_Some [OF assms(1)] mem)
qed

lemma slot_map_replace:
  assumes "keys_unique key v" and "i < length v" and "v ! i = Some r" and "key r' = key r"
  shows "keys_unique key (v[i := Some r'])" and "slot_map key (v[i := Some r']) = (slot_map key v)(key r \<mapsto> r')"
proof -
  let ?w = "v[i := None]"
  note d = slot_map_delete [OF assms(1-3)]
  have w: "i < length ?w" "?w ! i = None" "slot_map key ?w (key r') = None"
    using assms(2,4) d(2) by auto
  note ins = slot_map_insert [OF d(1) w]
  show "keys_unique key (v[i := Some r'])" and "slot_map key (v[i := Some r']) = (slot_map key v)(key r \<mapsto> r')"
    using ins d(2) assms(4) by auto
qed

lemma keys_unique_nth:
  assumes "keys_unique key v" and "v ! i = Some r" and "i < length v" and "Some r' \<in> set v" and "key r' = key r"
  shows "r' = r"
  using assms slot_map_Some [OF assms(1)] by (metis nth_mem option.inject)

subsection \<open>Loops over the slots\<close>

text \<open>
  A loop that rewrites slot after slot with \<open>F\<close> and folds \<open>G\<close> over the entries; \<open>Q\<close> is what the
  callback needs of the folded state.
\<close>

lemma c_for_slots:
  fixes body :: "nat \<Rightarrow> 'a option list \<times> 's \<Rightarrow> ('b + 'a option list \<times> 's) outcome"
  assumes "n \<le> length v" and "Q s"
    and step: "\<And>i w t. i < n \<Longrightarrow> length w = length v \<Longrightarrow> w ! i = v ! i \<Longrightarrow> Q t \<Longrightarrow>
      body i (w, t) = Ret (Inr (w[i := F (v ! i)], G (v ! i) t)) \<and> Q (G (v ! i) t)"
  shows "c_for 0 n body (v, s) = Ret (Inr (map F (take n v) @ drop n v, fold G (take n v) s))
    \<and> Q (fold G (take n v) s)"
proof -
  let ?I = "\<lambda>j x. x = (map F (take j v) @ drop j v, fold G (take j v) s) \<and> Q (snd x)"
  have "returns (c_for 0 n body (v, s)) (case_sum (\<lambda>_. False) (?I n))"
  proof (rule c_for_rule [where I = ?I])
    fix j x
    assume j: "j < n" and I: "?I j x"
    define w where "w = map F (take j v) @ drop j v"
    define t where "t = fold G (take j v) s"
    have x: "x = (w, t)" and Q: "Q t" using I by (auto simp: w_def t_def)
    have lv: "j < length v" using j assms(1) by simp
    then have w: "length w = length v" "w ! j = v ! j"
      by (auto simp: w_def nth_append)
    have "w[j := F (v ! j)] = map F (take (Suc j) v) @ drop (Suc j) v"
      using lv by (simp add: w_def list_update_append take_Suc_conv_app_nth flip: Cons_nth_drop_Suc)
    moreover have "G (v ! j) t = fold G (take (Suc j) v) s"
      using lv by (simp add: t_def take_Suc_conv_app_nth)
    ultimately show "returns (body j x) (case_sum (\<lambda>_. False) (?I (Suc j)))"
      using step [OF j w Q] by (simp add: x)
  qed (use assms(2) in auto)
  then obtain x where "c_for 0 n body (v, s) = Ret x" "case_sum (\<lambda>_. False) (?I n) x"
    by (auto simp: returns_iff)
  then show ?thesis by (cases x) auto
qed

lemma c_for_fold:
  assumes "n \<le> length v" and "Q s"
    and step: "\<And>i t. i < n \<Longrightarrow> Q t \<Longrightarrow> body i t = Ret (Inr (G (v ! i) t)) \<and> Q (G (v ! i) t)"
  shows "c_for 0 n body s = Ret (Inr (fold G (take n v) s)) \<and> Q (fold G (take n v) s)"
proof -
  let ?I = "\<lambda>j t. t = fold G (take j v) s \<and> Q t"
  have "returns (c_for 0 n body s) (case_sum (\<lambda>_. False) (?I n))"
    by (rule c_for_rule [where I = ?I])
      (use assms step in \<open>auto simp: take_Suc_conv_app_nth\<close>)
  then obtain x where "c_for 0 n body s = Ret x" "case_sum (\<lambda>_. False) (?I n) x"
    by (auto simp: returns_iff)
  then show ?thesis by (cases x) auto
qed

lemma fold_slots:
  "(\<And>t. G None t = t) \<Longrightarrow> (\<And>r t. G (Some r) t = g r t) \<Longrightarrow> fold G v s = fold g (somes v) s"
  by (induction v arbitrary: s) (auto split: option.splits)

lemma somes_map_option: "somes (map (map_option f) v) = map f (somes v)"
  by (induction v) (auto split: option.splits)

lemma somes_map_filter: "somes (map (\<lambda>p. Option.bind p (\<lambda>r. if P r then Some r else None)) v) = filter P (somes v)"
  by (induction v) (auto split: option.splits)

lemma keys_unique_map_option:
  "(\<And>r. Some r \<in> set v \<Longrightarrow> key (f r) = key r) \<Longrightarrow> keys_unique key (map (map_option f) v) = keys_unique key v"
proof -
  assume "\<And>r. Some r \<in> set v \<Longrightarrow> key (f r) = key r"
  then have "map key (map f (somes v)) = map key (somes v)" by (simp add: set_somes)
  then show ?thesis by (simp only: keys_unique_def somes_map_option)
qed

lemma slot_map_map_option:
  assumes "keys_unique key v" and "\<And>r. Some r \<in> set v \<Longrightarrow> key (f r) = key r"
  shows "slot_map key (map (map_option f) v) = (\<lambda>k. map_option f (slot_map key v k))"
proof (rule slot_map_eqI)
  show "keys_unique key (map (map_option f) v)" using assms by (simp add: keys_unique_map_option)
  fix k r
  have "r \<in> set (somes (map (map_option f) v)) \<longleftrightarrow> (\<exists>x. Some x \<in> set v \<and> f x = r)"
    by (auto simp: somes_map_option set_somes)
  then have mem: "Some r \<in> set (map (map_option f) v) \<longleftrightarrow> (\<exists>x. Some x \<in> set v \<and> f x = r)"
    by (simp only: set_somes)
  show "map_option f (slot_map key v k) = Some r \<longleftrightarrow> Some r \<in> set (map (map_option f) v) \<and> key r = k"
    unfolding mem map_option_eq_Some slot_map_Some [OF assms(1)] using assms(2) by metis
qed

lemma slot_map_filter:
  assumes "keys_unique key v"
  shows "keys_unique key (map (\<lambda>p. Option.bind p (\<lambda>r. if P r then Some r else None)) v)" (is "keys_unique key ?w")
    and "slot_map key (map (\<lambda>p. Option.bind p (\<lambda>r. if P r then Some r else None)) v) =
      (\<lambda>k. Option.bind (slot_map key v k) (\<lambda>r. if P r then Some r else None))"
proof -
  show u: "keys_unique key ?w"
    using assms by (simp add: keys_unique_def somes_map_filter distinct_map_filter)
  have "r \<in> set (somes ?w) \<longleftrightarrow> Some r \<in> set v \<and> P r" for r
    by (auto simp: somes_map_filter set_somes)
  then have "Some r \<in> set ?w \<longleftrightarrow> Some r \<in> set v \<and> P r" for r
    by (simp only: set_somes)
  then show "slot_map key ?w = (\<lambda>k. Option.bind (slot_map key v k) (\<lambda>r. if P r then Some r else None))"
    by (intro slot_map_eqI [OF u]) (auto simp: Option.bind_eq_Some_conv slot_map_Some [OF assms])
qed

subsection \<open>Finding a slot\<close>

text \<open>The layout both files keep: the size is whole chunks, nothing lives above the fill mark.\<close>

definition vec_ok :: "nat \<Rightarrow> 'a option list \<Rightarrow> nat \<Rightarrow> nat \<Rightarrow> bool" where
  "vec_ok chunk v sz fill \<longleftrightarrow> length v = sz \<and> fill \<le> sz \<and> chunk \<le> sz \<and> chunk dvd sz
     \<and> (\<forall>p \<in> set (drop fill v). p = None)"

lemma vec_ok_above: "vec_ok chunk v sz fill \<Longrightarrow> fill \<le> j \<Longrightarrow> j < sz \<Longrightarrow> v ! j = None"
  unfolding vec_ok_def
  by (metis in_set_conv_nth le_add_diff_inverse length_drop nth_drop diff_less_mono)

lemma vec_ok_hit: "vec_ok chunk v sz fill \<Longrightarrow> Some r \<in> set v \<Longrightarrow> \<exists>i < fill. v ! i = Some r"
  by (metis in_set_conv_nth not_le option.distinct(1) vec_ok_above vec_ok_def)

lemma vec_ok_grown: "vec_ok chunk v sz fill \<Longrightarrow> vec_ok chunk (v @ replicate chunk None) (sz + chunk) fill"
  by (auto simp: vec_ok_def)

text \<open>Storing an entry and raising the fill mark to cover it keeps the layout.\<close>

lemma vec_ok_store:
  assumes "vec_ok chunk v sz fill" and "i < sz"
  shows "vec_ok chunk (v[i := x]) sz (max (Suc i) fill)"
proof -
  have "set (drop (max (Suc i) fill) (v[i := x])) \<subseteq> set (drop fill v)"
    by (simp add: drop_update_cancel set_drop_subset_set_drop)
  with assms show ?thesis
    by (auto simp: vec_ok_def subset_iff)
qed

lemma vec_ok_set:
  assumes "vec_ok chunk v sz fill" and "i < fill"
  shows "vec_ok chunk (v[i := x]) sz fill"
  using assms by (auto simp: vec_ok_def drop_update_cancel)

text \<open>The loop that looks for a null pointer: it stops at a free slot if and only if there is one.\<close>

lemma scan_free_hit:
  assumes "None \<in> set v"
  shows "\<exists>i. c_for 0 (length v) (\<lambda>i u. obind (read_at v i) (\<lambda>p. Ret (if p = None then Inl i else Inr u))) ()
    = Ret (Inl i) \<and> i < length v \<and> v ! i = None"
proof -
  let ?f = "\<lambda>j. if v ! j = None then Some j else None"
  from assms obtain k where "k < length v" "v ! k = None" by (metis in_set_conv_nth)
  then have "first_hit ?f 0 (length v) \<noteq> None" by (auto simp: first_hit_None)
  then obtain i where i: "first_hit ?f 0 (length v) = Some i" by auto
  then have "i < length v \<and> v ! i = None"
    by (auto dest!: first_hit_Some split: if_splits)
  with i show ?thesis by (subst c_for_search [where f = ?f]) auto
qed

lemma scan_free_full:
  assumes "None \<notin> set v"
  shows "c_for 0 (length v) (\<lambda>i u. obind (read_at v i) (\<lambda>p. Ret (if p = None then Inl i else Inr u))) ()
    = Ret (Inr ())"
proof -
  let ?f = "\<lambda>j. if v ! j = None then Some j else None"
  have "first_hit ?f 0 (length v) = None" using assms by (auto simp: first_hit_None dest: nth_mem)
  then show ?thesis by (subst c_for_search [where f = ?f]) auto
qed

text \<open>
  \<^verbatim>\<open>pos = find_free(&rv); if (pos == 0 && rv != RETVAL_OK) pos = grow();\<close>
\<close>

definition alloc_slot ::
  "('st \<Rightarrow> (nat \<times> int) outcome) \<Rightarrow> ('st \<Rightarrow> (nat \<times> 'st) outcome) \<Rightarrow> 'st \<Rightarrow> (nat \<times> 'st) outcome" where
  "alloc_slot find_free grow st =
     obind (find_free st) (\<lambda>(pos, rv).
       if pos = 0 \<and> rv \<noteq> RETVAL_OK then grow st else Ret (pos, st))"

text \<open>What \<^verbatim>\<open>records.c\<close> and \<^verbatim>\<open>exclude.c\<close> promise of their vectors.\<close>

locale slot_vector =
  fixes slots :: "'st \<Rightarrow> 'a option list"
    and vsize :: "'st \<Rightarrow> nat"
    and vfill :: "'st \<Rightarrow> nat"
    and chunk :: nat
    and find_free :: "'st \<Rightarrow> (nat \<times> int) outcome"
    and grow :: "bool \<Rightarrow> 'st \<Rightarrow> (nat \<times> 'st) outcome"
  assumes chunk_pos: "0 < chunk"
    and find_free_hit: "length (slots st) = vsize st \<Longrightarrow> None \<in> set (slots st) \<Longrightarrow>
          \<exists>i. find_free st = Ret (i, RETVAL_OK) \<and> i < vsize st \<and> slots st ! i = None"
    and find_free_full: "length (slots st) = vsize st \<Longrightarrow> None \<notin> set (slots st) \<Longrightarrow>
          find_free st = Ret (0, 1)"
    and grow_ok: "length (slots st) = vsize st \<Longrightarrow>
          \<exists>st'. grow True st = Ret (vsize st, st') \<and> slots st' = slots st @ replicate chunk None
            \<and> vsize st' = vsize st + chunk \<and> vfill st' = vfill st"
    and grow_fail: "grow False st = Exit 3"
begin

abbreviation lay :: "'st \<Rightarrow> bool" where
  "lay st \<equiv> vec_ok chunk (slots st) (vsize st) (vfill st)"

text \<open>The slot that comes back is free and inside the vector, and no entry is touched.\<close>

lemma alloc_slot_returns:
  assumes "lay st"
  shows "returns (alloc_slot find_free (grow True) st)
    (\<lambda>(pos, st'). lay st' \<and> pos < vsize st' \<and> slots st' ! pos = None
      \<and> vfill st' = vfill st \<and> (\<exists>n. slots st' = slots st @ replicate n None))"
proof (cases "None \<in> set (slots st)")
  case True
  with assms obtain i where "find_free st = Ret (i, RETVAL_OK)" "i < vsize st" "slots st ! i = None"
    using find_free_hit by (auto simp: vec_ok_def)
  with assms show ?thesis
    by (auto simp: alloc_slot_def intro!: exI [of _ 0])
next
  case False
  have len: "length (slots st) = vsize st" using assms by (simp add: vec_ok_def)
  obtain st' where g: "grow True st = Ret (vsize st, st')" "slots st' = slots st @ replicate chunk None"
      "vsize st' = vsize st + chunk" "vfill st' = vfill st"
    using grow_ok [OF len] by blast
  have "lay st'"
    using vec_ok_grown [OF assms] g by simp
  moreover have "slots st' ! vsize st = None"
    using g(2) len chunk_pos by (simp add: nth_append)
  ultimately show ?thesis
    using g find_free_full [OF len False] chunk_pos by (auto simp: alloc_slot_def)
qed

text \<open>Without memory the only other outcome is the exit of the process.\<close>

lemma alloc_slot_spec:
  assumes "lay st"
  shows "ospec (\<lambda>c. c = 3 \<and> \<not> ok) (alloc_slot find_free (grow ok) st)
    (\<lambda>(pos, st'). lay st' \<and> pos < vsize st' \<and> slots st' ! pos = None
      \<and> vfill st' = vfill st \<and> (\<exists>n. slots st' = slots st @ replicate n None))"
proof (cases "ok \<or> None \<in> set (slots st)")
  case True
  then have "alloc_slot find_free (grow ok) st = alloc_slot find_free (grow True) st"
  proof (cases ok)
    case False
    with True assms find_free_hit [of st] obtain i where "find_free st = Ret (i, RETVAL_OK)"
      by (auto simp: vec_ok_def)
    then show ?thesis by (simp add: alloc_slot_def)
  qed simp
  with alloc_slot_returns [OF assms] show ?thesis by (auto elim: ospec_mono)
next
  case False
  with assms show ?thesis
    by (auto simp: alloc_slot_def find_free_full vec_ok_def grow_fail)
qed

end

end
