(* ===== verification/Config.thy ===== *)
theory Config
  imports Prelude
begin

section \<open>The configuration (cfg.h, cfg.c)\<close>

text \<open>
  \<open>config\<close> is \<^verbatim>\<open>struct _config\<close>, its character arrays kept as arrays of their size.
  \<open>init_config\<close> and \<open>config_sanitize\<close> are \<^verbatim>\<open>_init_config\<close> and \<^verbatim>\<open>_config_sanitize\<close>. The
  compile-time path \<^verbatim>\<open>DEFAULT_PIDFILE\<close>, which the build passes with \<^verbatim>\<open>-D\<close>, is an argument.
\<close>

text \<open>One \<^verbatim>\<open>struct addrinfo\<close>; a result of \<^verbatim>\<open>getaddrinfo\<close> is a chain of them.\<close>

record addrinfo =
  ai_family :: int
  ai_socktype :: int
  ai_addr :: "char list"

type_synonym addrinfo_list = "addrinfo list list"

record config =
  cfg_pidfile :: "char list"
  cfg_syslogfile :: "char list"
  cfg_action :: "char list"
  cfg_exclude :: "char list"
  cfg_ssl_ca_file :: "char list"
  cfg_ssl_crl_file :: "char list"
  cfg_ssl_server_key :: "char list"
  cfg_ssl_server_cert :: "char list"
  cfg_ssl_client_key :: "char list"
  cfg_ssl_client_cert :: "char list"
  cfg_regex :: "char list"
  cfg_action_threshold :: i32
  cfg_time_interval :: i64
  cfg_purge_after :: i64
  cfg_server :: i32
  cfg_server_timeout :: i32
  cfg_server_backlog :: i32
  cfg_maxinconnections :: i32
  cfg_inform :: i32
  cfg_inform_retry :: i32
  cfg_inform_retry_wait :: i32
  cfg_remote_authoritative :: i32
  cfg_listen :: addrinfo_list
  cfg_inform_agents :: addrinfo_list

definition MAX_LISTEN :: nat where "MAX_LISTEN = 256"
definition MAX_INCONN :: i32 where "MAX_INCONN = 256"

abbreviation BACKSLASH :: char where "BACKSLASH \<equiv> CHR 0x5C"

text \<open>The default of \<^verbatim>\<open>regex\<close>: four groups of digits between backslashed dots.\<close>

definition DEFAULT_REGEX :: string where
  "DEFAULT_REGEX =
     (let octet = ''['' @ [BACKSLASH] @ ''d]{1,3}''; dot = [BACKSLASH] @ ''.'' in
      ''Failed keyboard-interactive for ['' @ [BACKSLASH] @ ''w ]+ from ('' @
      octet @ dot @ octet @ dot @ octet @ dot @ octet @ '')'')"

definition DEFAULT_LOGFILE :: string where "DEFAULT_LOGFILE = ''/var/log/authlog''"
definition DEFAULT_ACTION :: string where "DEFAULT_ACTION = ''/bin/true''"
definition DEFAULT_LISTEN_PORT :: string where "DEFAULT_LISTEN_PORT = ''48621''"
definition DEFAULT_LISTEN :: string where "DEFAULT_LISTEN = ''0.0.0.0:48621''"
definition DEFAULT_SERVER_BACKLOG :: i32 where "DEFAULT_SERVER_BACKLOG = 64"
definition DEFAULT_INFORM_RETRY :: i32 where "DEFAULT_INFORM_RETRY = 30"
definition DEFAULT_INFORM_RETRY_WAIT :: i32 where "DEFAULT_INFORM_RETRY_WAIT = 3"
definition DEFAULT_ACTION_THRESHOLD :: i32 where "DEFAULT_ACTION_THRESHOLD = 3"
definition DEFAULT_TIME_INTERVAL :: i64 where "DEFAULT_TIME_INTERVAL = 60"
definition DEFAULT_PURGE_AFTER :: i64 where "DEFAULT_PURGE_AFTER = 3600"
definition DEFAULT_SERVER_TIMEOUT :: i32 where "DEFAULT_SERVER_TIMEOUT = 5"
definition DEFAULT_MAXINCONNECTIONS :: i32 where "DEFAULT_MAXINCONNECTIONS = 5"

lemmas config_defaults = MAX_INCONN_def DEFAULT_SERVER_BACKLOG_def DEFAULT_INFORM_RETRY_def
  DEFAULT_INFORM_RETRY_WAIT_def DEFAULT_ACTION_THRESHOLD_def DEFAULT_TIME_INTERVAL_def
  DEFAULT_PURGE_AFTER_def DEFAULT_SERVER_TIMEOUT_def DEFAULT_MAXINCONNECTIONS_def

text \<open>
  \<^verbatim>\<open>_init_config\<close> writes into the global \<^verbatim>\<open>CONFIG\<close>, so it takes the old value:
  \<^verbatim>\<open>server_backlog\<close> and \<^verbatim>\<open>remote_authoritative\<close> are not among the fields it sets.
\<close>

definition init_config :: "string \<Rightarrow> config \<Rightarrow> config" where
  "init_config DEFAULT_PIDFILE c = c
     \<lparr> cfg_pidfile := strncpy DEFAULT_PIDFILE MAX_PATH,
       cfg_regex := strncpy DEFAULT_REGEX BUFFSIZE,
       cfg_syslogfile := strncpy DEFAULT_LOGFILE MAX_PATH,
       cfg_action := strncpy DEFAULT_ACTION MAX_PATH,
       cfg_exclude := strncpy [] MAX_PATH,
       cfg_ssl_ca_file := strncpy [] MAX_PATH,
       cfg_ssl_crl_file := strncpy [] MAX_PATH,
       cfg_ssl_server_key := strncpy [] MAX_PATH,
       cfg_ssl_server_cert := strncpy [] MAX_PATH,
       cfg_ssl_client_key := strncpy [] MAX_PATH,
       cfg_ssl_client_cert := strncpy [] MAX_PATH,
       cfg_action_threshold := DEFAULT_ACTION_THRESHOLD,
       cfg_time_interval := DEFAULT_TIME_INTERVAL,
       cfg_purge_after := DEFAULT_PURGE_AFTER,
       cfg_server := 0,
       cfg_server_timeout := DEFAULT_SERVER_TIMEOUT,
       cfg_inform := 0,
       cfg_inform_retry := DEFAULT_INFORM_RETRY,
       cfg_inform_retry_wait := DEFAULT_INFORM_RETRY_WAIT,
       cfg_maxinconnections := DEFAULT_MAXINCONNECTIONS,
       cfg_listen := [],
       cfg_inform_agents := [] \<rparr>"

text \<open>\<^verbatim>\<open>CONFIG\<close> before \<^verbatim>\<open>_init_config\<close>: static storage, all bytes zero.\<close>

definition zero_config :: config where
  "zero_config =
     (let z = replicate MAX_PATH NUL in
      \<lparr> cfg_pidfile = z, cfg_syslogfile = z, cfg_action = z, cfg_exclude = z, cfg_ssl_ca_file = z,
        cfg_ssl_crl_file = z, cfg_ssl_server_key = z, cfg_ssl_server_cert = z,
        cfg_ssl_client_key = z, cfg_ssl_client_cert = z, cfg_regex = replicate BUFFSIZE NUL,
        cfg_action_threshold = 0, cfg_time_interval = 0, cfg_purge_after = 0, cfg_server = 0,
        cfg_server_timeout = 0, cfg_server_backlog = 0, cfg_maxinconnections = 0, cfg_inform = 0,
        cfg_inform_retry = 0, cfg_inform_retry_wait = 0, cfg_remote_authoritative = 0,
        cfg_listen = [], cfg_inform_agents = [] \<rparr>)"

text \<open>
  The assignments of \<^verbatim>\<open>_config_sanitize\<close> concern one field each, so they are one record update;
  \<^verbatim>\<open>maxinconnections\<close> is assigned twice, first capped and then given its default.
\<close>

definition config_sanitize :: "config \<Rightarrow> config" where
  "config_sanitize c = c
     \<lparr> cfg_server_backlog :=
         (if cfg_server_backlog c <s 1 then DEFAULT_SERVER_BACKLOG else cfg_server_backlog c),
       cfg_maxinconnections :=
         (let m = if MAX_INCONN <s cfg_maxinconnections c then MAX_INCONN else cfg_maxinconnections c
          in if m <s 1 then DEFAULT_MAXINCONNECTIONS else m),
       cfg_server_timeout :=
         (if cfg_server_timeout c <s 1 then DEFAULT_SERVER_TIMEOUT else cfg_server_timeout c),
       cfg_inform_retry_wait :=
         (if cfg_inform_retry_wait c <s 1 then DEFAULT_INFORM_RETRY_WAIT else cfg_inform_retry_wait c),
       cfg_inform := (if cfg_inform c \<noteq> 0 then 1 else 0),
       cfg_server := (if cfg_server c \<noteq> 0 then 1 else 0),
       cfg_action_threshold :=
         (if cfg_action_threshold c <s 1 then DEFAULT_ACTION_THRESHOLD else cfg_action_threshold c),
       cfg_time_interval :=
         (if cfg_time_interval c <s 1 then DEFAULT_TIME_INTERVAL else cfg_time_interval c),
       cfg_purge_after :=
         (if cfg_purge_after c <s 1 then DEFAULT_PURGE_AFTER else cfg_purge_after c) \<rparr>"

subsection \<open>What sanitizing guarantees\<close>

definition config_sane :: "config \<Rightarrow> bool" where
  "config_sane c \<longleftrightarrow> 1 \<le> sint (cfg_server_backlog c)
     \<and> 1 \<le> sint (cfg_maxinconnections c) \<and> sint (cfg_maxinconnections c) \<le> 256
     \<and> 1 \<le> sint (cfg_server_timeout c) \<and> 1 \<le> sint (cfg_inform_retry_wait c)
     \<and> (cfg_inform c = 0 \<or> cfg_inform c = 1) \<and> (cfg_server c = 0 \<or> cfg_server c = 1)
     \<and> 1 \<le> sint (cfg_action_threshold c) \<and> 1 \<le> sint (cfg_time_interval c)
     \<and> 1 \<le> sint (cfg_purge_after c)"

lemma config_sane_sanitize: "config_sane (config_sanitize c)"
  unfolding config_sane_def config_sanitize_def config_defaults Let_def
  by (intro conjI) (simp_all add: word_sless_alt not_less)

lemma config_sanitize_sane:
  assumes "config_sane c"
  shows "config_sanitize c = c"
proof -
  have le32: "\<not> x <s 1" if "1 \<le> sint x" for x :: "32 word"
    using that by (simp add: word_sless_alt not_less)
  have le64: "\<not> x <s 1" if "1 \<le> sint x" for x :: "64 word"
    using that by (simp add: word_sless_alt not_less)
  have "\<not> MAX_INCONN <s cfg_maxinconnections c"
    using assms by (simp add: config_sane_def config_defaults word_sless_alt not_less)
  with assms show ?thesis
    unfolding config_sane_def config_sanitize_def Let_def
    by (intro config.equality) (auto simp: le32 le64)
qed

subsection \<open>A configuration for concrete runs\<close>

definition demo_config :: config where
  "demo_config = init_config ''/run/agentsmith.pid'' zero_config"

lemma demo_config_simps [simp]: "cfg_inform demo_config = 0" "cfg_remote_authoritative demo_config = 0"
    "cfg_action_threshold demo_config = 3" "cfg_time_interval demo_config = 60" "cfg_purge_after demo_config = 3600"
    "cfg_inform_retry demo_config = 30" "cfg_inform_agents demo_config = []"
  by (simp_all add: demo_config_def init_config_def zero_config_def config_defaults Let_def)

lemma demo_config_action [simp]: "terminated (cfg_action demo_config)"
  by (simp add: demo_config_def init_config_def strncpy_def DEFAULT_ACTION_def terminated_def MAX_PATH_def)

end
