(* ===== verification/Records.thy ===== *)
theory Records
  imports Slot_Vector Config "HOL-Library.Multiset"
begin

section \<open>The host record vector (records.h, records.c)\<close>

text \<open>
  The state \<open>records_st\<close> is the static variables of \<^verbatim>\<open>records.c\<close>; a null pointer in
  \<^verbatim>\<open>hr_vector\<close> is \<open>None\<close>. Each operation is its C function, the critical section included. The
  callbacks of the enumeration and of the maintenance run thread a state of their own (the client
  queues, the log of executed actions). After the definitions come the invariant
  \<open>records_inv\<close>, the view of the vector as a map from addresses to records, and the lemmas that
  say what each operation does to that map.
\<close>

subsection \<open>Data\<close>

datatype enum_mode = SYNC | ASYNC

record hostrecord =
  hr_origin :: "char list"
  hr_ipaddr :: "char list"
  hr_firstseen :: i64
  hr_lastseen :: i64
  hr_purge_after :: i64
  hr_time_interval :: i64
  hr_occurrences :: i32
  hr_action_threshold :: i32
  hr_remove :: i32
  hr_processed :: i32

type_synonym 's records_enum_callback = "hostrecord \<Rightarrow> 's \<Rightarrow> (int \<times> hostrecord \<times> 's) outcome"
type_synonym 's records_remove_callback = "hostrecord \<Rightarrow> 's \<Rightarrow> 's outcome"

record records_st =
  hr_vector :: "hostrecord option list"
  hr_vector_size :: nat
  hr_vector_fill :: nat
  hr_initialized :: bool

definition hr_vector_chunksize :: nat where "hr_vector_chunksize = 100"

text \<open>The statics at program start: no array yet, the initial size already set.\<close>

definition records_start :: records_st where
  "records_start = \<lparr>hr_vector = [], hr_vector_size = 100, hr_vector_fill = 0, hr_initialized = False\<rparr>"

subsection \<open>Internal helpers\<close>

text \<open>\<^verbatim>\<open>_records_enumerate\<close>: a callback that answers nonzero stops the loop; the function still
  reports success.\<close>

definition records_enumerate_sync ::
  "sysenv \<Rightarrow> 's records_enum_callback \<Rightarrow> records_st \<times> 's \<Rightarrow> (int \<times> records_st \<times> 's) outcome" where
  "records_enumerate_sync e cb sts =
     with_mutex e sts (\<lambda>(st, s).
       obind (c_for 0 (hr_vector_fill st) (\<lambda>i (v, s).
           obind (read_at v i) (\<lambda>p. case p of
             None \<Rightarrow> Ret (Inr (v, s))
           | Some r \<Rightarrow> obind (cb r s) (\<lambda>(rv, r', s').
               if rv \<noteq> 0 then Ret (Inl (v[i := Some r'], s')) else Ret (Inr (v[i := Some r'], s')))))
         (hr_vector st, s))
       (\<lambda>res. case res of
           Inl (v, s') \<Rightarrow> Ret (RETVAL_OK, st\<lparr>hr_vector := v\<rparr>, s')
         | Inr (v, s') \<Rightarrow> Ret (RETVAL_OK, st\<lparr>hr_vector := v\<rparr>, s')))"

text \<open>\<^verbatim>\<open>_records_enumerate_thread\<close>: an error is only logged.\<close>

definition records_enumerate_thread ::
  "sysenv \<Rightarrow> 's records_enum_callback \<Rightarrow> records_st \<times> 's \<Rightarrow> (records_st \<times> 's) outcome" where
  "records_enumerate_thread e cb sts =
     obind (records_enumerate_sync e cb sts) (\<lambda>(rv, sts'). Ret sts')"

definition records_vector_grow :: "bool \<Rightarrow> records_st \<Rightarrow> (nat \<times> records_st) outcome" where
  "records_vector_grow ok st =
     (let previous_size = hr_vector_size st;
          st = st\<lparr>hr_vector_size := hr_vector_size st + hr_vector_chunksize\<rparr>
      in if \<not> ok then Exit 3
         else Ret (previous_size,
                st\<lparr>hr_vector := hr_vector st @ replicate hr_vector_chunksize None\<rparr>))"

text \<open>\<^verbatim>\<open>_records_find\<close>; the address is given by the bytes it points to.\<close>

definition records_find :: "records_st \<Rightarrow> char list \<Rightarrow> (nat \<times> hostrecord) option outcome" where
  "records_find st ipaddr =
     obind (c_for 0 (hr_vector_fill st) (\<lambda>i u.
         obind (read_at (hr_vector st) i) (\<lambda>p. case p of
           None \<Rightarrow> Ret (Inr u)
         | Some r \<Rightarrow> obind (strcmp_eq (hr_ipaddr r) ipaddr) (\<lambda>eq.
             Ret (if eq then Inl (i, r) else Inr u)))) ())
       (\<lambda>res. Ret (case res of Inl hit \<Rightarrow> Some hit | Inr _ \<Rightarrow> None))"

definition records_find_free :: "records_st \<Rightarrow> (nat \<times> int) outcome" where
  "records_find_free st =
     obind (c_for 0 (hr_vector_size st) (\<lambda>i u.
         obind (read_at (hr_vector st) i) (\<lambda>p.
           Ret (if p = None then Inl i else Inr u))) ())
       (\<lambda>res. Ret (case res of Inl i \<Rightarrow> (i, RETVAL_OK) | Inr _ \<Rightarrow> (0, 1)))"

subsection \<open>Operations\<close>

definition records_init :: "sysenv \<Rightarrow> records_st \<Rightarrow> records_st outcome" where
  "records_init e st =
     c_assert (ndebug e) (\<not> hr_initialized st)
       (if \<not> malloc_ok e then Exit 3
        else if mutex_init_rv e \<noteq> 0 then Exit 3
        else Ret (st\<lparr>hr_vector := replicate (hr_vector_size st) None, hr_initialized := True\<rparr>))"

text \<open>\<^verbatim>\<open>records_destroy\<close> frees the entries and the array; \<^verbatim>\<open>initialized\<close> is not reset, and the
  freed array has no slot that may be accessed.\<close>

definition records_destroy ::
  "sysenv \<Rightarrow> 's records_remove_callback option \<Rightarrow> records_st \<times> 's \<Rightarrow> (records_st \<times> 's) outcome" where
  "records_destroy e cb sts = (case sts of (st, s) \<Rightarrow>
     c_assert (ndebug e) (hr_initialized st)
       (obind (c_for 0 (hr_vector_size st) (\<lambda>i s.
            obind (read_at (hr_vector st) i) (\<lambda>p. case p of
              None \<Rightarrow> Ret (Inr s)
            | Some r \<Rightarrow> (case cb of
                None \<Rightarrow> Ret (Inr s)
              | Some f \<Rightarrow> obind (f r s) (\<lambda>s'. Ret (Inr s'))))) s)
          (\<lambda>res. case res of
             Inl u \<Rightarrow> Ret (st\<lparr>hr_vector := []\<rparr>, u)
           | Inr s' \<Rightarrow> Ret (st\<lparr>hr_vector := []\<rparr>, s'))))"

text \<open>
  The rounding of \<^verbatim>\<open>records_maintenance\<close>, \<^verbatim>\<open>ceil((double) last_used / (double) chunk) * chunk\<close>,
  over the rationals: the quotients that occur are far from the precision of a \<^verbatim>\<open>double\<close>.
\<close>

definition chunks_ceil :: "nat \<Rightarrow> nat \<Rightarrow> nat" where
  "chunks_ceil last_used chunk = nat \<lceil>(of_nat last_used :: rat) / of_nat chunk\<rceil> * chunk"

text \<open>The first loop of \<^verbatim>\<open>records_maintenance\<close>: call back and free what is marked for removal.\<close>

definition records_purge ::
  "'s records_remove_callback option \<Rightarrow> records_st \<times> 's \<Rightarrow> (hostrecord option list \<times> 's) outcome" where
  "records_purge cb sts = (case sts of (st, s) \<Rightarrow>
     obind (c_for 0 (hr_vector_size st) (\<lambda>i (v, s).
         obind (read_at v i) (\<lambda>p. case p of
           None \<Rightarrow> Ret (Inr (v, s))
         | Some r \<Rightarrow>
             if hr_remove r \<noteq> 0
             then (case cb of
                None \<Rightarrow> Ret (Inr (v[i := None], s))
              | Some f \<Rightarrow> obind (f r s) (\<lambda>s'. Ret (Inr (v[i := None], s'))))
             else Ret (Inr (v, s)))) (hr_vector st, s))
       (\<lambda>res. case res of Inl vs \<Rightarrow> Ret vs | Inr vs \<Rightarrow> Ret vs))"

text \<open>Its second loop: one more than the index of the last used slot.\<close>

definition records_last_used :: "hostrecord option list \<Rightarrow> nat \<Rightarrow> nat outcome" where
  "records_last_used v sz =
     obind (c_for 0 sz (\<lambda>i last_used.
         obind (read_at v i) (\<lambda>p. Ret (Inr (if p \<noteq> None then i + 1 else last_used)))) 0)
       (\<lambda>res. case res of Inl n \<Rightarrow> Ret n | Inr n \<Rightarrow> Ret n)"

text \<open>The rest of \<^verbatim>\<open>records_maintenance\<close>: shrink the array to the chunks that are in use, if it has a free slot at its end.\<close>

definition records_shrink :: "sysenv \<Rightarrow> records_st \<Rightarrow> (int \<times> records_st) outcome" where
  "records_shrink e st =
     obind (records_last_used (hr_vector st) (hr_vector_size st)) (\<lambda>last_used.
       if last_used = hr_vector_size st then Ret (RETVAL_OK, st)
       else
         (let new_size = chunks_ceil last_used hr_vector_chunksize in
          c_assert (ndebug e) (new_size mod hr_vector_chunksize = 0)
            (let new_size = (if new_size < hr_vector_chunksize
                             then hr_vector_chunksize else new_size) in
             c_assert (ndebug e) (new_size \<ge> last_used)
               (if \<not> realloc_ok e then Exit 3
                else Ret (RETVAL_OK,
                       st\<lparr>hr_vector_size := new_size, hr_vector_fill := last_used,
                          hr_vector := take new_size (hr_vector st)\<rparr>)))))"

definition records_maintenance ::
  "sysenv \<Rightarrow> 's records_remove_callback option \<Rightarrow> records_st \<times> 's \<Rightarrow> (int \<times> records_st \<times> 's) outcome" where
  "records_maintenance e cb sts =
     c_assert (ndebug e) (hr_initialized (fst sts))
       (with_mutex e sts (\<lambda>(st, s).
          obind (records_purge cb (st, s)) (\<lambda>(v, s').
            obind (records_shrink e (st\<lparr>hr_vector := v\<rparr>)) (\<lambda>(rv, st'). Ret (rv, st', s')))))"

text \<open>What \<^verbatim>\<open>records_add_ip\<close> does to a record it finds: count the sighting if it is within the interval.\<close>

definition bump_record :: "i64 \<Rightarrow> hostrecord \<Rightarrow> hostrecord" where
  "bump_record t r =
     (let r = r\<lparr>hr_lastseen := t\<rparr> in
      if hr_lastseen r - hr_firstseen r <=s hr_time_interval r
      then r\<lparr>hr_occurrences := hr_occurrences r + 1\<rparr> else r)"

definition fresh_record :: "config \<Rightarrow> i64 \<Rightarrow> string \<Rightarrow> hostrecord" where
  "fresh_record CONFIG t ipaddr =
     \<lparr> hr_origin = (strncpy LOCALHOST IPADDR_SIZE)[IPADDR_SIZE - 1 := NUL],
       hr_ipaddr = (strncpy ipaddr IPADDR_SIZE)[IPADDR_SIZE - 1 := NUL],
       hr_firstseen = t,
       hr_lastseen = 0,
       hr_purge_after = cfg_purge_after CONFIG,
       hr_time_interval = cfg_time_interval CONFIG,
       hr_occurrences = 1,
       hr_action_threshold = cfg_action_threshold CONFIG,
       hr_remove = 0,
       hr_processed = 0 \<rparr>"

text \<open>The common tail of both add functions: find or make a slot, allocate, fill in, raise the mark.\<close>

definition records_store :: "sysenv \<Rightarrow> hostrecord \<Rightarrow> records_st \<Rightarrow> (int \<times> records_st) outcome" where
  "records_store e r st =
     obind (alloc_slot records_find_free (records_vector_grow (realloc_ok e)) st) (\<lambda>(pos, st1).
       if \<not> malloc_ok e
       then obind (write_at (hr_vector st1) pos None) (\<lambda>v. Ret (RETVAL_ERR, st1\<lparr>hr_vector := v\<rparr>))
       else obind (write_at (hr_vector st1) pos (Some r)) (\<lambda>v.
         Ret (RETVAL_OK, st1\<lparr>hr_vector := v,
           hr_vector_fill := (if pos + 1 > hr_vector_fill st1 then pos + 1 else hr_vector_fill st1)\<rparr>)))"

definition records_add_ip :: "sysenv \<Rightarrow> config \<Rightarrow> string \<Rightarrow> records_st \<Rightarrow> (int \<times> records_st) outcome" where
  "records_add_ip e CONFIG ipaddr st =
     c_assert (ndebug e) (hr_initialized st)
       (with_mutex e st (\<lambda>st.
          obind (records_find st (bytes_of ipaddr)) (\<lambda>hit. case hit of
            Some (i, r) \<Rightarrow>
              Ret (RETVAL_OK, st\<lparr>hr_vector := (hr_vector st)[i := Some (bump_record (now e) r)]\<rparr>)
          | None \<Rightarrow> records_store e (fresh_record CONFIG (now e) ipaddr) st)))"

text \<open>
  What \<^verbatim>\<open>records_add_record\<close> makes of a record \<open>old\<close> it finds: \<open>hr\<close> is copied over it, the old
  \<^verbatim>\<open>processed\<close> is kept, the counts are added (in \<^verbatim>\<open>uint32_t\<close>, so modulo $2^{32}$).
\<close>

definition merge_record :: "i64 \<Rightarrow> hostrecord \<Rightarrow> hostrecord \<Rightarrow> hostrecord" where
  "merge_record t hr old =
     bump_record t (hr\<lparr>hr_processed := hr_processed old,
                       hr_occurrences := hr_occurrences hr + hr_occurrences old\<rparr>)"

definition records_add_record :: "sysenv \<Rightarrow> hostrecord \<Rightarrow> records_st \<Rightarrow> (int \<times> records_st) outcome" where
  "records_add_record e hr st =
     c_assert (ndebug e) (hr_initialized st)
       (with_mutex e st (\<lambda>st.
          obind (records_find st (hr_ipaddr hr)) (\<lambda>hit. case hit of
            Some (i, r) \<Rightarrow>
              Ret (RETVAL_OK, st\<lparr>hr_vector := (hr_vector st)[i := Some (merge_record (now e) hr r)]\<rparr>)
          | None \<Rightarrow> records_store e hr st)))"

definition records_remove :: "sysenv \<Rightarrow> string \<Rightarrow> records_st \<Rightarrow> (int \<times> records_st) outcome" where
  "records_remove e ipaddr st =
     c_assert (ndebug e) (hr_initialized st)
       (with_mutex e st (\<lambda>st.
          obind (records_find st (bytes_of ipaddr)) (\<lambda>hit. case hit of
            Some (pos, r) \<Rightarrow> Ret (RETVAL_OK, st\<lparr>hr_vector := (hr_vector st)[pos := None]\<rparr>)
          | None \<Rightarrow> Ret (RETVAL_ERR, st))))"

text \<open>
  \<^verbatim>\<open>records_enumerate\<close>: in asynchronous mode a detached thread is created, which then runs
  \<open>records_enumerate_thread\<close>; the third component says whether it was.
\<close>

definition records_enumerate ::
  "sysenv \<Rightarrow> 's records_enum_callback \<Rightarrow> enum_mode \<Rightarrow> records_st \<times> 's \<Rightarrow> (int \<times> bool \<times> records_st \<times> 's) outcome" where
  "records_enumerate e cb mode sts =
     c_assert (ndebug e) (hr_initialized (fst sts))
       (if mode = ASYNC
        then (if pthread_rv e \<noteq> 0 then Ret (RETVAL_ERR, False, sts)
              else if \<not> malloc_ok e then Ret (RETVAL_ERR, False, sts)
              else Ret (RETVAL_OK, True, sts))
        else obind (records_enumerate_sync e cb sts) (\<lambda>(rv, sts'). Ret (rv, False, sts')))"

text \<open>\<^verbatim>\<open>records_get\<close> hands out the pointer; the model hands out the record it points to.\<close>

definition records_get :: "sysenv \<Rightarrow> string \<Rightarrow> records_st \<Rightarrow> hostrecord option outcome" where
  "records_get e ipaddr st =
     c_assert (ndebug e) (hr_initialized st)
       (if lock_rv e \<noteq> 0 then Ret None
        else obind (records_find st (bytes_of ipaddr)) (\<lambda>hit.
          if unlock_rv e \<noteq> 0 then Ret None else Ret (map_option snd hit)))"

subsection \<open>The vector keeps the layout of a slot vector\<close>

interpretation rv: slot_vector hr_vector hr_vector_size hr_vector_fill hr_vector_chunksize
  records_find_free records_vector_grow
proof (unfold_locales, goal_cases)
  case 1
  show ?case by (simp add: hr_vector_chunksize_def)
next
  case (2 st)
  then show ?case using scan_free_hit [OF 2(2)] by (auto simp: records_find_free_def)
next
  case (3 st)
  then show ?case using scan_free_full [OF 3(2)] by (simp add: records_find_free_def)
qed (simp_all add: records_vector_grow_def Let_def)

subsection \<open>The invariant and the map of records\<close>

definition ip_of :: "hostrecord \<Rightarrow> string" where
  "ip_of r = cstr (hr_ipaddr r)"

definition wf_hostrecord :: "hostrecord \<Rightarrow> bool" where
  "wf_hostrecord r \<longleftrightarrow> length (hr_origin r) = IPADDR_SIZE \<and> terminated (hr_origin r)
     \<and> length (hr_ipaddr r) = IPADDR_SIZE \<and> terminated (hr_ipaddr r)"

definition records_inv :: "records_st \<Rightarrow> bool" where
  "records_inv st \<longleftrightarrow> hr_initialized st
     \<and> vec_ok hr_vector_chunksize (hr_vector st) (hr_vector_size st) (hr_vector_fill st)
     \<and> list_all wf_hostrecord (somes (hr_vector st))
     \<and> keys_unique ip_of (hr_vector st)"

definition records_map :: "records_st \<Rightarrow> string \<Rightarrow> hostrecord option" where
  "records_map st = slot_map ip_of (hr_vector st)"

lemma records_invD:
  assumes "records_inv st"
  shows "hr_initialized st" and "length (hr_vector st) = hr_vector_size st"
    and "hr_vector_fill st \<le> hr_vector_size st"
    and "vec_ok hr_vector_chunksize (hr_vector st) (hr_vector_size st) (hr_vector_fill st)"
    and "Some r \<in> set (hr_vector st) \<Longrightarrow> wf_hostrecord r"
    and "keys_unique ip_of (hr_vector st)"
  using assms by (auto simp: records_inv_def vec_ok_def list_all_iff set_somes)

lemma records_map_Some:
  "records_inv st \<Longrightarrow> records_map st ip = Some r \<longleftrightarrow> Some r \<in> set (hr_vector st) \<and> ip_of r = ip"
  by (simp add: records_map_def slot_map_Some records_invD)

lemma records_map_wf: "records_inv st \<Longrightarrow> records_map st ip = Some r \<Longrightarrow> wf_hostrecord r \<and> ip_of r = ip"
  by (auto simp: records_map_Some dest: records_invD(5))

text \<open>The linear search is a lookup in the map.\<close>

lemma records_find_spec:
  assumes inv: "records_inv st" and a: "terminated a"
  shows "returns (records_find st a) (\<lambda>hit. case hit of
      None \<Rightarrow> records_map st (cstr a) = None
    | Some (i, r) \<Rightarrow> i < hr_vector_fill st \<and> hr_vector st ! i = Some r \<and> ip_of r = cstr a
        \<and> records_map st (cstr a) = Some r)"
proof -
  let ?f = "\<lambda>j. case hr_vector st ! j of None \<Rightarrow> None
    | Some r \<Rightarrow> if ip_of r = cstr a then Some (j, r) else None"
  note d = records_invD [OF inv]
  have "strcmp_eq (hr_ipaddr r) a = Ret (ip_of r = cstr a)" if "Some r \<in> set (hr_vector st)" for r
    using d(5) [OF that] a by (simp add: strcmp_eq_terminated ip_of_def wf_hostrecord_def)
  then have eq: "records_find st a = Ret (first_hit ?f 0 (hr_vector_fill st))"
    unfolding records_find_def using d(2,3)
    by (subst c_for_search [where f = ?f])
      (force split: option.splits dest: nth_mem simp: in_set_conv_nth)+
  show ?thesis
  proof (cases "first_hit ?f 0 (hr_vector_fill st)")
    case None
    then have "\<forall>j < hr_vector_fill st. ?f j = None" by (simp add: first_hit_None)
    then have "records_map st (cstr a) = None"
      using vec_ok_hit [OF d(4)] by (fastforce simp: records_map_def slot_map_None)
    with eq None show ?thesis by simp
  next
    case (Some h)
    then obtain j where j: "j < hr_vector_fill st" "?f j = Some h"
      by (auto dest: first_hit_Some)
    then obtain r where "h = (j, r)" "hr_vector st ! j = Some r" "ip_of r = cstr a"
      by (auto split: option.splits if_splits)
    moreover from this j d(2,3) have "Some r \<in> set (hr_vector st)"
      by (metis nth_mem order_less_le_trans)
    ultimately show ?thesis
      using eq Some j(1) by (simp add: records_map_Some [OF inv])
  qed
qed

text \<open>Overwriting a slot with a record of the same address, and freeing a slot.\<close>

lemma records_replace:
  assumes inv: "records_inv st" and i: "i < hr_vector_fill st" "hr_vector st ! i = Some r"
    and r': "wf_hostrecord r'" "ip_of r' = ip_of r"
  shows "records_inv (st\<lparr>hr_vector := (hr_vector st)[i := Some r']\<rparr>)"
    and "records_map (st\<lparr>hr_vector := (hr_vector st)[i := Some r']\<rparr>) = (records_map st)(ip_of r \<mapsto> r')"
proof -
  note d = records_invD [OF inv]
  have len: "i < length (hr_vector st)" using i d by simp
  note m = slot_map_replace [OF d(6) len i(2) r'(2)]
  show "records_inv (st\<lparr>hr_vector := (hr_vector st)[i := Some r']\<rparr>)"
    using inv m(1) r'(1) vec_ok_set [OF d(4) i(1)] somes_split [OF len] somes_upd [OF len]
    by (simp add: records_inv_def)
  show "records_map (st\<lparr>hr_vector := (hr_vector st)[i := Some r']\<rparr>) = (records_map st)(ip_of r \<mapsto> r')"
    using m(2) by (simp add: records_map_def)
qed

lemma records_free:
  assumes inv: "records_inv st" and i: "i < hr_vector_fill st" "hr_vector st ! i = Some r"
  shows "records_inv (st\<lparr>hr_vector := (hr_vector st)[i := None]\<rparr>)"
    and "records_map (st\<lparr>hr_vector := (hr_vector st)[i := None]\<rparr>) = (records_map st)(ip_of r := None)"
proof -
  note d = records_invD [OF inv]
  have len: "i < length (hr_vector st)" using i d by simp
  note m = slot_map_delete [OF d(6) len i(2)]
  show "records_inv (st\<lparr>hr_vector := (hr_vector st)[i := None]\<rparr>)"
    using inv i(2) m(1) vec_ok_set [OF d(4) i(1)] somes_split [OF len] somes_upd [OF len]
    by (simp add: records_inv_def)
  show "records_map (st\<lparr>hr_vector := (hr_vector st)[i := None]\<rparr>) = (records_map st)(ip_of r := None)"
    using m(2) by (simp add: records_map_def)
qed

text \<open>Storing a record of a new address.\<close>

lemma records_store_spec:
  assumes inv: "records_inv st" and r: "wf_hostrecord r" "records_map st (ip_of r) = None"
  shows "ospec (\<lambda>c. c = 3 \<and> \<not> realloc_ok e) (records_store e r st)
    (\<lambda>(rv, st'). records_inv st' \<and> rv = (if malloc_ok e then RETVAL_OK else RETVAL_ERR) \<and>
       records_map st' = (if malloc_ok e then (records_map st)(ip_of r \<mapsto> r) else records_map st))"
proof -
  note d = records_invD [OF inv]
  have step: "ospec (\<lambda>c. c = 3 \<and> \<not> realloc_ok e)
     (if \<not> malloc_ok e
       then obind (write_at (hr_vector st1) pos None) (\<lambda>v. Ret (RETVAL_ERR, st1\<lparr>hr_vector := v\<rparr>))
       else obind (write_at (hr_vector st1) pos (Some r)) (\<lambda>v.
         Ret (RETVAL_OK, st1\<lparr>hr_vector := v,
           hr_vector_fill := (if pos + 1 > hr_vector_fill st1 then pos + 1 else hr_vector_fill st1)\<rparr>)))
    (\<lambda>(rv, st'). records_inv st' \<and> rv = (if malloc_ok e then RETVAL_OK else RETVAL_ERR) \<and>
       records_map st' = (if malloc_ok e then (records_map st)(ip_of r \<mapsto> r) else records_map st))"
    if a: "rv.lay st1" "pos < hr_vector_size st1" "hr_vector st1 ! pos = None"
      "hr_vector_fill st1 = hr_vector_fill st" "hr_vector st1 = hr_vector st @ replicate n None"
      "hr_initialized st1 = hr_initialized st"
    for pos st1 n
  proof -
    have len: "pos < length (hr_vector st1)" using a(1,2) by (simp add: vec_ok_def)
    have so: "somes (hr_vector st1) = somes (hr_vector st)" using a(5) by simp
    have inv1: "records_inv st1" and map1: "records_map st1 = records_map st"
      using inv a(1,6) so by (auto simp: records_inv_def keys_unique_def records_map_def slot_map_def)
    have fresh: "slot_map ip_of (hr_vector st1) (ip_of r) = None"
      using r(2) map1 by (simp add: records_map_def)
    note ins = slot_map_insert [OF records_invD(6) [OF inv1] len a(3) fresh]
    have lay: "vec_ok hr_vector_chunksize ((hr_vector st1)[pos := Some r]) (hr_vector_size st1)
        (if pos + 1 > hr_vector_fill st1 then pos + 1 else hr_vector_fill st1)"
      using vec_ok_store [OF a(1,2), of "Some r"] by (simp add: max_def not_less_eq_eq split: if_splits)
    have "(hr_vector st1)[pos := None] = hr_vector st1"
      using a(3) by (metis list_update_id)
    with inv1 map1 ins lay len r(1) show ?thesis
      using somes_split [OF len] somes_upd [OF len]
      by (auto simp: records_inv_def records_map_def)
  qed
  have init: "hr_initialized st1 = hr_initialized st"
    if "alloc_slot records_find_free (records_vector_grow (realloc_ok e)) st = Ret (pos, st1)" for pos st1
    using that by (auto simp: alloc_slot_def records_vector_grow_def Let_def obind_eq_Ret split: if_splits)
  show ?thesis
    unfolding records_store_def
  proof (subst ospec_obind, rule ospec_mono [OF rv.alloc_slot_spec [OF d(4), of "realloc_ok e"]], goal_cases)
    case (1 x)
    then obtain pos st1 n where "x = (pos, st1)" "rv.lay st1" "pos < hr_vector_size st1"
        "hr_vector st1 ! pos = None" "hr_vector_fill st1 = hr_vector_fill st"
        "hr_vector st1 = hr_vector st @ replicate n None"
      by (auto split: prod.splits)
    with 1(1) show ?case using step init by simp
  qed
qed

subsection \<open>The operations on the map\<close>

text \<open>The abstract table: what a sighting and a received record do to it.\<close>

definition valid_ip :: "string \<Rightarrow> bool" where
  "valid_ip ip \<longleftrightarrow> is_cstring ip \<and> length ip < IPADDR_SIZE"

definition host_seen :: "config \<Rightarrow> i64 \<Rightarrow> string \<Rightarrow> (string \<Rightarrow> hostrecord option) \<Rightarrow> string \<Rightarrow> hostrecord option" where
  "host_seen CONFIG t ip m = m(ip \<mapsto> (case m ip of
       None \<Rightarrow> fresh_record CONFIG t ip
     | Some r \<Rightarrow> r\<lparr>hr_lastseen := t, hr_occurrences := hr_occurrences r
         + (if t - hr_firstseen r <=s hr_time_interval r then 1 else 0)\<rparr>))"

definition host_merge :: "i64 \<Rightarrow> hostrecord \<Rightarrow> (string \<Rightarrow> hostrecord option) \<Rightarrow> string \<Rightarrow> hostrecord option" where
  "host_merge t hr m = m(ip_of hr \<mapsto> (case m (ip_of hr) of
       None \<Rightarrow> hr
     | Some old \<Rightarrow> hr\<lparr>hr_processed := hr_processed old, hr_lastseen := t,
         hr_occurrences := hr_occurrences hr + hr_occurrences old
           + (if t - hr_firstseen hr <=s hr_time_interval hr then 1 else 0)\<rparr>))"

text \<open>These are the updates the code makes.\<close>

lemma bump_record_eq: "bump_record t r = r\<lparr>hr_lastseen := t, hr_occurrences := hr_occurrences r
    + (if t - hr_firstseen r <=s hr_time_interval r then 1 else 0)\<rparr>"
  by (simp add: bump_record_def)

lemma merge_record_eq: "merge_record t hr old = hr\<lparr>hr_processed := hr_processed old, hr_lastseen := t,
    hr_occurrences := hr_occurrences hr + hr_occurrences old + (if t - hr_firstseen hr <=s hr_time_interval hr then 1 else 0)\<rparr>"
  by (simp add: merge_record_def bump_record_eq)

lemma host_seen_bump: "host_seen CONFIG t ip m =
    m(ip \<mapsto> (case m ip of None \<Rightarrow> fresh_record CONFIG t ip | Some r \<Rightarrow> bump_record t r))"
  by (simp only: host_seen_def bump_record_eq)

lemma host_merge_record: "host_merge t hr m =
    m(ip_of hr \<mapsto> (case m (ip_of hr) of None \<Rightarrow> hr | Some r \<Rightarrow> merge_record t hr r))"
  by (simp only: host_merge_def merge_record_eq)

lemma bump_record_simps [simp]:
  "hr_ipaddr (bump_record t r) = hr_ipaddr r" "hr_origin (bump_record t r) = hr_origin r"
  "hr_lastseen (bump_record t r) = t" "hr_firstseen (bump_record t r) = hr_firstseen r"
  "hr_processed (bump_record t r) = hr_processed r" "hr_remove (bump_record t r) = hr_remove r"
  "hr_time_interval (bump_record t r) = hr_time_interval r"
  "hr_purge_after (bump_record t r) = hr_purge_after r"
  "hr_action_threshold (bump_record t r) = hr_action_threshold r"
  by (auto simp: bump_record_def Let_def)

lemma bump_record_occurrences:
  "hr_occurrences (bump_record t r) =
     (if t - hr_firstseen r <=s hr_time_interval r then hr_occurrences r + 1 else hr_occurrences r)"
  by (simp add: bump_record_def Let_def)

lemma bump_record_wf [simp]: "wf_hostrecord (bump_record t r) = wf_hostrecord r" "ip_of (bump_record t r) = ip_of r"
  by (simp_all add: wf_hostrecord_def ip_of_def)

lemma merge_record_wf [simp]: "wf_hostrecord (merge_record t hr r) = wf_hostrecord hr" "ip_of (merge_record t hr r) = ip_of hr"
  by (simp_all add: merge_record_def) (simp_all add: wf_hostrecord_def ip_of_def)

lemma fresh_record_wf: "valid_ip ip \<Longrightarrow> wf_hostrecord (fresh_record CONFIG t ip) \<and> ip_of (fresh_record CONFIG t ip) = ip"
  using strncpy_terminated [of IPADDR_SIZE] cstr_strncpy [of ip IPADDR_SIZE]
  by (simp add: valid_ip_def wf_hostrecord_def ip_of_def fresh_record_def IPADDR_SIZE_def)

text \<open>The shape both add functions share: update the record of the address, or store a new one.\<close>

lemma records_upsert:
  fixes e :: sysenv
  assumes inv: "records_inv st" and a: "terminated a"
    and new: "wf_hostrecord new" "ip_of new = cstr a"
    and upd: "\<And>r. wf_hostrecord r \<Longrightarrow> ip_of r = cstr a \<Longrightarrow> wf_hostrecord (upd r) \<and> ip_of (upd r) = cstr a"
  defines "tbl \<equiv> (records_map st)(cstr a \<mapsto> (case records_map st (cstr a) of None \<Rightarrow> new | Some r \<Rightarrow> upd r))"
    and "ok \<equiv> malloc_ok e \<or> records_map st (cstr a) \<noteq> None"
  shows "ospec (\<lambda>c. c = 3 \<and> \<not> realloc_ok e)
      (obind (records_find st a) (\<lambda>hit. case hit of
            Some (i, r) \<Rightarrow> Ret (RETVAL_OK, st\<lparr>hr_vector := (hr_vector st)[i := Some (upd r)]\<rparr>)
          | None \<Rightarrow> records_store e new st))
      (\<lambda>(rv, st'). records_inv st' \<and> rv = (if ok then RETVAL_OK else RETVAL_ERR)
        \<and> records_map st' = (if ok then tbl else records_map st))"
proof (subst ospec_obind, rule ospec_mono [OF records_find_spec [OF inv a]], goal_cases)
  case (1 hit)
  show ?case
  proof (cases hit)
    case None
    with 1 have free: "records_map st (cstr a) = None" by simp
    have "ospec (\<lambda>c. c = 3 \<and> \<not> realloc_ok e) (records_store e new st)
      (\<lambda>(rv, st'). records_inv st' \<and> rv = (if ok then RETVAL_OK else RETVAL_ERR)
        \<and> records_map st' = (if ok then tbl else records_map st))"
      by (rule ospec_mono [OF records_store_spec [OF inv new(1), of e]])
        (use free new(2) in \<open>auto simp: tbl_def ok_def split: if_splits\<close>)
    with None show ?thesis by simp
  next
    case (Some x)
    then obtain i r where hit: "hit = Some (i, r)" by (cases x) auto
    with 1 have r: "i < hr_vector_fill st" "hr_vector st ! i = Some r" "ip_of r = cstr a"
        "records_map st (cstr a) = Some r" by auto
    note u = upd [OF conjunct1 [OF records_map_wf [OF inv r(4)]] r(3)]
    from records_replace [OF inv r(1,2), of "upd r"] u r(3,4) hit show ?thesis
      by (simp add: tbl_def ok_def)
  qed
qed simp

text \<open>
  Both add functions on every path: without the lock, or without the memory for a record that is not there yet, nothing
  happens; otherwise the table is updated, and only a failing unlock then turns the success into an error.
\<close>

definition table_updated :: "sysenv \<Rightarrow> records_st \<Rightarrow> string \<Rightarrow> (string \<Rightarrow> hostrecord option) \<Rightarrow> int \<times> records_st \<Rightarrow> bool" where
  "table_updated e st ip after x \<longleftrightarrow> (let (rv, st') = x; stored = (malloc_ok e \<or> records_map st ip \<noteq> None) in
     records_inv st' \<and>
     (if lock_rv e \<noteq> 0 then rv = RETVAL_ERR \<and> st' = st
      else records_map st' = (if stored then after else records_map st)
        \<and> rv = (if stored \<and> unlock_rv e = 0 then RETVAL_OK else RETVAL_ERR)))"

lemma records_add_ip_exact:
  assumes inv: "records_inv st" and ip: "valid_ip ip"
  shows "ospec (\<lambda>c. c = 3 \<and> \<not> realloc_ok e) (records_add_ip e CONFIG ip st)
    (table_updated e st ip (host_seen CONFIG (now e) ip (records_map st)))"
proof -
  have cs: "cstr (bytes_of ip) = ip" using ip by (simp add: valid_ip_def)
  have new: "wf_hostrecord (fresh_record CONFIG (now e) ip)" "ip_of (fresh_record CONFIG (now e) ip) = ip"
    using fresh_record_wf [OF ip] by auto
  note body = records_upsert [OF inv terminated_bytes_of [of ip], unfolded cs, OF new,
      of "bump_record (now e)" e, folded host_seen_bump]
  show ?thesis
    unfolding records_add_ip_def c_assert_holds [OF records_invD(1) [OF inv]]
    by (rule ospec_mono, rule ospec_with_mutex, rule body)
      (use inv in \<open>auto simp: table_updated_def Let_def split: if_splits\<close>)
qed

lemma records_add_record_exact:
  assumes inv: "records_inv st" and hr: "wf_hostrecord hr"
  shows "ospec (\<lambda>c. c = 3 \<and> \<not> realloc_ok e) (records_add_record e hr st)
    (table_updated e st (ip_of hr) (host_merge (now e) hr (records_map st)))"
proof -
  have t: "terminated (hr_ipaddr hr)" using hr by (simp add: wf_hostrecord_def)
  note body = records_upsert [OF inv t hr, folded ip_of_def,
      OF refl, of "merge_record (now e) hr" e, folded host_merge_record]
  show ?thesis
    unfolding records_add_record_def c_assert_holds [OF records_invD(1) [OF inv]]
    by (rule ospec_mono, rule ospec_with_mutex, rule body)
      (use hr inv in \<open>auto simp: table_updated_def Let_def split: if_splits\<close>)
qed

text \<open>What callers need of it.\<close>

lemma records_add_ip_spec:
  assumes "records_inv st" and "valid_ip ip"
  shows "ospec (\<lambda>c. c = 3 \<and> \<not> realloc_ok e) (records_add_ip e CONFIG ip st)
    (\<lambda>(rv, st'). records_inv st' \<and> (rv = RETVAL_OK \<longrightarrow> records_map st' = host_seen CONFIG (now e) ip (records_map st))
      \<and> (sys_ok e \<longrightarrow> rv = RETVAL_OK)
      \<and> records_map st' \<in> {records_map st, host_seen CONFIG (now e) ip (records_map st)})"
  by (rule ospec_mono [OF records_add_ip_exact [OF assms]])
    (auto simp: table_updated_def Let_def sys_ok_def split: if_splits)

lemma records_add_record_spec:
  assumes "records_inv st" and "wf_hostrecord hr"
  shows "ospec (\<lambda>c. c = 3 \<and> \<not> realloc_ok e) (records_add_record e hr st)
    (\<lambda>(rv, st'). records_inv st' \<and> (rv = RETVAL_OK \<longrightarrow> records_map st' = host_merge (now e) hr (records_map st))
      \<and> (sys_ok e \<longrightarrow> rv = RETVAL_OK)
      \<and> records_map st' \<in> {records_map st, host_merge (now e) hr (records_map st)})"
  by (rule ospec_mono [OF records_add_record_exact [OF assms]])
    (auto simp: table_updated_def Let_def sys_ok_def split: if_splits)

lemma records_remove_spec:
  assumes inv: "records_inv st" and ip: "is_cstring ip"
  shows "returns (records_remove e ip st) (\<lambda>(rv, st'). records_inv st'
    \<and> (rv = RETVAL_OK \<longrightarrow> records_map st ip \<noteq> None \<and> records_map st' = (records_map st)(ip := None))
    \<and> (sys_ok e \<longrightarrow> (rv = RETVAL_OK \<longleftrightarrow> records_map st ip \<noteq> None)))"
proof -
  have cs: "cstr (bytes_of ip) = ip" using ip by simp
  have body: "returns (obind (records_find st (bytes_of ip)) (\<lambda>hit. case hit of
            Some (pos, r) \<Rightarrow> Ret (RETVAL_OK, st\<lparr>hr_vector := (hr_vector st)[pos := None]\<rparr>)
          | None \<Rightarrow> Ret (RETVAL_ERR, st)))
      (\<lambda>(rv, st'). records_inv st' \<and> (rv = RETVAL_OK \<longleftrightarrow> records_map st ip \<noteq> None)
        \<and> (rv = RETVAL_OK \<longrightarrow> records_map st' = (records_map st)(ip := None)))"
    by (subst ospec_obind, rule ospec_mono [OF records_find_spec [OF inv terminated_bytes_of [of ip]]])
      (use inv in \<open>auto simp: cs records_free split: option.splits\<close>)
  show ?thesis
    unfolding records_remove_def c_assert_holds [OF records_invD(1) [OF inv]]
    by (rule ospec_mono, rule ospec_with_mutex, rule body)
      (use inv in \<open>auto simp: sys_ok_def split: if_splits\<close>)
qed

lemma records_get_spec:
  assumes inv: "records_inv st" and ip: "is_cstring ip" and "sys_ok e"
  shows "records_get e ip st = Ret (records_map st ip)"
proof -
  obtain hit where h: "records_find st (bytes_of ip) = Ret hit" "case hit of
      None \<Rightarrow> records_map st ip = None
    | Some (i, r) \<Rightarrow> i < hr_vector_fill st \<and> hr_vector st ! i = Some r \<and> ip_of r = ip
        \<and> records_map st ip = Some r"
    using records_find_spec [OF inv terminated_bytes_of [of ip], unfolded cstr_bytes_of [OF ip]]
    by (auto simp: returns_iff)
  with assms records_invD(1) [OF inv] show ?thesis
    by (auto simp: records_get_def c_assert_holds sys_ok_def split: option.splits)
qed

lemma records_init_spec:
  assumes "\<not> hr_initialized st" and "hr_vector_size st = hr_vector_chunksize" and "hr_vector_fill st = 0"
    and "sys_ok e"
  shows "returns (records_init e st) (\<lambda>st'. records_inv st' \<and> records_map st' = (\<lambda>_. None))"
  using assms by (auto simp: records_init_def sys_ok_def records_inv_def vec_ok_def keys_unique_def
      records_map_def slot_map_def)

subsection \<open>Enumeration\<close>

text \<open>
  A callback that always answers 0, rewrites the record with \<open>f\<close> (keeping its address and form)
  and folds \<open>g\<close> over its own state: every record is visited once, in slot order.
\<close>

definition cb_ok :: "(hostrecord \<Rightarrow> bool) \<Rightarrow> ('s \<Rightarrow> bool) \<Rightarrow> 's records_enum_callback \<Rightarrow>
    (hostrecord \<Rightarrow> hostrecord) \<Rightarrow> (hostrecord \<Rightarrow> 's \<Rightarrow> 's) \<Rightarrow> bool" where
  "cb_ok P Q cb f g \<longleftrightarrow> (\<forall>r s. wf_hostrecord r \<longrightarrow> P r \<longrightarrow> Q s \<longrightarrow>
     cb r s = Ret (0, f r, g r s) \<and> Q (g r s) \<and> wf_hostrecord (f r) \<and> ip_of (f r) = ip_of r)"

lemma records_enumerate_sync_spec:
  assumes inv: "records_inv st" and cb: "cb_ok P Q cb f g" and P: "\<And>r. Some r \<in> set (hr_vector st) \<Longrightarrow> P r"
    and Q: "Q s" and ok: "sys_ok e"
  shows "\<exists>st'. records_enumerate_sync e cb (st, s) = Ret (RETVAL_OK, st', fold g (somes (hr_vector st)) s)
    \<and> records_inv st' \<and> records_map st' = (\<lambda>ip. map_option f (records_map st ip))
    \<and> somes (hr_vector st') = map f (somes (hr_vector st)) \<and> Q (fold g (somes (hr_vector st)) s)"
proof -
  note d = records_invD [OF inv]
  let ?v = "hr_vector st" and ?n = "hr_vector_fill st"
  let ?F = "map_option f" and ?G = "\<lambda>p t. case p of None \<Rightarrow> t | Some r \<Rightarrow> g r t"
  let ?body = "\<lambda>i (v, s). obind (read_at v i) (\<lambda>p. case p of
             None \<Rightarrow> Ret (Inr (v, s))
           | Some r \<Rightarrow> obind (cb r s) (\<lambda>(rv, r', s').
               if rv \<noteq> 0 then Ret (Inl (v[i := Some r'], s')) else Ret (Inr (v[i := Some r'], s'))))"
  have le: "?n \<le> length ?v" using d by simp
  have loop: "c_for 0 ?n ?body (?v, s) = Ret (Inr (map ?F (take ?n ?v) @ drop ?n ?v, fold ?G (take ?n ?v) s))
      \<and> Q (fold ?G (take ?n ?v) s)"
  proof (rule c_for_slots [OF le, of Q s ?body ?F ?G, OF Q], goal_cases)
    case (1 i w t)
    then have i: "i < length w" "i < length ?v" using le by auto
    show ?case
    proof (cases "?v ! i")
      case None
      with 1 i show ?thesis by simp (metis list_update_id)
    next
      case (Some r)
      then have "wf_hostrecord r" "P r" using d(5) P i(2) by (metis nth_mem)+
      with cb 1 Some i show ?thesis by (auto simp: cb_ok_def)
    qed
  qed
  have vec: "map ?F (take ?n ?v) @ drop ?n ?v = map ?F ?v"
  proof -
    have "map ?F (drop ?n ?v) = drop ?n ?v"
      using d(4) by (auto simp: vec_ok_def intro: map_idI)
    then show ?thesis by (metis append_take_drop_id map_append)
  qed
  have fo: "fold ?G (take ?n ?v) s = fold g (somes ?v) s"
    using vec_ok_above [OF d(4)] d(2)
    by (subst fold_slots [where g = g]) (auto simp: somes_take_rest)
  let ?st = "st\<lparr>hr_vector := map ?F ?v\<rparr>"
  have keep: "wf_hostrecord (f r) \<and> ip_of (f r) = ip_of r" if "Some r \<in> set ?v" for r
    using cb Q d(5) [OF that] P [OF that] by (auto simp: cb_ok_def)
  have "vec_ok hr_vector_chunksize (map ?F ?v) (hr_vector_size st) ?n"
    using d(4) by (auto simp: vec_ok_def drop_map)
  then have "records_inv ?st"
    using inv keep by (auto simp: records_inv_def somes_map_option list_all_iff set_somes keys_unique_map_option)
  moreover have "records_map ?st = (\<lambda>ip. ?F (records_map st ip))"
    using slot_map_map_option [OF d(6)] keep by (simp add: records_map_def)
  ultimately show ?thesis
    using ok loop unfolding vec fo
    by (simp add: records_enumerate_sync_def with_mutex_ok sys_ok_def somes_map_option)
qed

text \<open>Whatever the callback answers, if it keeps the form of the records the invariant survives.\<close>

lemma records_enumerate_sync_inv:
  assumes inv: "records_inv st" and Q: "Q s"
    and cb: "\<And>r t. wf_hostrecord r \<Longrightarrow> Q t \<Longrightarrow>
      ospec E (cb r t) (\<lambda>(rv, r', t'). wf_hostrecord r' \<and> ip_of r' = ip_of r \<and> Q t')"
  shows "ospec E (records_enumerate_sync e cb (st, s))
    (\<lambda>(rv, st', s'). records_inv st' \<and> dom (records_map st') = dom (records_map st) \<and> Q s')"
proof -
  let ?J = "\<lambda>(v, t). records_inv (st\<lparr>hr_vector := v\<rparr>)
    \<and> dom (records_map (st\<lparr>hr_vector := v\<rparr>)) = dom (records_map st) \<and> Q t"
  let ?body = "\<lambda>i (v, s). obind (read_at v i) (\<lambda>p. case p of
             None \<Rightarrow> Ret (Inr (v, s))
           | Some r \<Rightarrow> obind (cb r s) (\<lambda>(rv, r', s').
               if rv \<noteq> 0 then Ret (Inl (v[i := Some r'], s')) else Ret (Inr (v[i := Some r'], s'))))"
  have "ospec E (c_for 0 (hr_vector_fill st) ?body (hr_vector st, s)) (case_sum ?J ?J)"
  proof (rule c_for_rule [where I = "\<lambda>_. ?J"], goal_cases)
    case (3 i x)
    obtain v t where x: "x = (v, t)" by (cases x)
    let ?st = "st\<lparr>hr_vector := v\<rparr>"
    from 3 x have J: "records_inv ?st" "dom (records_map ?st) = dom (records_map st)" "Q t"
      and i: "i < hr_vector_fill ?st" by auto
    note d = records_invD [OF J(1)]
    have len: "i < length v" using i d by simp
    show ?case
    proof (cases "v ! i")
      case None
      with x J len show ?thesis by simp
    next
      case (Some r)
      then have r: "Some r \<in> set (hr_vector ?st)" using len by (metis nth_mem records_st.select_convs(1)
            records_st.surjective records_st.update_convs(1))
      from Some i have sl: "hr_vector ?st ! i = Some r" by simp
      have new: "?J (v[i := Some r'], t')"
        if "wf_hostrecord r' \<and> ip_of r' = ip_of r \<and> Q t'" for r' t'
      proof -
        note rep = records_replace [OF J(1) i sl, of r']
        have "records_map ?st (ip_of r) \<noteq> None"
          using r by (auto simp: records_map_def slot_map_None)
        with that rep J(2) show ?thesis by (auto simp: dom_def)
      qed
      have "ospec E (cb r t) (\<lambda>y. ospec E (case y of (rv, r', s') \<Rightarrow>
          if rv \<noteq> 0 then Ret (Inl (v[i := Some r'], s')) else Ret (Inr (v[i := Some r'], s'))) (case_sum ?J ?J))"
        by (rule ospec_mono [OF cb [OF d(5) [OF r] J(3)]]) (use new in auto)
      with x Some len show ?thesis by (simp add: ospec_obind)
    qed
  qed (use inv Q in auto)
  then have body: "ospec E (obind (c_for 0 (hr_vector_fill st) ?body (hr_vector st, s))
       (\<lambda>res. case res of
           Inl (v, s') \<Rightarrow> Ret (RETVAL_OK, st\<lparr>hr_vector := v\<rparr>, s')
         | Inr (v, s') \<Rightarrow> Ret (RETVAL_OK, st\<lparr>hr_vector := v\<rparr>, s')))
     (\<lambda>(rv, st', s'). records_inv st' \<and> dom (records_map st') = dom (records_map st) \<and> Q s')"
    unfolding ospec_obind by (elim ospec_mono) (auto split: sum.splits)
  show ?thesis
    unfolding records_enumerate_sync_def
    by (rule ospec_mono, rule ospec_with_mutex [where R = "\<lambda>_ (st', s'). records_inv st'
          \<and> dom (records_map st') = dom (records_map st) \<and> Q s'"])
      (use body inv Q in \<open>auto split: if_splits\<close>)
qed

subsection \<open>Maintenance\<close>

lemma chunks_ceil_bounds:
  assumes "0 < c"
  shows "n \<le> chunks_ceil n c" and "c dvd chunks_ceil n c"
    and "c dvd m \<Longrightarrow> n \<le> m \<Longrightarrow> chunks_ceil n c \<le> m"
proof -
  let ?q = "(of_nat n :: rat) / of_nat c"
  have q0: "0 \<le> \<lceil>?q\<rceil>" by (simp add: le_ceiling_iff order_less_le_trans [of _ 0])
  have "of_nat n = ?q * of_nat c" using assms by simp
  also have "\<dots> \<le> of_int \<lceil>?q\<rceil> * of_nat c" by (intro mult_right_mono) auto
  also have "\<dots> = of_nat (nat \<lceil>?q\<rceil> * c)" using q0 by simp
  finally show "n \<le> chunks_ceil n c" unfolding chunks_ceil_def by (simp only: of_nat_le_iff)
  show "c dvd chunks_ceil n c" by (simp add: chunks_ceil_def)
  show "chunks_ceil n c \<le> m" if m: "c dvd m" "n \<le> m"
  proof -
    obtain k where k: "m = k * c" using m(1) by (metis dvdE mult.commute)
    have "(of_nat n :: rat) \<le> of_nat k * of_nat c" using m(2) k by (metis of_nat_le_iff of_nat_mult)
    then have "?q \<le> of_int (int k)" using assms by (simp add: pos_divide_le_eq)
    then have "\<lceil>?q\<rceil> \<le> int k" by (simp only: ceiling_le_iff)
    then have "nat \<lceil>?q\<rceil> \<le> k" using q0 by linarith
    then show ?thesis using k by (simp add: chunks_ceil_def)
  qed
qed

text \<open>The purge loop frees exactly the marked records and hands each of them to the callback.\<close>

definition keep_record :: "hostrecord option \<Rightarrow> hostrecord option" where
  "keep_record p = Option.bind p (\<lambda>r. if hr_remove r = 0 then Some r else None)"

lemma keep_record_None [simp]: "keep_record None = None"
  by (simp add: keep_record_def)

lemma keep_record_SomeD: "keep_record p = Some r \<Longrightarrow> p = Some r \<and> hr_remove r = 0"
  by (auto simp: keep_record_def Option.bind_eq_Some_conv split: if_splits)

definition rm_ok :: "('s \<Rightarrow> bool) \<Rightarrow> 's records_remove_callback option \<Rightarrow> (hostrecord \<Rightarrow> 's \<Rightarrow> 's) \<Rightarrow> bool" where
  "rm_ok Q cb g \<longleftrightarrow> (case cb of
       None \<Rightarrow> (\<forall>r s. g r s = s)
     | Some h \<Rightarrow> (\<forall>r s. wf_hostrecord r \<longrightarrow> Q s \<longrightarrow> h r s = Ret (g r s) \<and> Q (g r s)))"

lemma records_purge_spec:
  fixes s :: 's
  assumes inv: "records_inv st" and cb: "rm_ok Q cb g" and Q: "Q s"
  defines "s' \<equiv> fold g (filter (\<lambda>r. hr_remove r \<noteq> 0) (somes (hr_vector st))) s"
  shows "records_purge cb (st, s) = Ret (map keep_record (hr_vector st), s') \<and> Q s'"
proof -
  note d = records_invD [OF inv]
  let ?v = "hr_vector st" and ?n = "hr_vector_size st"
  let ?G = "\<lambda>p t. case p of None \<Rightarrow> t | Some r \<Rightarrow> if hr_remove r \<noteq> 0 then g r t else t"
  let ?body = "(\<lambda>i (v, s). obind (read_at v i) (\<lambda>p. case p of
           None \<Rightarrow> Ret (Inr (v, s))
         | Some r \<Rightarrow>
             if hr_remove r \<noteq> 0
             then (case cb of
                None \<Rightarrow> Ret (Inr (v[i := None], s))
              | Some f \<Rightarrow> obind (f r s) (\<lambda>s'. Ret (Inr (v[i := None], s'))))
             else Ret (Inr (v, s))))
    :: nat \<Rightarrow> hostrecord option list \<times> 's \<Rightarrow>
         ((hostrecord option list \<times> 's) + (hostrecord option list \<times> 's)) outcome"
  have loop: "c_for 0 ?n ?body (?v, s) =
      Ret (Inr (map keep_record (take ?n ?v) @ drop ?n ?v, fold ?G (take ?n ?v) s))
      \<and> Q (fold ?G (take ?n ?v) s)"
  proof (rule c_for_slots [of ?n ?v Q s ?body keep_record ?G], goal_cases)
    case (3 i w t)
    then have i: "i < length w" "i < length ?v" using d by auto
    have same: "w[i := w ! i] = w" by simp
    show ?case
    proof (cases "?v ! i")
      case None
      with 3 i same show ?thesis by (simp add: keep_record_def)
    next
      case (Some r)
      then have "wf_hostrecord r" using d(5) i(2) by (metis nth_mem)
      with cb 3 Some i same show ?thesis
        by (auto simp: rm_ok_def keep_record_def split: option.splits)
    qed
  qed (use d Q in auto)
  have fo: "fold ?G v t = fold g (filter (\<lambda>r. hr_remove r \<noteq> 0) (somes v)) t" for v t
    by (induction v arbitrary: t) (auto split: option.splits)
  have "c_for 0 ?n ?body (?v, s) = Ret (Inr (map keep_record ?v, s')) \<and> Q s'"
    using loop unfolding fo by (simp only: d(2) [symmetric] take_all drop_all order_refl append_Nil2 s'_def)
  then show ?thesis by (simp add: records_purge_def)
qed

lemma records_last_used_spec:
  assumes "n \<le> length v"
  shows "returns (records_last_used v n) (\<lambda>k. k \<le> n \<and> (\<forall>j. k \<le> j \<longrightarrow> j < n \<longrightarrow> v ! j = None)
    \<and> (0 < k \<longrightarrow> v ! (k - 1) \<noteq> None))"
proof -
  let ?P = "\<lambda>i k. k \<le> i \<and> (\<forall>j. k \<le> j \<longrightarrow> j < i \<longrightarrow> v ! j = None) \<and> (0 < k \<longrightarrow> v ! (k - 1) \<noteq> None)"
  let ?body = "\<lambda>i last_used. obind (read_at v i) (\<lambda>p. Ret (Inr (if p \<noteq> None then i + 1 else last_used)))"
  have "returns (c_for 0 n ?body 0) (case_sum (?P n) (?P n))"
    by (rule c_for_rule [where I = ?P]) (use assms in \<open>auto simp: less_Suc_eq\<close>)
  then show ?thesis
    unfolding records_last_used_def ospec_obind
    by (elim ospec_mono) (auto split: sum.splits)
qed

text \<open>Cutting a purged vector after its last entry.\<close>

lemma records_shrink_keeps:
  assumes inv: "records_inv st" and v: "v = map keep_record (hr_vector st)"
    and k: "k \<le> n" "n \<le> hr_vector_size st" "\<forall>j. k \<le> j \<longrightarrow> j < hr_vector_size st \<longrightarrow> v ! j = None"
    and n: "hr_vector_chunksize \<le> n" "hr_vector_chunksize dvd n"
    and st': "hr_vector st' = take n v" "hr_vector_size st' = n" "hr_vector_fill st' = k" "hr_initialized st'"
  shows "records_inv st'" and "records_map st' = (\<lambda>ip. keep_record (records_map st ip))"
proof -
  note d = records_invD [OF inv]
  have len: "length v = hr_vector_size st" using v d(2) by simp
  have so: "somes (take n v) = somes v"
    by (rule somes_take_rest) (use k len in auto)
  have so': "somes v = filter (\<lambda>r. hr_remove r = 0) (somes (hr_vector st))"
    using somes_map_filter [of "\<lambda>r. hr_remove r = 0" "hr_vector st"] by (simp add: v keep_record_def [abs_def])
  have none: "p = None" if "p \<in> set (drop k (take n v))" for p
    using that k len by (auto simp: in_set_conv_nth)
  have m: "keys_unique ip_of v" "slot_map ip_of v = (\<lambda>ip. keep_record (slot_map ip_of (hr_vector st) ip))"
    using slot_map_filter [OF d(6), of "\<lambda>r. hr_remove r = 0"] by (simp_all add: v keep_record_def [abs_def])
  show "records_inv st'"
    using inv m(1) k(1,2) n st' none so so' len
    by (auto simp: records_inv_def vec_ok_def keys_unique_def list_all_iff)
  show "records_map st' = (\<lambda>ip. keep_record (records_map st ip))"
    using m(2) st'(1) so by (simp add: records_map_def slot_map_def)
qed

text \<open>
  One maintenance run: the marked records and only they leave the table, each is handed to the
  callback in slot order, and the vector shrinks to whole chunks around its last entry.
\<close>

definition maintained :: "records_st \<Rightarrow> records_st \<Rightarrow> bool" where
  "maintained st st' \<longleftrightarrow> records_inv st' \<and> records_map st' = (\<lambda>ip. keep_record (records_map st ip))
     \<and> hr_vector_size st' = max hr_vector_chunksize (chunks_ceil (hr_vector_fill st') hr_vector_chunksize)
     \<and> (0 < hr_vector_fill st' \<longrightarrow> hr_vector st' ! (hr_vector_fill st' - 1) \<noteq> None)"

lemma records_maintenance_resize:
  assumes inv: "records_inv st" and v: "v = map keep_record (hr_vector st)"
    and k: "k \<le> hr_vector_size st" "\<forall>j. k \<le> j \<longrightarrow> j < hr_vector_size st \<longrightarrow> v ! j = None"
      "0 < k \<longrightarrow> v ! (k - 1) \<noteq> None"
  shows "k = hr_vector_size st \<Longrightarrow> maintained st (st\<lparr>hr_vector := v\<rparr>)"
    and "k \<noteq> hr_vector_size st \<Longrightarrow>
      n = max hr_vector_chunksize (chunks_ceil k hr_vector_chunksize) \<Longrightarrow>
      maintained st (st\<lparr>hr_vector_size := n, hr_vector_fill := k, hr_vector := take n v\<rparr>) \<and> k \<le> n"
proof -
  note d = records_invD [OF inv]
  have len: "length v = hr_vector_size st" using v d(2) by simp
  have c: "0 < hr_vector_chunksize" by (simp add: hr_vector_chunksize_def)
  note cb = chunks_ceil_bounds [OF c]
  have sz: "hr_vector_chunksize \<le> hr_vector_size st" "hr_vector_chunksize dvd hr_vector_size st"
    using d(4) by (auto simp: vec_ok_def)
  show "maintained st (st\<lparr>hr_vector := v\<rparr>)" if full: "k = hr_vector_size st"
  proof -
    have "hr_vector st ! (hr_vector_size st - 1) \<noteq> None"
      using full k(3) sz(1) c d(2) by (auto simp: v dest!: keep_record_SomeD)
    with d(3) vec_ok_above [OF d(4), of "hr_vector_size st - 1"] have fill: "hr_vector_fill st = hr_vector_size st"
      using c sz(1) by force
    have "chunks_ceil (hr_vector_size st) hr_vector_chunksize = hr_vector_size st"
      using cb(1) cb(3) [OF sz(2)] by (meson le_antisym order_refl)
    with records_shrink_keeps [OF inv v, of k k "st\<lparr>hr_vector := v\<rparr>"] full fill d(1) sz k len show ?thesis
      by (simp add: maintained_def)
  qed
  show "maintained st (st\<lparr>hr_vector_size := n, hr_vector_fill := k, hr_vector := take n v\<rparr>) \<and> k \<le> n"
    if part: "k \<noteq> hr_vector_size st" and n: "n = max hr_vector_chunksize (chunks_ceil k hr_vector_chunksize)"
  proof -
    have kn: "k \<le> n" using n cb(1) [of k] by simp
    have ns: "n \<le> hr_vector_size st" using n sz(1) cb(3) [OF sz(2) k(1)] by simp
    have nd: "hr_vector_chunksize \<le> n" "hr_vector_chunksize dvd n"
      using n cb(2) [of k] by (auto simp: max_def)
    from records_shrink_keeps [OF inv v kn ns k(2) nd,
        of "st\<lparr>hr_vector_size := n, hr_vector_fill := k, hr_vector := take n v\<rparr>"] d(1) n k(3) kn len
    show ?thesis by (simp add: maintained_def)
  qed
qed

lemma records_shrink_spec:
  assumes inv: "records_inv st"
  shows "ospec (\<lambda>c. c = 3 \<and> \<not> realloc_ok e) (records_shrink e (st\<lparr>hr_vector := map keep_record (hr_vector st)\<rparr>))
    (\<lambda>(rv, st'). rv = RETVAL_OK \<and> maintained st st')"
proof -
  let ?v = "map keep_record (hr_vector st)"
  have len: "hr_vector_size st \<le> length ?v" using records_invD(2) [OF inv] by simp
  obtain k where lu: "records_last_used ?v (hr_vector_size st) = Ret k"
    and k: "k \<le> hr_vector_size st" "\<forall>j. k \<le> j \<longrightarrow> j < hr_vector_size st \<longrightarrow> ?v ! j = None"
      "0 < k \<longrightarrow> ?v ! (k - 1) \<noteq> None"
    using records_last_used_spec [OF len] by (auto simp: returns_iff)
  define n where "n = max hr_vector_chunksize (chunks_ceil k hr_vector_chunksize)"
  note rs = records_maintenance_resize [OF inv refl k]
  have n: "(if chunks_ceil k hr_vector_chunksize < hr_vector_chunksize then hr_vector_chunksize
      else chunks_ceil k hr_vector_chunksize) = n" by (simp add: n_def max_def)
  have md: "chunks_ceil k hr_vector_chunksize mod hr_vector_chunksize = 0"
    by (simp add: chunks_ceil_def)
  show ?thesis
    unfolding records_shrink_def using rs(1) rs(2) [OF _ n_def] by (auto simp: lu Let_def md n c_assert_holds)
qed

lemma records_maintenance_spec:
  assumes inv: "records_inv st" and cb: "rm_ok Q cb g" and Q: "Q s"
  defines "s1 \<equiv> fold g (filter (\<lambda>r. hr_remove r \<noteq> 0) (somes (hr_vector st))) s"
  shows "ospec (\<lambda>c. c = 3 \<and> \<not> realloc_ok e) (records_maintenance e cb (st, s)) (\<lambda>(rv, st', s').
    if lock_rv e = 0 then maintained st st' \<and> s' = s1 \<and> Q s1 \<and> (unlock_rv e = 0 \<longrightarrow> rv = RETVAL_OK)
    else rv = RETVAL_ERR \<and> st' = st \<and> s' = s)"
proof -
  have purge: "records_purge cb (st, s) = Ret (map keep_record (hr_vector st), s1)" "Q s1"
    using records_purge_spec [OF inv cb Q] by (auto simp: s1_def)
  show ?thesis
    unfolding records_maintenance_def with_mutex_def
    using records_shrink_spec [OF inv, of e] purge records_invD(1) [OF inv]
    by (auto simp: ospec_obind c_assert_holds elim!: ospec_mono)
qed

subsection \<open>Destruction\<close>

lemma records_destroy_spec:
  fixes s :: 's
  assumes inv: "records_inv st" and cb: "rm_ok Q cb g" and Q: "Q s"
  shows "records_destroy e cb (st, s) = Ret (st\<lparr>hr_vector := []\<rparr>, fold g (somes (hr_vector st)) s)"
proof -
  note d = records_invD [OF inv]
  let ?G = "\<lambda>p t. case p of None \<Rightarrow> t | Some r \<Rightarrow> g r t"
  let ?body = "(\<lambda>i s. obind (read_at (hr_vector st) i) (\<lambda>p. case p of
              None \<Rightarrow> Ret (Inr s)
            | Some r \<Rightarrow> (case cb of
                None \<Rightarrow> Ret (Inr s)
              | Some f \<Rightarrow> obind (f r s) (\<lambda>s'. Ret (Inr s'))))) :: nat \<Rightarrow> 's \<Rightarrow> ('s + 's) outcome"
  have step: "?body i t = Ret (Inr (?G (hr_vector st ! i) t)) \<and> Q (?G (hr_vector st ! i) t)"
    if i: "i < hr_vector_size st" and t: "Q t" for i t
  proof (cases "hr_vector st ! i")
    case None
    with i t d(2) show ?thesis by simp
  next
    case (Some r)
    then have "wf_hostrecord r" using d(2,5) i by (metis nth_mem)
    with Some i t d(2) cb show ?thesis by (auto simp: rm_ok_def split: option.splits)
  qed
  have fo: "fold ?G (hr_vector st) s = fold g (somes (hr_vector st)) s"
    by (rule fold_slots) auto
  note loop = c_for_fold [where body = ?body and v = "hr_vector st" and G = ?G and Q = Q, OF _ Q step]
  from loop [of "hr_vector_size st"] d fo show ?thesis
    by (simp add: records_destroy_def c_assert_holds)
qed

subsection \<open>The vector as a table of hosts\<close>

text \<open>
  The contract the rest of the program relies on: sightings and received records change the table
  as \<open>host_seen\<close> and \<open>host_merge\<close> say, when the system calls succeed.
\<close>

fun run_sightings :: "(sysenv \<Rightarrow> config \<Rightarrow> string \<Rightarrow> 'st \<Rightarrow> (int \<times> 'st) outcome) \<Rightarrow>
    config \<Rightarrow> string \<Rightarrow> sysenv list \<Rightarrow> 'st \<Rightarrow> 'st outcome" where
  "run_sightings seen CONFIG ip [] st = Ret st"
| "run_sightings seen CONFIG ip (e # es) st =
     obind (seen e CONFIG ip st) (\<lambda>(rv, st'). run_sightings seen CONFIG ip es st')"

locale host_table =
  fixes inv :: "'st \<Rightarrow> bool"
    and tbl :: "'st \<Rightarrow> string \<Rightarrow> hostrecord option"
    and seen :: "sysenv \<Rightarrow> config \<Rightarrow> string \<Rightarrow> 'st \<Rightarrow> (int \<times> 'st) outcome"
    and merge :: "sysenv \<Rightarrow> hostrecord \<Rightarrow> 'st \<Rightarrow> (int \<times> 'st) outcome"
  assumes seen_law: "inv st \<Longrightarrow> valid_ip ip \<Longrightarrow> sys_ok e \<Longrightarrow>
        returns (seen e C ip st) (\<lambda>(rv, st'). rv = RETVAL_OK \<and> inv st' \<and> tbl st' = host_seen C (now e) ip (tbl st))"
    and merge_law: "inv st \<Longrightarrow> wf_hostrecord hr \<Longrightarrow> sys_ok e \<Longrightarrow>
        returns (merge e hr st) (\<lambda>(rv, st'). rv = RETVAL_OK \<and> inv st' \<and> tbl st' = host_merge (now e) hr (tbl st))"
begin

lemma sightings_known:
  assumes "inv st" and "valid_ip ip" and "\<forall>e \<in> set es. sys_ok e" and "tbl st ip = Some r"
  shows "returns (run_sightings seen C ip es st) (\<lambda>st'. inv st' \<and>
    (\<exists>r'. tbl st' = (tbl st)(ip \<mapsto> r') \<and> hr_origin r' = hr_origin r \<and> hr_firstseen r' = hr_firstseen r \<and> hr_processed r' = hr_processed r \<and> hr_action_threshold r' = hr_action_threshold r
      \<and> hr_lastseen r' = (if es = [] then hr_lastseen r else now (last es))
      \<and> hr_occurrences r' = hr_occurrences r +
          of_nat (length (filter (\<lambda>e. now e - hr_firstseen r <=s hr_time_interval r) es))))"
  using assms
proof (induction es arbitrary: st r)
  case Nil
  then show ?case by (auto intro!: exI [of _ r])
next
  case (Cons e es)
  let ?r = "bump_record (now e) r"
  obtain st1 where st1: "seen e C ip st = Ret (RETVAL_OK, st1)" "inv st1" "tbl st1 = (tbl st)(ip \<mapsto> ?r)"
    using seen_law [OF Cons.prems(1,2), of e C] Cons.prems(3,4)
    by (auto simp: returns_iff host_seen_bump)
  have IH: "returns (run_sightings seen C ip es st1) (\<lambda>st'. inv st' \<and>
    (\<exists>r'. tbl st' = (tbl st1)(ip \<mapsto> r') \<and> hr_origin r' = hr_origin ?r \<and> hr_firstseen r' = hr_firstseen ?r \<and> hr_processed r' = hr_processed ?r \<and> hr_action_threshold r' = hr_action_threshold ?r
      \<and> hr_lastseen r' = (if es = [] then hr_lastseen ?r else now (last es))
      \<and> hr_occurrences r' = hr_occurrences ?r +
          of_nat (length (filter (\<lambda>e. now e - hr_firstseen ?r <=s hr_time_interval ?r) es))))"
    by (rule Cons.IH [OF st1(2) Cons.prems(2)]) (use Cons.prems(3) st1(3) in auto)
  show ?case
    unfolding run_sightings.simps st1(1) obind.simps prod.case
  proof (rule ospec_mono [OF IH [unfolded st1(3) fun_upd_upd]], goal_cases)
    case (1 x)
    then obtain r' where "inv x" "tbl x = (tbl st)(ip \<mapsto> r')" "hr_origin r' = hr_origin ?r" "hr_firstseen r' = hr_firstseen ?r"
        "hr_processed r' = hr_processed ?r" "hr_action_threshold r' = hr_action_threshold ?r" "hr_lastseen r' = (if es = [] then hr_lastseen ?r else now (last es))"
        "hr_occurrences r' = hr_occurrences ?r +
          of_nat (length (filter (\<lambda>e. now e - hr_firstseen ?r <=s hr_time_interval ?r) es))"
      by blast
    then show ?case
      by (intro conjI exI [of _ r']) (simp_all add: bump_record_occurrences)
  qed
qed

text \<open>A new host: one for the first sighting, one for each later one within the interval.\<close>

lemma sightings_new:
  assumes "inv st" and "valid_ip ip" and "\<forall>e' \<in> set (e # es). sys_ok e'" and "tbl st ip = None"
  shows "returns (run_sightings seen C ip (e # es) st) (\<lambda>st'. inv st' \<and>
    (\<exists>r. tbl st' = (tbl st)(ip \<mapsto> r) \<and> hr_origin r = hr_origin (fresh_record C (now e) ip) \<and> hr_firstseen r = now e \<and> hr_processed r = 0 \<and> hr_action_threshold r = cfg_action_threshold C
      \<and> hr_lastseen r = (if es = [] then 0 else now (last es))
      \<and> hr_occurrences r = of_nat (Suc (length (filter (\<lambda>e'. now e' - now e <=s cfg_time_interval C) es)))))"
proof -
  let ?r = "fresh_record C (now e) ip"
  obtain st1 where st1: "seen e C ip st = Ret (RETVAL_OK, st1)" "inv st1" "tbl st1 = (tbl st)(ip \<mapsto> ?r)"
    using seen_law [OF assms(1,2), of e C] assms(3,4) by (auto simp: returns_iff host_seen_bump)
  have IH: "returns (run_sightings seen C ip es st1) (\<lambda>st'. inv st' \<and>
    (\<exists>r'. tbl st' = (tbl st1)(ip \<mapsto> r') \<and> hr_origin r' = hr_origin ?r \<and> hr_firstseen r' = hr_firstseen ?r \<and> hr_processed r' = hr_processed ?r \<and> hr_action_threshold r' = hr_action_threshold ?r
      \<and> hr_lastseen r' = (if es = [] then hr_lastseen ?r else now (last es))
      \<and> hr_occurrences r' = hr_occurrences ?r +
          of_nat (length (filter (\<lambda>e. now e - hr_firstseen ?r <=s hr_time_interval ?r) es))))"
    by (rule sightings_known [OF st1(2) assms(2)]) (use assms(3) st1(3) in auto)
  show ?thesis
    unfolding run_sightings.simps st1(1) obind.simps prod.case
  proof (rule ospec_mono [OF IH [unfolded st1(3) fun_upd_upd]], goal_cases)
    case (1 x)
    then obtain r' where "inv x" "tbl x = (tbl st)(ip \<mapsto> r')" "hr_origin r' = hr_origin ?r" "hr_firstseen r' = hr_firstseen ?r"
        "hr_processed r' = hr_processed ?r" "hr_action_threshold r' = hr_action_threshold ?r" "hr_lastseen r' = (if es = [] then hr_lastseen ?r else now (last es))"
        "hr_occurrences r' = hr_occurrences ?r +
          of_nat (length (filter (\<lambda>e. now e - hr_firstseen ?r <=s hr_time_interval ?r) es))"
      by blast
    then show ?case
      by (intro conjI exI [of _ r']) (simp_all add: fresh_record_def)
  qed
qed

end

interpretation ht: host_table records_inv records_map records_add_ip records_add_record
proof (unfold_locales, goal_cases)
  case (1 st ip e C)
  show ?case
    by (rule ospec_mono [OF records_add_ip_spec [OF 1(1,2), of e C]]) (use 1(3) in \<open>auto simp: sys_ok_def\<close>)
next
  case (2 st hr e)
  show ?case
    by (rule ospec_mono [OF records_add_record_spec [OF 2(1,2), of e]]) (use 2(3) in \<open>auto simp: sys_ok_def\<close>)
qed

subsection \<open>Addresses that do not fit\<close>

text \<open>
  An address of \<^verbatim>\<open>IPADDR_SIZE\<close> bytes or more is stored cut off but searched for in full, so it is
  never found again. The invariant without the uniqueness of the addresses is what survives.
\<close>

definition records_layout :: "records_st \<Rightarrow> bool" where
  "records_layout st \<longleftrightarrow> hr_initialized st
     \<and> vec_ok hr_vector_chunksize (hr_vector st) (hr_vector_size st) (hr_vector_fill st)
     \<and> list_all wf_hostrecord (somes (hr_vector st))"

lemma records_inv_layout: "records_inv st \<Longrightarrow> records_layout st"
  by (simp add: records_inv_def records_layout_def)

lemma records_find_long:
  assumes st: "records_layout st" and ip: "is_cstring ip" "IPADDR_SIZE \<le> length ip"
  shows "records_find st (bytes_of ip) = Ret None"
proof -
  let ?f = "\<lambda>j. None :: (nat \<times> hostrecord) option"
  have "strcmp_eq (hr_ipaddr r) (bytes_of ip) = Ret False" if "hr_vector st ! j = Some r" "j < hr_vector_fill st" for r j
  proof -
    have "Some r \<in> set (hr_vector st)"
      using that st by (metis nth_mem order_less_le_trans records_layout_def vec_ok_def)
    then have wf: "wf_hostrecord r" using st by (auto simp: records_layout_def list_all_iff set_somes)
    then have "length (cstr (hr_ipaddr r)) < IPADDR_SIZE"
      using length_cstr [of "hr_ipaddr r"] by (simp add: wf_hostrecord_def)
    with wf ip show ?thesis by (auto simp: strcmp_eq_terminated wf_hostrecord_def)
  qed
  then show ?thesis
    unfolding records_find_def using st
    by (subst c_for_search [where f = ?f]) (auto simp: records_layout_def vec_ok_def first_hit_def split: option.splits)
qed

lemma records_store_mset:
  assumes st: "records_layout st" and r: "wf_hostrecord r" and ok: "sys_ok e"
  shows "returns (records_store e r st) (\<lambda>(rv, st'). rv = RETVAL_OK \<and> records_layout st'
    \<and> mset (somes (hr_vector st')) = add_mset r (mset (somes (hr_vector st))))"
proof -
  have lay: "rv.lay st" using st by (simp add: records_layout_def)
  obtain pos st1 n where a: "alloc_slot records_find_free (records_vector_grow True) st = Ret (pos, st1)"
      "rv.lay st1" "pos < hr_vector_size st1" "hr_vector st1 ! pos = None"
      "hr_vector st1 = hr_vector st @ replicate n None"
    using rv.alloc_slot_returns [OF lay] by (auto simp: returns_iff)
  have init: "hr_initialized st1"
    using a(1) st by (auto simp: alloc_slot_def records_vector_grow_def Let_def obind_eq_Ret records_layout_def
        split: if_splits)
  have len: "pos < length (hr_vector st1)" using a(2,3) by (simp add: vec_ok_def)
  have so: "somes (hr_vector st1) = somes (hr_vector st)" using a(5) by simp
  have lay': "vec_ok hr_vector_chunksize ((hr_vector st1)[pos := Some r]) (hr_vector_size st1)
      (if pos + 1 > hr_vector_fill st1 then pos + 1 else hr_vector_fill st1)"
    using vec_ok_store [OF a(2,3), of "Some r"] by (simp add: max_def not_less_eq_eq split: if_splits)
  have ms: "mset (somes ((hr_vector st1)[pos := Some r])) = add_mset r (mset (somes (hr_vector st)))"
    using somes_split [OF len] somes_upd [OF len] a(4) so by simp
  then have "set (somes ((hr_vector st1)[pos := Some r])) = insert r (set (somes (hr_vector st)))"
    by (metis set_mset_add_mset_insert set_mset_mset)
  with a(1) init len lay' ms ok r st show ?thesis
    by (auto simp: records_store_def sys_ok_def records_layout_def list_all_iff)
qed

lemma fresh_record_fits: "wf_hostrecord (fresh_record CONFIG t ip)"
  using strncpy_terminated [of IPADDR_SIZE]
  by (simp add: wf_hostrecord_def fresh_record_def IPADDR_SIZE_def)

lemma records_add_ip_long:
  assumes "records_layout st" and "is_cstring ip" "IPADDR_SIZE \<le> length ip" and "sys_ok e"
  shows "returns (records_add_ip e CONFIG ip st) (\<lambda>(rv, st'). rv = RETVAL_OK \<and> records_layout st'
    \<and> mset (somes (hr_vector st')) = add_mset (fresh_record CONFIG (now e) ip) (mset (somes (hr_vector st))))"
  using records_store_mset [OF assms(1) fresh_record_fits assms(4)] assms
  by (simp add: records_add_ip_def with_mutex_ok sys_ok_def records_find_long records_layout_def)

lemma sightings_long:
  assumes "records_layout st" and "is_cstring ip" "IPADDR_SIZE \<le> length ip" and "\<forall>e \<in> set es. sys_ok e"
  shows "returns (run_sightings records_add_ip CONFIG ip es st) (\<lambda>st'. records_layout st'
    \<and> mset (somes (hr_vector st')) =
        mset (somes (hr_vector st)) + mset (map (\<lambda>e. fresh_record CONFIG (now e) ip) es))"
  using assms
proof (induction es arbitrary: st)
  case Nil
  then show ?case by simp
next
  case (Cons e es)
  obtain st1 where st1: "records_add_ip e CONFIG ip st = Ret (RETVAL_OK, st1)" "records_layout st1"
      "mset (somes (hr_vector st1)) = add_mset (fresh_record CONFIG (now e) ip) (mset (somes (hr_vector st)))"
    using records_add_ip_long [OF Cons.prems(1-3), of e CONFIG] Cons.prems(4) by (auto simp: returns_iff)
  have "returns (run_sightings records_add_ip CONFIG ip es st1) (\<lambda>st'. records_layout st'
    \<and> mset (somes (hr_vector st')) =
        mset (somes (hr_vector st1)) + mset (map (\<lambda>e. fresh_record CONFIG (now e) ip) es))"
    using Cons.IH [OF st1(2)] Cons.prems by simp
  with st1 show ?case by simp
qed

subsection \<open>Properties\<close>

text \<open>A table that has just been initialised, and one with a single host.\<close>

definition empty_records :: records_st where
  "empty_records = records_start\<lparr>hr_vector := replicate 100 None, hr_initialized := True\<rparr>"

definition demo_host :: hostrecord where
  "demo_host = fresh_record demo_config 1000 ''10.0.0.1''"

definition one_record :: records_st where
  "one_record = \<lparr>hr_vector = Some demo_host # replicate 99 None, hr_vector_size = 100, hr_vector_fill = 1, hr_initialized = True\<rparr>"

lemma empty_records_inv [simp]: "records_inv empty_records" "records_map empty_records = (\<lambda>_. None)"
  by (auto simp: empty_records_def records_start_def records_inv_def vec_ok_def hr_vector_chunksize_def keys_unique_def
      records_map_def slot_map_def)

lemma demo_ip [simp]: "valid_ip ''10.0.0.1''" "is_cstring ''10.0.0.1''"
  by (simp_all add: valid_ip_def is_cstring_def IPADDR_SIZE_def)

lemma demo_host_wf [simp]: "wf_hostrecord demo_host" "ip_of demo_host = ''10.0.0.1''"
  using fresh_record_wf [OF demo_ip(1)] by (auto simp: demo_host_def)

lemma one_record_inv [simp]: "records_inv one_record" "records_map one_record = [''10.0.0.1'' \<mapsto> demo_host]"
  by (auto simp: one_record_def records_inv_def vec_ok_def hr_vector_chunksize_def keys_unique_def records_map_def slot_map_def)

text \<open>
  C13. \<^verbatim>\<open>records_add_ip\<close> on every path: whatever the lock, the unlock and the allocations answer, no
  assertion fails, no memory outside the vector is touched, the process ends only when the vector
  cannot grow, and the invariant survives. Without the lock it returns an error and changes nothing. With it the sighting is
  counted, unless the host is new and there is no memory for its record: then the table is as before and the answer an
  error. When the sighting is counted the answer is success exactly if the unlock succeeds: a failing unlock reports an error
  although the table has changed.
\<close>

theorem records_add_ip_correct:
  assumes "records_inv st" and "valid_ip ip"
    and "after = (records_map st)(ip \<mapsto> (case records_map st ip of
      None \<Rightarrow> fresh_record CONFIG (now e) ip
    | Some r \<Rightarrow> r\<lparr>hr_lastseen := now e, hr_occurrences := hr_occurrences r
        + (if now e - hr_firstseen r <=s hr_time_interval r then 1 else 0)\<rparr>))"
  shows "ospec (\<lambda>c. c = 3 \<and> \<not> realloc_ok e) (records_add_ip e CONFIG ip st)
    (\<lambda>(rv, st'). records_inv st' \<and>
      (if lock_rv e \<noteq> 0 then rv = RETVAL_ERR \<and> st' = st
       else if records_map st ip = None \<and> \<not> malloc_ok e then rv = RETVAL_ERR \<and> records_map st' = records_map st
       else records_map st' = after \<and> rv = (if unlock_rv e = 0 then RETVAL_OK else RETVAL_ERR)))"
  by (rule ospec_mono [OF records_add_ip_exact [OF assms(1,2), of e CONFIG]])
    (auto simp: table_updated_def Let_def assms(3) host_seen_def split: if_splits)

theorem records_add_ip_correct_witness:
  "returns (records_add_ip calm_env demo_config ''10.0.0.1'' one_record) (\<lambda>(rv, st'). rv = RETVAL_OK \<and> records_inv st'
     \<and> records_map st' = [''10.0.0.1'' \<mapsto> demo_host\<lparr>hr_lastseen := 1000, hr_occurrences := 2\<rparr>])"
proof -
  have d: "hr_firstseen demo_host = 1000" "hr_time_interval demo_host = 60" "hr_occurrences demo_host = 1"
    by (simp_all add: demo_host_def fresh_record_def)
  have "(0 :: i64) <=s 60" by (simp add: word_sle_eq)
  with d show ?thesis
    by (auto intro!: ospec_mono [OF records_add_ip_correct [OF one_record_inv(1) demo_ip(1) refl, of calm_env demo_config]])
qed

text \<open>
  C20. \<^verbatim>\<open>records_add_record\<close> on every path: a record received from another agent replaces the stored one
  of its address, keeping its \<^verbatim>\<open>processed\<close> mark and adding the counts, or becomes a new entry; the other
  addresses are untouched and the error paths are those of \<^verbatim>\<open>records_add_ip\<close>.
\<close>

theorem records_add_record_correct:
  assumes "records_inv st" and "wf_hostrecord hr"
    and "after = (records_map st)(ip_of hr \<mapsto> (case records_map st (ip_of hr) of
      None \<Rightarrow> hr
    | Some old \<Rightarrow> hr\<lparr>hr_processed := hr_processed old, hr_lastseen := now e, hr_occurrences := hr_occurrences hr + hr_occurrences old
        + (if now e - hr_firstseen hr <=s hr_time_interval hr then 1 else 0)\<rparr>))"
  shows "ospec (\<lambda>c. c = 3 \<and> \<not> realloc_ok e) (records_add_record e hr st)
    (\<lambda>(rv, st'). records_inv st' \<and> (rv = RETVAL_OK \<longrightarrow> records_map st' = after)
      \<and> (sys_ok e \<longrightarrow> rv = RETVAL_OK) \<and> records_map st' \<in> {records_map st, after})"
  using records_add_record_spec [OF assms(1,2), of e] unfolding assms(3) host_merge_def .

theorem records_add_record_correct_witness:
  "returns (records_add_record calm_env demo_host one_record) (\<lambda>(rv, st'). rv = RETVAL_OK \<and> records_inv st'
     \<and> records_map st' = [''10.0.0.1'' \<mapsto> demo_host\<lparr>hr_lastseen := 1000, hr_occurrences := 3\<rparr>])"
proof -
  have d: "hr_firstseen demo_host = 1000" "hr_time_interval demo_host = 60" "hr_occurrences demo_host = 1"
    by (simp_all add: demo_host_def fresh_record_def)
  have "(0 :: i64) <=s 60" by (simp add: word_sle_eq)
  with d show ?thesis
    by (auto intro!: ospec_mono [OF records_add_record_correct [OF one_record_inv(1) demo_host_wf(1) refl, of calm_env]])
qed

text \<open>
  C21. Counting: the sightings of a host that was not in the table leave one record of local origin, first seen at the
  first of them and last seen at the last (the field is still 0 when there was only one), whose number of occurrences is one
  plus the number of later sightings no more than the configured interval after the first (modulo the width of the counter).
  No other entry changes.
\<close>

theorem sightings_counted:
  assumes "records_inv st" and "valid_ip ip" and "\<forall>e' \<in> set (e # es). sys_ok e'" and "records_map st ip = None"
  shows "returns (run_sightings records_add_ip CONFIG ip (e # es) st) (\<lambda>st'. records_inv st' \<and>
    (\<exists>r. records_map st' = (records_map st)(ip \<mapsto> r) \<and> hr_origin r = (strncpy LOCALHOST IPADDR_SIZE)[IPADDR_SIZE - 1 := NUL]
      \<and> hr_firstseen r = now e \<and> hr_lastseen r = (if es = [] then 0 else now (last es))
      \<and> hr_processed r = 0 \<and> hr_action_threshold r = cfg_action_threshold CONFIG
      \<and> hr_occurrences r = of_nat (Suc (length (filter (\<lambda>e'. now e' - now e <=s cfg_time_interval CONFIG) es)))))"
  by (rule ospec_mono [OF ht.sightings_new [OF assms]]) (auto simp: fresh_record_def)

theorem sightings_counted_witness:
  "returns (run_sightings records_add_ip demo_config ''10.0.0.1''
      [calm_env, calm_env\<lparr>now := 1060\<rparr>, calm_env\<lparr>now := 1061\<rparr>] empty_records)
    (\<lambda>st'. \<exists>r. records_map st' = [''10.0.0.1'' \<mapsto> r] \<and> hr_occurrences r = 2 \<and> hr_lastseen r = 1061)"
proof -
  have "\<forall>e' \<in> set [calm_env, calm_env\<lparr>now := 1060\<rparr>, calm_env\<lparr>now := 1061\<rparr>]. sys_ok e'"
    by (simp add: calm_env_def sys_ok_def)
  moreover have "records_map empty_records ''10.0.0.1'' = None" by simp
  ultimately show ?thesis
    by (rule ospec_mono [OF sightings_counted [OF empty_records_inv(1) demo_ip(1), where CONFIG = demo_config]])
      (auto simp: word_sle_eq)
qed



text \<open>
  \<^verbatim>\<open>records_enumerate\<close> in synchronous mode: a callback that answers 0 sees every record exactly
  once, in slot order, and what it writes into a record is what the table then has.
\<close>

theorem records_enumerate_each_once:
  assumes "records_inv st" and "cb_ok P Q cb f g" and "\<And>r. Some r \<in> set (hr_vector st) \<Longrightarrow> P r" and "Q s" and "sys_ok e"
  shows "returns (records_enumerate e cb SYNC (st, s)) (\<lambda>(rv, thread, st', s'). rv = RETVAL_OK \<and> \<not> thread
    \<and> s' = fold g (somes (hr_vector st)) s \<and> records_inv st'
    \<and> records_map st' = (\<lambda>ip. map_option f (records_map st ip)))"
  using records_enumerate_sync_spec [OF assms] records_invD(1) [OF assms(1)]
  by (auto simp: records_enumerate_def c_assert_holds)

theorem records_enumerate_each_once_witness:
  "returns (records_enumerate calm_env (\<lambda>r l. Ret (0, r\<lparr>hr_remove := 1\<rparr>, ip_of r # l)) SYNC (one_record, []))
    (\<lambda>(rv, thread, st', s'). rv = RETVAL_OK \<and> s' = [''10.0.0.1'']
       \<and> records_map st' = [''10.0.0.1'' \<mapsto> demo_host\<lparr>hr_remove := 1\<rparr>])"
proof -
  have cb: "cb_ok (\<lambda>_. True) (\<lambda>_. True) (\<lambda>r l. Ret (0, r\<lparr>hr_remove := 1\<rparr>, ip_of r # l)) (\<lambda>r. r\<lparr>hr_remove := 1\<rparr>) (\<lambda>r l. ip_of r # l)"
    by (simp add: cb_ok_def wf_hostrecord_def ip_of_def)
  have so: "somes (hr_vector one_record) = [demo_host]" by (simp add: one_record_def)
  show ?thesis
    by (rule ospec_mono [OF records_enumerate_each_once [OF one_record_inv(1) cb TrueI TrueI calm_env_ok(1), of "[]"]])
      (auto simp: so)
qed

text \<open>
  \<^verbatim>\<open>records_remove\<close>: an address in the table is removed and success is reported; an address that is
  not there is an error; nothing else changes.
\<close>

theorem records_remove_correct:
  assumes "records_inv st" and "is_cstring ip"
  shows "returns (records_remove e ip st) (\<lambda>(rv, st'). records_inv st'
    \<and> (rv = RETVAL_OK \<longrightarrow> records_map st ip \<noteq> None \<and> records_map st' = (records_map st)(ip := None))
    \<and> (sys_ok e \<longrightarrow> (rv = RETVAL_OK \<longleftrightarrow> records_map st ip \<noteq> None)))"
  using assms by (rule records_remove_spec)

theorem records_remove_correct_witness:
  "returns (records_remove calm_env ''10.0.0.1'' one_record) (\<lambda>(rv, st'). rv = RETVAL_OK \<and> records_map st' = (\<lambda>_. None))"
  by (rule ospec_mono [OF records_remove_correct [OF one_record_inv(1) demo_ip(2), of calm_env]]) auto

text \<open>
  Round trip: after a successful \<^verbatim>\<open>records_add_ip\<close> the record that \<^verbatim>\<open>records_get\<close> finds for the
  address is the new or the counted one, and for any other address the result is as before.
\<close>

theorem records_add_get:
  assumes "records_inv st" and "valid_ip ip" and "is_cstring ip'" and "sys_ok e" and "sys_ok e'"
  shows "returns (records_add_ip e CONFIG ip st) (\<lambda>(rv, st').
    records_get e' ip' st' = Ret (if ip' = ip
      then Some (case records_map st ip of None \<Rightarrow> fresh_record CONFIG (now e) ip | Some r \<Rightarrow> bump_record (now e) r)
      else records_map st ip'))"
  by (rule ospec_mono [OF ht.seen_law [OF assms(1,2,4)]])
    (use assms in \<open>auto simp: records_get_spec host_seen_bump\<close>)

theorem records_add_get_witness:
  "returns (records_add_ip calm_env demo_config ''10.0.0.1'' empty_records) (\<lambda>(rv, st').
    records_get calm_env ''10.0.0.1'' st' = Ret (Some demo_host))"
  using records_add_get [OF empty_records_inv(1) demo_ip(1,2) calm_env_ok(1) calm_env_ok(1), of demo_config]
  by (simp add: demo_host_def)

text \<open>
  C36. An address of \<^verbatim>\<open>IPADDR_SIZE\<close> bytes or more is stored cut off and then never found again: every
  sighting of it makes another entry, and none of them ever counts more than one occurrence.
\<close>

theorem long_address_duplicates:
  assumes "records_inv st" and "is_cstring ip" and "IPADDR_SIZE \<le> length ip" and "\<forall>e \<in> set es. sys_ok e"
  shows "returns (run_sightings records_add_ip CONFIG ip es st) (\<lambda>st'.
    mset (somes (hr_vector st')) =
      mset (somes (hr_vector st)) + mset (map (\<lambda>e. fresh_record CONFIG (now e) ip) es))"
  by (rule ospec_mono [OF sightings_long [OF records_inv_layout [OF assms(1)] assms(2-4)]]) auto

theorem long_address_duplicates_witness:
  "returns (run_sightings records_add_ip demo_config (replicate 46 (CHR ''1'')) [calm_env, calm_env] empty_records) (\<lambda>st'.
    mset (somes (hr_vector st')) = {#fresh_record demo_config 1000 (replicate 46 (CHR ''1'')),
      fresh_record demo_config 1000 (replicate 46 (CHR ''1''))#})"
proof -
  have ip: "is_cstring (replicate 46 (CHR ''1''))" "IPADDR_SIZE \<le> length (replicate 46 (CHR ''1''))"
    by (simp_all add: is_cstring_def IPADDR_SIZE_def)
  have es: "\<forall>e \<in> set [calm_env, calm_env]. sys_ok e" by simp
  show ?thesis
    by (rule ospec_mono [OF long_address_duplicates [OF empty_records_inv(1) ip es, of demo_config]])
      (auto simp: empty_records_def)
qed

end
