(* ===== verification/Bytes.thy ===== *)
theory Bytes
  imports Prelude
begin

section \<open>Integers as bytes in memory and on the wire\<close>

text \<open>
  The memory image of an integer on a little-endian machine, the conversions \<^verbatim>\<open>htonl\<close>/\<^verbatim>\<open>ntohl\<close>
  (as such a machine has them), and the bits of a byte string in network order, which say what an
  address prefix is. Every equation is proved bit by bit.
\<close>

primrec word_le :: "u8 list \<Rightarrow> 'a::len word" where
  "word_le [] = 0"
| "word_le (b # bs) = ucast b OR push_bit 8 (word_le bs)"

definition bytes_le :: "nat \<Rightarrow> 'a::len word \<Rightarrow> u8 list" where
  "bytes_le n w = map (\<lambda>i. ucast (drop_bit (8 * i) w)) [0..<n]"

lemma length_bytes_le [simp]: "length (bytes_le n w) = n"
  by (simp add: bytes_le_def)

lemma bit_byte: "bit (b :: u8) n \<Longrightarrow> n < 8"
  using bit_imp_le_length [of b n] by simp

lemma bit_word_le:
  "bit (word_le bs :: 'a::len word) n \<longleftrightarrow>
     n < LENGTH('a) \<and> n < 8 * length bs \<and> bit (bs ! (n div 8)) (n mod 8)"
proof (induction bs arbitrary: n)
  case Nil
  then show ?case by simp
next
  case (Cons b bs)
  show ?case
  proof (cases "n < 8")
    case True
    then show ?thesis by (auto simp: bit_or_iff bit_ucast_iff bit_push_bit_iff)
  next
    case False
    then have "\<not> bit b n" by (auto dest: bit_byte)
    moreover have "n div 8 = Suc ((n - 8) div 8)" "n mod 8 = (n - 8) mod 8"
      using False by (simp_all add: le_div_geq le_mod_geq)
    ultimately show ?thesis
      using False Cons.IH [of "n - 8"]
      by (auto simp: bit_or_iff bit_ucast_iff bit_push_bit_iff)
  qed
qed

lemma bit_bytes_le:
  "i < n \<Longrightarrow> bit (bytes_le n (w :: 'a::len word) ! i) k \<longleftrightarrow> k < 8 \<and> bit w (8 * i + k)"
  by (auto simp: bytes_le_def bit_ucast_iff bit_drop_bit_eq)

lemma word_le_bytes_le [simp]:
  assumes "LENGTH('a) \<le> 8 * n"
  shows "word_le (bytes_le n w) = (w :: 'a::len word)"
proof (rule bit_word_eqI)
  fix k
  assume k: "k < LENGTH('a)"
  then have "k div 8 < n" using assms by simp
  then have "bit (bytes_le n w ! (k div 8)) (k mod 8) \<longleftrightarrow> bit w k"
    by (simp add: bit_bytes_le)
  then show "bit (word_le (bytes_le n w) :: 'a word) k \<longleftrightarrow> bit w k"
    using k assms by (simp add: bit_word_le)
qed

lemma bytes_le_word_le [simp]:
  assumes "length bs = n" and "8 * n \<le> LENGTH('a)"
  shows "bytes_le n (word_le bs :: 'a::len word) = bs"
proof (rule nth_equalityI)
  fix i
  assume i: "i < length (bytes_le n (word_le bs :: 'a word))"
  then have i: "i < n" by simp
  show "bytes_le n (word_le bs :: 'a word) ! i = bs ! i"
  proof (rule bit_word_eqI)
    fix k
    assume "k < LENGTH(8)"
    then have k: "k < 8" by simp
    then have "8 * i + k < 8 * n" using i by linarith
    with i k assms show "bit (bytes_le n (word_le bs :: 'a word) ! i) k = bit (bs ! i) k"
      by (simp add: bit_bytes_le bit_word_le)
  qed
qed (use assms in simp)

text \<open>\<^verbatim>\<open>htonl\<close> and \<^verbatim>\<open>ntohl\<close> reverse the bytes.\<close>

definition htonl :: "u32 \<Rightarrow> u32" where
  "htonl w = word_le (rev (bytes_le 4 w))"

definition ntohl :: "u32 \<Rightarrow> u32" where
  "ntohl w = word_le (rev (bytes_le 4 w))"

lemma ntohl_htonl [simp]: "ntohl (htonl w) = w" "htonl (ntohl w) = w"
  by (simp_all add: ntohl_def htonl_def)

text \<open>The memory image of a converted integer is its big-endian byte string.\<close>

lemma bytes_le_htonl: "bytes_le 4 (htonl w) = rev (bytes_le 4 w)"
  by (simp add: htonl_def)

subsection \<open>Bits in network order\<close>

definition nbit :: "u8 list \<Rightarrow> nat \<Rightarrow> bool" where
  "nbit bs i = bit (bs ! (i div 8)) (7 - i mod 8)"

definition same_prefix :: "nat \<Rightarrow> u8 list \<Rightarrow> u8 list \<Rightarrow> bool" where
  "same_prefix p a b \<longleftrightarrow> (\<forall>i \<in> {..<p}. nbit a i = nbit b i)"

text \<open>Bit \<open>m\<close> of byte \<open>k\<close> is bit \<open>8 * k + (7 - m)\<close> in network order.\<close>

lemma nbit_index:
  assumes "m < 8"
  shows "nbit bs (8 * k + (7 - m)) = bit (bs ! k) m"
proof -
  define d where "d = 7 - m"
  have "d < 8" "7 - d = m" using assms by (auto simp: d_def)
  then have "nbit bs (8 * k + d) = bit (bs ! k) m" by (simp add: nbit_def)
  then show ?thesis by (simp only: d_def)
qed

lemma same_prefix_bits:
  assumes "p \<le> 8 * n"
  shows "same_prefix p a b \<longleftrightarrow>
    (\<forall>k < n. \<forall>m < 8. 8 * k + (7 - m) < p \<longrightarrow> bit (a ! k) m = bit (b ! k) m)" (is "_ \<longleftrightarrow> ?R")
proof
  assume pre: "same_prefix p a b"
  show ?R
  proof (intro allI impI)
    fix k m :: nat
    assume "m < 8" "8 * k + (7 - m) < p"
    with pre have "nbit a (8 * k + (7 - m)) = nbit b (8 * k + (7 - m))"
      by (simp only: same_prefix_def lessThan_iff ball_simps)
    with \<open>m < 8\<close> show "bit (a ! k) m = bit (b ! k) m" by (simp only: nbit_index)
  qed
next
  assume R: ?R
  show "same_prefix p a b"
    unfolding same_prefix_def
  proof
    fix i
    assume "i \<in> {..<p}"
    then have i: "i < p" by simp
    have "i div 8 < n" "7 - i mod 8 < 8" "8 * (i div 8) + (7 - (7 - i mod 8)) < p"
      using assms i by (simp_all add: less_mult_imp_div_less)
    with R show "nbit a i = nbit b i" unfolding nbit_def by blast
  qed
qed

end
