(* ===== verification/Netshared.thy ===== *)
theory Netshared
  imports Records Bytes
begin

section \<open>The wire format (network/netshared.h, network/netshared.c)\<close>

text \<open>
  A command travels as \<^verbatim>\<open>REMOTE_COMMAND_SIZE\<close> bytes: the command word, the two address fields and
  the integers of the host record, all big-endian. The encoder and the decoder are the
  \<^verbatim>\<open>memcpy\<close> sequences of the source on checked buffers; the lemmas give the exact wire image and the
  round trips in both directions. \<^verbatim>\<open>net_read\<close> and \<^verbatim>\<open>net_write\<close> are the loops around \<^verbatim>\<open>read\<close> and
  \<^verbatim>\<open>write\<close>; what the kernel answers to the successive calls is a list of events, and a loop that
  would still wait at the end of the list has no result (\<open>None\<close>). A little-endian machine is
  modelled (\<^verbatim>\<open>WORDS_BIGENDIAN\<close> undefined).
\<close>

subsection \<open>Characters as bytes\<close>

definition byte_of :: "char \<Rightarrow> u8" where
  "byte_of c = of_nat (of_char c)"

definition char_of_byte :: "u8 \<Rightarrow> char" where
  "char_of_byte b = char_of (unat b)"

lemma of_char_less: "(of_char c :: nat) < 256"
  by (metis of_char_mod_256 mod_less_divisor zero_less_numeral)

lemma char_of_byte_of [simp]: "char_of_byte (byte_of c) = c"
  using of_char_less [of c] by (simp add: char_of_byte_def byte_of_def unat_of_nat)

lemma byte_of_char_of [simp]: "byte_of (char_of_byte b) = b"
  using unsigned_less [of b, where ?'a = nat] by (simp add: char_of_byte_def byte_of_def)

lemma map_char_of_byte [simp]: "map char_of_byte (map byte_of cs) = cs" "map byte_of (map char_of_byte bs) = bs"
  by (simp_all add: comp_def map_idI)

subsection \<open>Commands\<close>

definition ADD :: u32 where "ADD = 0"
definition REMOVE :: u32 where "REMOVE = 1"
definition INFORMATION :: u32 where "INFORMATION = 2"

text \<open>\<^verbatim>\<open>htonll\<close>: the bytes of \<^verbatim>\<open>a\<close> are stored into \<^verbatim>\<open>b\<close> in reverse, one by one.\<close>

definition htonll :: "u64 \<Rightarrow> u64 outcome" where
  "htonll a =
     obind (c_for 0 8 (\<lambda>i sb.
         obind (read_at (bytes_le 8 a) (7 - i)) (\<lambda>x. obind (write_at sb i x) (\<lambda>sb'. Ret (Inr sb'))))
         (bytes_le 8 (0 :: u64)))
       (\<lambda>res. case res of Inl sb \<Rightarrow> Ret (word_le sb) | Inr sb \<Rightarrow> Ret (word_le sb))"

definition ntohll :: "u64 \<Rightarrow> u64 outcome" where
  "ntohll a = htonll a"

text \<open>\<^verbatim>\<open>memcpy(buff + pos, src, n); pos += n\<close> and \<^verbatim>\<open>memcpy(dst, buff + pos, n); pos += n\<close>.\<close>

definition put :: "u8 list \<Rightarrow> u8 list \<times> nat \<Rightarrow> (u8 list \<times> nat) outcome" where
  "put src bp = (case bp of (buff, pos) \<Rightarrow>
     obind (memcpy_to buff pos src) (\<lambda>buff'. Ret (buff', pos + length src)))"

definition put32 :: "u32 \<Rightarrow> u8 list \<times> nat \<Rightarrow> (u8 list \<times> nat) outcome" where
  "put32 v bp = (let val32 = htonl v in put (bytes_le 4 val32) bp)"

definition put64 :: "u64 \<Rightarrow> u8 list \<times> nat \<Rightarrow> (u8 list \<times> nat) outcome" where
  "put64 v bp = obind (htonll v) (\<lambda>val64. put (bytes_le 8 val64) bp)"

definition put_chars :: "char list \<Rightarrow> u8 list \<times> nat \<Rightarrow> (u8 list \<times> nat) outcome" where
  "put_chars cs bp = obind (memcpy_from cs 0 IPADDR_SIZE) (\<lambda>cs'. put (map byte_of cs') bp)"

definition get :: "u8 list \<Rightarrow> nat \<Rightarrow> nat \<Rightarrow> (u8 list \<times> nat) outcome" where
  "get buff n pos = obind (memcpy_from buff pos n) (\<lambda>bs. Ret (bs, pos + n))"

definition get32 :: "u8 list \<Rightarrow> nat \<Rightarrow> (u32 \<times> nat) outcome" where
  "get32 buff pos = obind (get buff 4 pos) (\<lambda>(bs, pos'). Ret (ntohl (word_le bs), pos'))"

definition get64 :: "u8 list \<Rightarrow> nat \<Rightarrow> (u64 \<times> nat) outcome" where
  "get64 buff pos = obind (get buff 8 pos) (\<lambda>(bs, pos'). obind (ntohll (word_le bs)) (\<lambda>v. Ret (v, pos')))"

definition get_chars :: "u8 list \<Rightarrow> nat \<Rightarrow> (char list \<times> nat) outcome" where
  "get_chars buff pos = obind (get buff IPADDR_SIZE pos) (\<lambda>(bs, pos'). Ret (map char_of_byte bs, pos'))"

definition net_command_to_buff :: "bool \<Rightarrow> u32 \<Rightarrow> hostrecord \<Rightarrow> u8 list \<Rightarrow> (nat \<times> u8 list) outcome" where
  "net_command_to_buff nd command rec buff =
     c_assert nd (length buff = REMOTE_COMMAND_SIZE)
       (obind (put32 command (buff, 0)) (\<lambda>bp.
        obind (put_chars (hr_origin rec) bp) (\<lambda>bp.
        obind (put_chars (hr_ipaddr rec) bp) (\<lambda>bp.
        obind (put64 (hr_firstseen rec) bp) (\<lambda>bp.
        obind (put64 (hr_lastseen rec) bp) (\<lambda>bp.
        obind (put64 (hr_purge_after rec) bp) (\<lambda>bp.
        obind (put64 (hr_time_interval rec) bp) (\<lambda>bp.
        obind (put32 (hr_occurrences rec) bp) (\<lambda>bp.
        obind (put32 (hr_action_threshold rec) bp) (\<lambda>bp.
        obind (put32 (hr_remove rec) bp) (\<lambda>bp.
        obind (put32 (hr_processed rec) bp) (\<lambda>(buff', pos).
          c_assert nd (pos = length buff) (c_assert nd (pos = REMOTE_COMMAND_SIZE)
            (Ret (pos, buff')))))))))))))))"

definition net_buff_to_command :: "bool \<Rightarrow> u8 list \<Rightarrow> (nat \<times> u32 \<times> hostrecord) outcome" where
  "net_buff_to_command nd buff =
     obind (get32 buff 0) (\<lambda>(command, pos).
     obind (get_chars buff pos) (\<lambda>(origin, pos).
     obind (get_chars buff pos) (\<lambda>(ipaddr, pos).
     obind (get64 buff pos) (\<lambda>(firstseen, pos).
     obind (get64 buff pos) (\<lambda>(lastseen, pos).
     obind (get64 buff pos) (\<lambda>(purge_after, pos).
     obind (get64 buff pos) (\<lambda>(time_interval, pos).
     obind (get32 buff pos) (\<lambda>(occurrences, pos).
     obind (get32 buff pos) (\<lambda>(action_threshold, pos).
     obind (get32 buff pos) (\<lambda>(remove, pos).
     obind (get32 buff pos) (\<lambda>(processed, pos).
       c_assert nd (pos = REMOTE_COMMAND_SIZE)
         (Ret (pos, command,
           \<lparr> hr_origin = origin, hr_ipaddr = ipaddr, hr_firstseen = firstseen, hr_lastseen = lastseen,
             hr_purge_after = purge_after, hr_time_interval = time_interval, hr_occurrences = occurrences,
             hr_action_threshold = action_threshold, hr_remove = remove, hr_processed = processed \<rparr>)))))))))))))"

subsection \<open>Reading and writing all bytes\<close>

definition EINTR :: int where "EINTR = 4"

text \<open>
  What successive \<^verbatim>\<open>read\<close> calls find: bytes that have arrived (none of them means end of file) or an
  error. A call takes at most what it asks for; the rest stays for the next call.
\<close>

datatype read_event = RChunk "u8 list" | RErr int

function net_read_loop :: "read_event list \<Rightarrow> nat \<Rightarrow> u8 list \<Rightarrow> int \<Rightarrow> (int \<times> u8 list \<times> int \<times> read_event list) option" where
  "net_read_loop evs nleft got err =
     (if nleft = 0 then Some (int (length got), got, err, evs)
      else (case evs of
          [] \<Rightarrow> None
        | RErr e # evs' \<Rightarrow>
            if e = EINTR then net_read_loop evs' nleft got e else Some (RETVAL_ERR, got, e, evs')
        | RChunk bs # evs' \<Rightarrow>
            if bs = [] then Some (int (length got), got, err, evs')
            else if length bs \<le> nleft then net_read_loop evs' (nleft - length bs) (got @ bs) err
            else net_read_loop (RChunk (drop nleft bs) # evs') 0 (got @ take nleft bs) err))"
  by pat_completeness auto
termination
  by (relation "measure (\<lambda>(evs, nleft, got, err). length evs + nleft)") auto

declare net_read_loop.simps [simp del]

text \<open>\<^verbatim>\<open>net_read\<close>: the return value, the bytes stored at \<^verbatim>\<open>buf\<close>, \<^verbatim>\<open>*err\<close>, and what is left to read.\<close>

definition net_read :: "read_event list \<Rightarrow> nat \<Rightarrow> (int \<times> u8 list \<times> int \<times> read_event list) option" where
  "net_read evs nbyte = net_read_loop evs nbyte [] 0"

text \<open>What successive \<^verbatim>\<open>write\<close> calls answer: they accept up to \<open>k + 1\<close> bytes, or fail.\<close>

datatype write_event = WOk nat | WErr int

fun net_write_loop :: "write_event list \<Rightarrow> u8 list \<Rightarrow> u8 list \<Rightarrow> (bool \<times> u8 list \<times> int \<times> write_event list) option" where
  "net_write_loop evs [] sent = Some (True, sent, 0, evs)"
| "net_write_loop [] left sent = None"
| "net_write_loop (WErr e # evs) left sent =
     (if e = EINTR then net_write_loop evs left sent else Some (False, sent, e, evs))"
| "net_write_loop (WOk k # evs) left sent = net_write_loop evs (drop (Suc k) left) (sent @ take (Suc k) left)"

text \<open>\<^verbatim>\<open>net_write\<close>: the return value, the bytes handed to the kernel, the errno of a failure, the rest.\<close>

definition net_write :: "write_event list \<Rightarrow> u8 list \<Rightarrow> (int \<times> u8 list \<times> int \<times> write_event list) option" where
  "net_write evs buf = map_option (\<lambda>(ok, sent, e, evs').
     (if ok then int (length buf) else RETVAL_ERR, sent, e, evs')) (net_write_loop evs buf [])"

subsection \<open>The wire image\<close>

lemma htonll_loop:
  assumes "n \<le> 8"
  shows "c_for 0 n (\<lambda>i sb.
      obind (read_at (bytes_le 8 (a :: u64)) (7 - i)) (\<lambda>x. obind (write_at sb i x) (\<lambda>sb'. Ret (Inr sb')))) (bytes_le 8 (0 :: u64))
    = Ret (Inr (take n (rev (bytes_le 8 a)) @ drop n (bytes_le 8 (0 :: u64))) :: u8 list + u8 list)"
proof -
  let ?A = "bytes_le 8 a" and ?Z = "bytes_le 8 (0 :: u64)"
  let ?I = "\<lambda>i t. t = take i (rev ?A) @ drop i ?Z"
  let ?body = "(\<lambda>i sb. obind (read_at ?A (7 - i)) (\<lambda>x. obind (write_at sb i x) (\<lambda>sb'. Ret (Inr sb'))))
    :: nat \<Rightarrow> u8 list \<Rightarrow> (u8 list + u8 list) outcome"
  have "returns (c_for 0 n ?body ?Z) (case_sum (\<lambda>_. False) (?I n))"
  proof (rule c_for_rule [where I = ?I], goal_cases)
    case (3 i t)
    then have i: "i < 8" using assms by simp
    have x: "?A ! (7 - i) = rev ?A ! i" using i by (simp add: rev_nth)
    have "take i (rev ?A) @ (rev ?A ! i) # drop (Suc i) ?Z = take (Suc i) (rev ?A) @ drop (Suc i) ?Z"
      using i by (simp add: take_Suc_conv_app_nth)
    moreover have "(take i (rev ?A) @ drop i ?Z)[i := rev ?A ! i] = take i (rev ?A) @ (rev ?A ! i) # drop (Suc i) ?Z"
      using i by (simp add: list_update_append Cons_nth_drop_Suc [symmetric])
    ultimately show ?case using 3 i x by simp
  qed auto
  then obtain x where "c_for 0 n ?body ?Z = Ret x" "case_sum (\<lambda>_. False) (?I n) x" by (auto simp: returns_iff)
  then show ?thesis by (cases x) auto
qed

lemma htonll_eq: "htonll a = Ret (word_le (rev (bytes_le 8 a)))"
  unfolding htonll_def htonll_loop [OF order_refl] by simp

lemma ntohll_htonll: "obind (htonll a) ntohll = Ret a"
  by (simp add: ntohll_def htonll_eq)

text \<open>The big-endian image of an integer.\<close>

definition be32 :: "u32 \<Rightarrow> u8 list" where "be32 v = rev (bytes_le 4 v)"
definition be64 :: "u64 \<Rightarrow> u8 list" where "be64 v = rev (bytes_le 8 v)"

lemma length_be [simp]: "length (be32 v) = 4" "length (be64 w) = 8"
  by (simp_all add: be32_def be64_def)

definition wire :: "u32 \<Rightarrow> hostrecord \<Rightarrow> u8 list" where
  "wire command r = concat [be32 command, map byte_of (hr_origin r), map byte_of (hr_ipaddr r),
     be64 (hr_firstseen r), be64 (hr_lastseen r), be64 (hr_purge_after r), be64 (hr_time_interval r),
     be32 (hr_occurrences r), be32 (hr_action_threshold r), be32 (hr_remove r), be32 (hr_processed r)]"

text \<open>Writing extends the part of the buffer that is already filled.\<close>

lemma put_extends:
  assumes "length acc + length src \<le> length buff"
  shows "put src (acc @ drop (length acc) buff, length acc)
    = Ret ((acc @ src) @ drop (length (acc @ src)) buff, length (acc @ src))"
  using assms by (simp add: put_def memcpy_to_def add.commute)

lemma put_fields:
  assumes "length acc + 4 \<le> length buff"
  shows "put32 v (acc @ drop (length acc) buff, length acc)
    = Ret ((acc @ be32 v) @ drop (length (acc @ be32 v)) buff, length (acc @ be32 v))"
  using assms put_extends [of acc "be32 v" buff] by (simp add: put32_def bytes_le_htonl be32_def)

lemma put_fields64:
  assumes "length acc + 8 \<le> length buff"
  shows "put64 v (acc @ drop (length acc) buff, length acc)
    = Ret ((acc @ be64 v) @ drop (length (acc @ be64 v)) buff, length (acc @ be64 v))"
  using assms put_extends [of acc "be64 v" buff] by (simp add: put64_def htonll_eq be64_def)

lemma put_fields_chars:
  assumes "length acc + IPADDR_SIZE \<le> length buff" and "length cs = IPADDR_SIZE"
  shows "put_chars cs (acc @ drop (length acc) buff, length acc)
    = Ret ((acc @ map byte_of cs) @ drop (length (acc @ map byte_of cs)) buff, length (acc @ map byte_of cs))"
  using assms put_extends [of acc "map byte_of cs" buff] by (simp add: put_chars_def memcpy_from_def)

lemma net_command_to_buff_wire:
  assumes "length buff = REMOTE_COMMAND_SIZE" and "length (hr_origin r) = IPADDR_SIZE" and "length (hr_ipaddr r) = IPADDR_SIZE"
  shows "net_command_to_buff nd command r buff = Ret (REMOTE_COMMAND_SIZE, wire command r)"
proof -
  have start: "(buff, 0) = ([] @ drop (length ([] :: u8 list)) buff, length ([] :: u8 list))" by simp
  note sz = assms REMOTE_COMMAND_SIZE_def IPADDR_SIZE_def
  show ?thesis
    unfolding net_command_to_buff_def start c_assert_holds [OF assms(1)]
    apply (subst put_fields, simp add: sz, subst obind.simps)
    apply (subst put_fields_chars, simp add: sz, simp add: sz, subst obind.simps)
    apply (subst put_fields_chars, simp add: sz, simp add: sz, subst obind.simps)
    apply ((subst put_fields64, simp add: sz, subst obind.simps)+)
    apply ((subst put_fields, simp add: sz, subst obind.simps)+)
    apply (simp add: sz wire_def)
    done
qed

subsection \<open>Round trips\<close>

lemma get_at:
  assumes "take n (drop pos buff) = src" and "length src = n" and "pos + n \<le> length buff"
  shows "get buff n pos = Ret (src, pos + n)"
  using assms by (simp add: get_def memcpy_from_def)

lemma word_le_be [simp]: "ntohl (word_le (be32 v)) = v" "ntohll (word_le (be64 w)) = Ret w"
  by (simp_all add: be32_def be64_def ntohl_def ntohll_def htonll_eq)

lemma be_word_le [simp]:
  "length bs = 4 \<Longrightarrow> be32 (word_le (rev bs)) = bs" "length cs = 8 \<Longrightarrow> be64 (word_le (rev cs)) = cs"
  by (simp_all add: be32_def be64_def)

lemma get32_at: "take 4 (drop pos buff) = be32 v \<Longrightarrow> pos + 4 \<le> length buff \<Longrightarrow> get32 buff pos = Ret (v, pos + 4)"
  by (simp add: get32_def get_at)

lemma get64_at: "take 8 (drop pos buff) = be64 v \<Longrightarrow> pos + 8 \<le> length buff \<Longrightarrow> get64 buff pos = Ret (v, pos + 8)"
  by (simp add: get64_def get_at)

lemma get_chars_at:
  "take IPADDR_SIZE (drop pos buff) = map byte_of cs \<Longrightarrow> length cs = IPADDR_SIZE \<Longrightarrow> pos + IPADDR_SIZE \<le> length buff
    \<Longrightarrow> get_chars buff pos = Ret (cs, pos + IPADDR_SIZE)"
  by (simp add: get_chars_def get_at comp_def)

lemma net_buff_to_command_wire:
  assumes "length (hr_origin r) = IPADDR_SIZE" and "length (hr_ipaddr r) = IPADDR_SIZE"
  shows "net_buff_to_command nd (wire command r) = Ret (REMOTE_COMMAND_SIZE, command, r)"
proof -
  note sz = assms [unfolded IPADDR_SIZE_def] IPADDR_SIZE_def
  let ?w = "wire command r"
  have f: "get32 ?w 0 = Ret (command, 0 + 4)"
    "get_chars ?w 4 = Ret (hr_origin r, 4 + IPADDR_SIZE)"
    "get_chars ?w 50 = Ret (hr_ipaddr r, 50 + IPADDR_SIZE)"
    "get64 ?w 96 = Ret (hr_firstseen r, 96 + 8)"
    "get64 ?w 104 = Ret (hr_lastseen r, 104 + 8)"
    "get64 ?w 112 = Ret (hr_purge_after r, 112 + 8)"
    "get64 ?w 120 = Ret (hr_time_interval r, 120 + 8)"
    "get32 ?w 128 = Ret (hr_occurrences r, 128 + 4)"
    "get32 ?w 132 = Ret (hr_action_threshold r, 132 + 4)"
    "get32 ?w 136 = Ret (hr_remove r, 136 + 4)"
    "get32 ?w 140 = Ret (hr_processed r, 140 + 4)"
    by (rule get32_at get64_at get_chars_at; simp add: wire_def sz)+
  show ?thesis
    unfolding net_buff_to_command_def
    by (simp add: f sz REMOTE_COMMAND_SIZE_def)
qed

text \<open>Every buffer of the right size is the image of exactly one command.\<close>

lemma wire_surj:
  assumes "length buff = REMOTE_COMMAND_SIZE"
  shows "\<exists>command r. wire command r = buff \<and> length (hr_origin r) = IPADDR_SIZE \<and> length (hr_ipaddr r) = IPADDR_SIZE"
proof -
  have len: "length buff = 144" using assms by (simp add: REMOTE_COMMAND_SIZE_def)
  define f where "f i n = take n (drop i buff)" for i n
  have lf: "length (f i n) = n" if "i + n \<le> 144" for i n using that len by (simp add: f_def)
  define g where "g i = drop i buff" for i
  have cut: "g i = f i n @ g (i + n)" for i n
    unfolding f_def g_def by (metis add.commute append_take_drop_id drop_drop)
  have g: "g 144 = []" "buff = g 0" using len by (simp_all add: g_def)
  let ?r = "\<lparr> hr_origin = map char_of_byte (f 4 46), hr_ipaddr = map char_of_byte (f 50 46),
    hr_firstseen = word_le (rev (f 96 8)), hr_lastseen = word_le (rev (f 104 8)),
    hr_purge_after = word_le (rev (f 112 8)), hr_time_interval = word_le (rev (f 120 8)),
    hr_occurrences = word_le (rev (f 128 4)), hr_action_threshold = word_le (rev (f 132 4)),
    hr_remove = word_le (rev (f 136 4)), hr_processed = word_le (rev (f 140 4)) \<rparr>"
  have "wire (word_le (rev (f 0 4))) ?r = concat [f 0 4, f 4 46, f 50 46, f 96 8, f 104 8, f 112 8, f 120 8,
      f 128 4, f 132 4, f 136 4, f 140 4]"
    unfolding wire_def by (simp add: lf comp_def)
  also have "\<dots> = buff"
    unfolding g(2)
    using cut [of 0 4] cut [of 4 46] cut [of 50 46] cut [of 96 8] cut [of 104 8] cut [of 112 8] cut [of 120 8]
      cut [of 128 4] cut [of 132 4] cut [of 136 4] cut [of 140 4] g(1) by simp
  finally show ?thesis
    by (intro exI [of _ "word_le (rev (f 0 4))"] exI [of _ ?r]) (simp add: lf IPADDR_SIZE_def)
qed

lemma net_buff_to_command_total:
  assumes "length buff = REMOTE_COMMAND_SIZE"
  shows "returns (net_buff_to_command nd buff) (\<lambda>(n, command, r). n = REMOTE_COMMAND_SIZE \<and> wire command r = buff
    \<and> length (hr_origin r) = IPADDR_SIZE \<and> length (hr_ipaddr r) = IPADDR_SIZE)"
  using wire_surj [OF assms] net_buff_to_command_wire by (auto simp: returns_iff)

subsection \<open>Complete transfers\<close>

text \<open>The bytes the events deliver when nothing but interrupted calls comes between them.\<close>

fun payload :: "read_event list \<Rightarrow> u8 list" where
  "payload [] = []"
| "payload (RErr e # evs) = (if e = EINTR then payload evs else [])"
| "payload (RChunk bs # evs) = (if bs = [] then [] else bs @ payload evs)"

text \<open>Whatever the chunks: with enough bytes on the way, exactly the next \<open>n\<close> of them are read.\<close>

lemma net_read_loop_full:
  "n \<le> length (payload evs) \<Longrightarrow> \<exists>err' evs'. net_read_loop evs n got err =
     Some (int (length got + n), got @ take n (payload evs), err', evs') \<and> payload evs' = drop n (payload evs)"
proof (induction evs n got err rule: net_read_loop.induct)
  case (1 evs n got err)
  show ?case
  proof (cases "n = 0")
    case True
    then show ?thesis by (subst net_read_loop.simps) simp
  next
    case n: False
    with "1.prems" obtain ev evs' where evs: "evs = ev # evs'" by (cases evs) auto
    show ?thesis
    proof (cases ev)
      case (RErr e)
      with "1.prems" n evs have "e = EINTR" by (auto split: if_splits)
      with 1 n evs RErr show ?thesis by (subst net_read_loop.simps) simp
    next
      case (RChunk bs)
      with "1.prems" n evs have bs: "bs \<noteq> []" by auto
      show ?thesis
      proof (cases "length bs \<le> n")
        case True
        with "1.IH"(1) [OF n evs RChunk bs True] "1.prems" evs RChunk bs n show ?thesis
          by (subst net_read_loop.simps) (auto simp: le_diff_conv)
      next
        case False
        with evs RChunk bs n show ?thesis
          by (subst net_read_loop.simps) (simp add: net_read_loop.simps)
      qed
    qed
  qed
qed

lemma net_read_full:
  assumes "n \<le> length (payload evs)"
  shows "\<exists>err evs'. net_read evs n = Some (int n, take n (payload evs), err, evs') \<and> payload evs' = drop n (payload evs)"
  using net_read_loop_full [OF assms, of "[]" 0] by (simp add: net_read_def)

text \<open>Writing: all bytes in order, or an error after some of them.\<close>

lemma net_write_loop_spec:
  "net_write_loop evs left sent = Some (ok, out, e, evs') \<Longrightarrow>
     (if ok then out = sent @ left else e \<noteq> EINTR \<and> (\<exists>n < length left. out = sent @ take n left))"
proof (induction evs left sent rule: net_write_loop.induct)
  case (4 k evs v va sent)
  let ?l = "v # va"
  from 4 have IH: "if ok then out = (sent @ take (Suc k) ?l) @ drop (Suc k) ?l
     else e \<noteq> EINTR \<and> (\<exists>n < length (drop (Suc k) ?l). out = (sent @ take (Suc k) ?l) @ take n (drop (Suc k) ?l))"
    by simp
  show ?case
  proof (cases ok)
    case True
    with IH show ?thesis by simp
  next
    case False
    with IH obtain n where "e \<noteq> EINTR" "n < length ?l - Suc k" "out = sent @ take (Suc k + n) ?l"
      by (auto simp: take_add)
    with False show ?thesis by (auto intro!: exI [of _ "Suc k + n"])
  qed
qed (auto split: if_splits)

lemma net_write_loop_enough:
  "length left \<le> length (filter (\<lambda>ev. case ev of WOk k \<Rightarrow> True | WErr e \<Rightarrow> False) evs) \<Longrightarrow>
   \<forall>e. WErr e \<in> set evs \<longrightarrow> e = EINTR \<Longrightarrow> \<exists>e evs'. net_write_loop evs left sent = Some (True, sent @ left, e, evs')"
proof (induction evs left sent rule: net_write_loop.induct)
  case (4 k evs v va sent)
  then show ?case by auto
qed auto

subsection \<open>Properties\<close>

lemma demo_host_sizes: "length (hr_origin demo_host) = IPADDR_SIZE" "length (hr_ipaddr demo_host) = IPADDR_SIZE"
  using demo_host_wf(1) by (auto simp: wf_hostrecord_def)

text \<open>
  C24. Encoding a command into a buffer of the right size uses all of it, never touches a byte outside,
  leaves nothing of the old content, and decoding the result gives back the command and the record
  bit for bit.
\<close>

theorem command_roundtrip:
  assumes "length buff = REMOTE_COMMAND_SIZE" and "length (hr_origin r) = IPADDR_SIZE" and "length (hr_ipaddr r) = IPADDR_SIZE"
  shows "returns (net_command_to_buff nd command r buff) (\<lambda>(n, buff'). n = REMOTE_COMMAND_SIZE \<and> length buff' = REMOTE_COMMAND_SIZE
    \<and> net_buff_to_command nd' buff' = Ret (REMOTE_COMMAND_SIZE, command, r))"
  using assms
  by (simp add: net_command_to_buff_wire net_buff_to_command_wire)
    (simp add: wire_def REMOTE_COMMAND_SIZE_def IPADDR_SIZE_def)

theorem command_roundtrip_witness:
  "returns (net_command_to_buff False ADD demo_host (replicate 144 7)) (\<lambda>(n, buff'). n = 144
    \<and> net_buff_to_command False buff' = Ret (144, ADD, demo_host))"
  using command_roundtrip [of "replicate 144 7" demo_host False ADD False] demo_host_sizes
  by (auto simp: REMOTE_COMMAND_SIZE_def elim!: ospec_mono)

text \<open>
  Decoding is defined for every buffer of the right size, and encoding what was decoded gives the
  same bytes again: the wire format has no spare bits and no two commands share an image.
\<close>

theorem command_decode_total:
  assumes "length buff = REMOTE_COMMAND_SIZE" and "length buff' = REMOTE_COMMAND_SIZE"
  shows "returns (net_buff_to_command nd buff) (\<lambda>(n, command, r). n = REMOTE_COMMAND_SIZE
    \<and> net_command_to_buff nd' command r buff' = Ret (REMOTE_COMMAND_SIZE, buff))"
  by (rule ospec_mono [OF net_buff_to_command_total [OF assms(1)]])
    (auto simp: net_command_to_buff_wire assms(2))

theorem command_decode_total_witness:
  "returns (net_buff_to_command False (replicate 144 255)) (\<lambda>(n, command, r). n = 144
    \<and> net_command_to_buff False command r (replicate 144 0) = Ret (144, replicate 144 255))"
  using command_decode_total [of "replicate 144 255" "replicate 144 0" False False]
  by (simp add: REMOTE_COMMAND_SIZE_def)

text \<open>
  \<^verbatim>\<open>net_write\<close> either hands the whole buffer to the kernel, in order, and returns its size, or returns
  an error other than an interrupted call after a proper prefix of it. It does return, as soon as the
  kernel has accepted something often enough and never failed for good.
\<close>

theorem net_write_all_or_error:
  "(\<forall>rv sent err rest. net_write evs buf = Some (rv, sent, err, rest) \<longrightarrow>
      (rv = int (length buf) \<and> sent = buf \<or> rv = RETVAL_ERR \<and> err \<noteq> EINTR \<and> (\<exists>n < length buf. sent = take n buf)))
   \<and> (length buf \<le> length (filter (\<lambda>ev. case ev of WOk k \<Rightarrow> True | WErr e \<Rightarrow> False) evs) \<and> (\<forall>e. WErr e \<in> set evs \<longrightarrow> e = EINTR)
      \<longrightarrow> (\<exists>err rest. net_write evs buf = Some (int (length buf), buf, err, rest)))"
proof (intro conjI allI impI)
  fix rv sent err rest
  assume "net_write evs buf = Some (rv, sent, err, rest)"
  then obtain ok where w: "net_write_loop evs buf [] = Some (ok, sent, err, rest)"
    and rv: "rv = (if ok then int (length buf) else RETVAL_ERR)" by (auto simp: net_write_def)
  from net_write_loop_spec [OF w] rv
  show "rv = int (length buf) \<and> sent = buf \<or> rv = RETVAL_ERR \<and> err \<noteq> EINTR \<and> (\<exists>n < length buf. sent = take n buf)"
    by (auto split: if_splits)
next
  assume "length buf \<le> length (filter (\<lambda>ev. case ev of WOk k \<Rightarrow> True | WErr e \<Rightarrow> False) evs) \<and> (\<forall>e. WErr e \<in> set evs \<longrightarrow> e = EINTR)"
  then show "\<exists>err rest. net_write evs buf = Some (int (length buf), buf, err, rest)"
    using net_write_loop_enough [of buf evs "[]"] by (auto simp: net_write_def)
qed

theorem net_write_all_or_error_witness:
  "\<exists>err rest. net_write [WOk 0, WErr EINTR, WOk 4, WOk 0] [1, 2, 3] = Some (3, [1, 2, 3], err, rest)"
  using net_write_all_or_error [of "[WOk 0, WErr EINTR, WOk 4, WOk 0]" "[1, 2, 3]"] by simp

end
