(* ===== verification/Tls.thy ===== *)
theory Tls
  imports Config
begin

section \<open>TLS contexts and connections (network/sslutils.c, network/netssl.c)\<close>

text \<open>
  OpenSSL is not part of the program: what its functions answer is an argument, and of its objects the
  model keeps what the program makes of them. \<open>ssl_ctx\<close> has the verification settings the program asks
  for; \<open>tls_conn\<close> has the two pointers \<^verbatim>\<open>ssl\<close> and \<^verbatim>\<open>sbio\<close> of a thread and the number of connection
  objects it has allocated. The lemmas show that no context is put to use without peer verification
  and revocation checks, that a failed handshake leaves no object behind, and that the pointers are
  null again when the next handshake asks for it.
\<close>

subsection \<open>Locks of older versions of the library\<close>

text \<open>
  \<open>lib_old\<close> is \<^verbatim>\<open>OPENSSL_VERSION_NUMBER < 0x10100000\<close>; only such a build has the locks.
\<close>

record ssl_lib =
  lib_old :: bool
  lib_num_locks :: nat
  lib_cs_ok :: bool
  lib_count_ok :: bool
  lib_mutex_rv :: "nat \<Rightarrow> int"
  lib_ctx_client :: bool
  lib_ctx_server :: bool
  lib_load_ca :: "string \<Rightarrow> bool"
  lib_use_cert :: "string \<Rightarrow> bool"
  lib_use_key :: "string \<Rightarrow> bool"
  lib_bio_file :: bool
  lib_bio_open :: "string \<Rightarrow> bool"
  lib_read_crl :: "string \<Rightarrow> bool"

record ssl_locks =
  lk_count :: "i64 list"
  lk_locked :: "bool list"

definition no_locks :: ssl_locks where
  "no_locks = \<lparr>lk_count = [], lk_locked = []\<rparr>"

definition CRYPTO_LOCK :: u32 where "CRYPTO_LOCK = 1"

text \<open>\<open>None\<close> while the lock is taken by another thread.\<close>

definition sslutils_locking_callback :: "u32 \<Rightarrow> nat \<Rightarrow> ssl_locks \<Rightarrow> ssl_locks option outcome" where
  "sslutils_locking_callback mode type l =
     (if and mode CRYPTO_LOCK \<noteq> 0
      then obind (read_at (lk_locked l) type) (\<lambda>b.
             if b then Ret None
             else obind (read_at (lk_count l) type) (\<lambda>n.
               Ret (Some (l\<lparr>lk_locked := (lk_locked l)[type := True], lk_count := (lk_count l)[type := n + 1]\<rparr>))))
      else obind (write_at (lk_locked l) type False) (\<lambda>v. Ret (Some (l\<lparr>lk_locked := v\<rparr>))))"

definition initialize_locking :: "ssl_lib \<Rightarrow> ssl_locks outcome" where
  "initialize_locking lib =
     (if \<not> lib_old lib then Ret no_locks
      else if \<not> lib_cs_ok lib then Exit 1
      else if \<not> lib_count_ok lib then Exit 1
      else obind (c_for 0 (lib_num_locks lib) (\<lambda>i u. if lib_mutex_rv lib i \<noteq> 0 then Exit 1 else Ret (Inr u)) ())
             (\<lambda>res :: unit + unit. case res of Inl u \<Rightarrow> Ret no_locks
                | Inr u \<Rightarrow> Ret \<lparr>lk_count = replicate (lib_num_locks lib) 0, lk_locked = replicate (lib_num_locks lib) False\<rparr>))"

text \<open>\<^verbatim>\<open>deinitialize_locking\<close> destroys and frees; an error of \<^verbatim>\<open>pthread_mutex_destroy\<close> is only reported.\<close>

definition deinitialize_locking :: "ssl_lib \<Rightarrow> ssl_locks \<Rightarrow> ssl_locks outcome" where
  "deinitialize_locking lib l =
     (if \<not> lib_old lib then Ret l
      else obind (c_for 0 (lib_num_locks lib) (\<lambda>i u. obind (read_at (lk_count l) i) (\<lambda>n. Ret (Inr u))) ())
             (\<lambda>res :: unit + unit. case res of Inl u \<Rightarrow> Ret l | Inr u \<Rightarrow> Ret no_locks))"

subsection \<open>Verification\<close>

text \<open>
  The verify callback. For some errors it hands a pointer to a structure of the library to a \<^verbatim>\<open>%s\<close>
  conversion, which is undefined; otherwise it answers what it was given.
\<close>

datatype x509_error = X509_V_OK | X509_V_ERR_UNABLE_TO_GET_ISSUER_CERT | X509_V_ERR_CERT_NOT_YET_VALID
  | X509_V_ERR_ERROR_IN_CERT_NOT_BEFORE_FIELD | X509_V_ERR_CERT_HAS_EXPIRED
  | X509_V_ERR_ERROR_IN_CERT_NOT_AFTER_FIELD | X509_V_ERR_NO_EXPLICIT_POLICY | X509_V_ERR_OTHER int

fun prints_struct :: "x509_error \<Rightarrow> bool" where
  "prints_struct X509_V_ERR_UNABLE_TO_GET_ISSUER_CERT = True"
| "prints_struct X509_V_ERR_CERT_NOT_YET_VALID = True"
| "prints_struct X509_V_ERR_ERROR_IN_CERT_NOT_BEFORE_FIELD = True"
| "prints_struct X509_V_ERR_CERT_HAS_EXPIRED = True"
| "prints_struct X509_V_ERR_ERROR_IN_CERT_NOT_AFTER_FIELD = True"
| "prints_struct _ = False"

definition sslutils_verify_callback :: "int \<Rightarrow> x509_error \<Rightarrow> int outcome" where
  "sslutils_verify_callback ok err = (if prints_struct err then Undef else Ret ok)"

record ssl_ctx =
  cx_verify_peer :: bool
  cx_fail_if_no_cert :: bool
  cx_client_once :: bool
  cx_ca :: "string option"
  cx_cert :: "string option"
  cx_key :: "string option"
  cx_crl_check :: bool

definition SSL_CTX_new :: ssl_ctx where
  "SSL_CTX_new = \<lparr>cx_verify_peer = False, cx_fail_if_no_cert = False, cx_client_once = False,
     cx_ca = None, cx_cert = None, cx_key = None, cx_crl_check = False\<rparr>"

text \<open>\<^verbatim>\<open>_load_crl\<close>: was a list read?\<close>

definition load_crl :: "ssl_lib \<Rightarrow> config \<Rightarrow> bool outcome" where
  "load_crl lib CONFIG =
     (if \<not> lib_bio_file lib then Ret False
      else obind (c_string (cfg_ssl_crl_file CONFIG)) (\<lambda>f.
        if \<not> lib_bio_open lib f then Ret False else Ret (lib_read_crl lib f)))"

definition add_crl_to_ssl_ctx :: "ssl_lib \<Rightarrow> config \<Rightarrow> ssl_ctx \<Rightarrow> ssl_ctx outcome" where
  "add_crl_to_ssl_ctx lib CONFIG cx =
     obind (load_crl lib CONFIG) (\<lambda>crl. if \<not> crl then Exit 1 else Ret (cx\<lparr>cx_crl_check := True\<rparr>))"

text \<open>The steps both verification functions share: trust store, certificate, key, revocation list.\<close>

definition load_credentials :: "ssl_lib \<Rightarrow> config \<Rightarrow> char list \<Rightarrow> char list \<Rightarrow> ssl_ctx \<Rightarrow> ssl_ctx outcome" where
  "load_credentials lib CONFIG cert key cx =
     obind (c_string (cfg_ssl_ca_file CONFIG)) (\<lambda>ca.
       if \<not> lib_load_ca lib ca then Exit 1
       else obind (c_string cert) (\<lambda>cf.
         if \<not> lib_use_cert lib cf then Exit 1
         else obind (c_string key) (\<lambda>kf.
           if \<not> lib_use_key lib kf then Exit 1
           else add_crl_to_ssl_ctx lib CONFIG (cx\<lparr>cx_ca := Some ca, cx_cert := Some cf, cx_key := Some kf\<rparr>))))"

definition client_verification :: "ssl_lib \<Rightarrow> config \<Rightarrow> ssl_ctx \<Rightarrow> ssl_ctx outcome" where
  "client_verification lib CONFIG cx =
     load_credentials lib CONFIG (cfg_ssl_client_cert CONFIG) (cfg_ssl_client_key CONFIG)
       (cx\<lparr>cx_verify_peer := True, cx_fail_if_no_cert := True, cx_client_once := False\<rparr>)"

definition server_verification :: "ssl_lib \<Rightarrow> config \<Rightarrow> ssl_ctx \<Rightarrow> ssl_ctx outcome" where
  "server_verification lib CONFIG cx =
     load_credentials lib CONFIG (cfg_ssl_server_cert CONFIG) (cfg_ssl_server_key CONFIG)
       (cx\<lparr>cx_verify_peer := True, cx_fail_if_no_cert := True, cx_client_once := True\<rparr>)"

subsection \<open>Start and end\<close>

record tls_st =
  ssl_initialized :: bool
  ssl_ctx_client :: "ssl_ctx option"
  ssl_ctx_server :: "ssl_ctx option"
  ssl_locking :: ssl_locks

definition tls_start :: tls_st where
  "tls_start = \<lparr>ssl_initialized = False, ssl_ctx_client = None, ssl_ctx_server = None, ssl_locking = no_locks\<rparr>"

text \<open>\<^verbatim>\<open>if (strlen(path) < 1) exit(1)\<close>, for the four files a context needs.\<close>

definition need_file :: "char list \<Rightarrow> 'a outcome \<Rightarrow> 'a outcome" where
  "need_file path m = obind (c_string path) (\<lambda>s. if length s < 1 then Exit 1 else m)"

definition netssl_client_ctx :: "ssl_lib \<Rightarrow> config \<Rightarrow> tls_st \<Rightarrow> tls_st outcome" where
  "netssl_client_ctx lib CONFIG t =
     need_file (cfg_ssl_ca_file CONFIG) (need_file (cfg_ssl_crl_file CONFIG)
       (need_file (cfg_ssl_client_cert CONFIG) (need_file (cfg_ssl_client_key CONFIG)
         (if \<not> lib_ctx_client lib then Exit 1
          else obind (client_verification lib CONFIG SSL_CTX_new) (\<lambda>cx. Ret (t\<lparr>ssl_ctx_client := Some cx\<rparr>))))))"

text \<open>
  For the server, a build with an old version of the library stores the new context in the variable of
  the client; the one of the server stays null, which the following test takes for a failure.
\<close>

definition netssl_server_ctx :: "ssl_lib \<Rightarrow> config \<Rightarrow> tls_st \<Rightarrow> tls_st outcome" where
  "netssl_server_ctx lib CONFIG t =
     need_file (cfg_ssl_ca_file CONFIG) (need_file (cfg_ssl_crl_file CONFIG)
       (need_file (cfg_ssl_server_cert CONFIG) (need_file (cfg_ssl_server_key CONFIG)
         (let new = (if lib_ctx_server lib then Some SSL_CTX_new else None);
              t = (if lib_old lib then t\<lparr>ssl_ctx_client := new\<rparr> else t\<lparr>ssl_ctx_server := new\<rparr>)
          in case ssl_ctx_server t of
               None \<Rightarrow> Exit 1
             | Some cx \<Rightarrow> obind (server_verification lib CONFIG cx) (\<lambda>cx'. Ret (t\<lparr>ssl_ctx_server := Some cx'\<rparr>))))))"

definition netssl_initialize :: "bool \<Rightarrow> ssl_lib \<Rightarrow> config \<Rightarrow> tls_st \<Rightarrow> (int \<times> tls_st) outcome" where
  "netssl_initialize nd lib CONFIG t =
     c_assert nd (\<not> ssl_initialized t) (c_assert nd (ssl_ctx_client t = None) (c_assert nd (ssl_ctx_server t = None)
       (obind (initialize_locking lib) (\<lambda>l.
        obind (if cfg_inform CONFIG \<noteq> 0 then netssl_client_ctx lib CONFIG (t\<lparr>ssl_locking := l\<rparr>) else Ret (t\<lparr>ssl_locking := l\<rparr>)) (\<lambda>t1.
        obind (if cfg_server CONFIG \<noteq> 0 then netssl_server_ctx lib CONFIG t1 else Ret t1) (\<lambda>t2.
          Ret (RETVAL_OK, t2\<lparr>ssl_initialized := True\<rparr>)))))))"

text \<open>\<^verbatim>\<open>netssl_disintegrate\<close>; \<^verbatim>\<open>ssl_initialized\<close> stays set.\<close>

definition netssl_disintegrate :: "bool \<Rightarrow> ssl_lib \<Rightarrow> config \<Rightarrow> tls_st \<Rightarrow> tls_st outcome" where
  "netssl_disintegrate nd lib CONFIG t =
     c_assert nd (ssl_initialized t)
       (obind (if cfg_inform CONFIG \<noteq> 0
               then c_assert nd (ssl_ctx_client t \<noteq> None) (Ret (t\<lparr>ssl_ctx_client := None\<rparr>)) else Ret t) (\<lambda>t1.
        obind (if cfg_server CONFIG \<noteq> 0
               then c_assert nd (ssl_ctx_server t1 \<noteq> None) (Ret (t1\<lparr>ssl_ctx_server := None\<rparr>)) else Ret t1) (\<lambda>t2.
        obind (deinitialize_locking lib (ssl_locking t2)) (\<lambda>l. Ret (t2\<lparr>ssl_locking := l\<rparr>)))))"

subsection \<open>Connections\<close>

record tls_conn =
  tc_ssl :: bool
  tc_sbio :: bool
  tc_live :: nat

definition tls_null :: tls_conn where
  "tls_null = \<lparr>tc_ssl = False, tc_sbio = False, tc_live = 0\<rparr>"

text \<open>Is there a context; the answers of \<^verbatim>\<open>SSL_new\<close>, \<^verbatim>\<open>BIO_new_socket\<close>, and \<^verbatim>\<open>SSL_connect\<close> or \<^verbatim>\<open>SSL_accept\<close>.\<close>

record tls_answers =
  ta_ctx :: bool
  ta_new :: bool
  ta_bio :: bool
  ta_rv :: int

text \<open>
  \<^verbatim>\<open>SSL_free\<close> also frees the BIO that was attached; \<^verbatim>\<open>netssl_client\<close> resets the pointer to it after a failed
  handshake, \<^verbatim>\<open>netssl_server\<close> does not.
\<close>

definition netssl_handshake :: "bool \<Rightarrow> bool \<Rightarrow> tls_answers \<Rightarrow> int \<Rightarrow> tls_conn \<Rightarrow> (int \<times> tls_conn) outcome" where
  "netssl_handshake reset_sbio nd ta sockfd c =
     c_assert nd (\<not> tc_ssl c) (c_assert nd (\<not> tc_sbio c) (c_assert nd (sockfd \<ge> 0) (c_assert nd (ta_ctx ta)
       (if \<not> ta_new ta then Ret (RETVAL_ERR, c\<lparr>tc_ssl := False, tc_sbio := False\<rparr>)
        else
          let c = c\<lparr>tc_ssl := True, tc_live := tc_live c + 1\<rparr> in
          if \<not> ta_bio ta then Ret (RETVAL_ERR, c\<lparr>tc_ssl := False, tc_sbio := False, tc_live := tc_live c - 1\<rparr>)
          else
            let c = c\<lparr>tc_sbio := True\<rparr> in
            if ta_rv ta \<noteq> 1
            then Ret (RETVAL_ERR, c\<lparr>tc_ssl := False, tc_live := tc_live c - 1, tc_sbio := \<not> reset_sbio\<rparr>)
            else Ret (RETVAL_OK, c)))))"

definition netssl_client :: "bool \<Rightarrow> tls_answers \<Rightarrow> int \<Rightarrow> tls_conn \<Rightarrow> (int \<times> tls_conn) outcome" where
  "netssl_client = netssl_handshake True"

definition netssl_server :: "bool \<Rightarrow> tls_answers \<Rightarrow> int \<Rightarrow> tls_conn \<Rightarrow> (int \<times> tls_conn) outcome" where
  "netssl_server = netssl_handshake False"

text \<open>
  The dialogue that ends a connection: \<^verbatim>\<open>SSL_shutdown\<close> is called again as long as it answers 0. The list
  has its successive answers, \<open>None\<close> is a dialogue that is still going on.
\<close>

fun ssl_shutdown :: "int list \<Rightarrow> int option" where
  "ssl_shutdown [] = None"
| "ssl_shutdown (retval # rs) = (if retval = 0 then ssl_shutdown rs else Some retval)"

text \<open>\<^verbatim>\<open>if (ssl != NULL) { ... SSL_free(ssl); }\<close>; the client resets both pointers, the worker thread ends.\<close>

definition tls_close :: "int list \<Rightarrow> tls_conn \<Rightarrow> tls_conn option" where
  "tls_close rs c =
     (if tc_ssl c
      then map_option (\<lambda>_. c\<lparr>tc_ssl := False, tc_sbio := False, tc_live := tc_live c - 1\<rparr>) (ssl_shutdown rs)
      else Some c)"

text \<open>
  What is reported for an error of the library, and through which of \<^verbatim>\<open>out_msg\<close>, \<^verbatim>\<open>out_err\<close> and \<^verbatim>\<open>out_syserr\<close>;
  the thread number before each message is left out.
\<close>

datatype ssl_error = SSL_ERROR_NONE | SSL_ERROR_ZERO_RETURN | SSL_ERROR_WANT_READ | SSL_ERROR_WANT_WRITE
  | SSL_ERROR_WANT_CONNECT | SSL_ERROR_WANT_ACCEPT | SSL_ERROR_WANT_X509_LOOKUP | SSL_ERROR_SYSCALL | SSL_ERROR_SSL
  | SSL_ERROR_OTHER int

datatype ssl_report = Report_msg string | Report_err string | Report_syserr int string | Report_nothing

fun netssl_ssl_error_to_string :: "ssl_error \<Rightarrow> int \<Rightarrow> string option \<Rightarrow> ssl_report" where
  "netssl_ssl_error_to_string SSL_ERROR_NONE syserr r = Report_msg ''No SSL error''"
| "netssl_ssl_error_to_string SSL_ERROR_ZERO_RETURN syserr r = Report_msg ''SSL connection closed''"
| "netssl_ssl_error_to_string SSL_ERROR_WANT_READ syserr r = Report_err ''SSL read did not complete. Try again''"
| "netssl_ssl_error_to_string SSL_ERROR_WANT_WRITE syserr r = Report_err ''SSL write did not complete. Try again''"
| "netssl_ssl_error_to_string SSL_ERROR_WANT_CONNECT syserr r = Report_err ''SSL connect did not complete. Try again''"
| "netssl_ssl_error_to_string SSL_ERROR_WANT_ACCEPT syserr r = Report_err ''SSL accept did not complete. Try again''"
| "netssl_ssl_error_to_string SSL_ERROR_WANT_X509_LOOKUP syserr r = Report_err ''SSL X509 lookup did not complete. Try again''"
| "netssl_ssl_error_to_string SSL_ERROR_SYSCALL syserr r = Report_syserr syserr ''SSL system call error''"
| "netssl_ssl_error_to_string SSL_ERROR_SSL syserr r =
     Report_err (''SSL error ('' @ (case r of None \<Rightarrow> ''<NULL>'' | Some s \<Rightarrow> s) @ '')'')"
| "netssl_ssl_error_to_string (SSL_ERROR_OTHER n) syserr r = Report_nothing"


subsection \<open>No context without verification\<close>

text \<open>What a context must have before it serves a connection.\<close>

definition verifying :: "ssl_lib \<Rightarrow> config \<Rightarrow> char list \<Rightarrow> char list \<Rightarrow> ssl_ctx \<Rightarrow> bool" where
  "verifying lib CONFIG cert key cx \<longleftrightarrow> cx_verify_peer cx \<and> cx_fail_if_no_cert cx \<and> cx_crl_check cx
     \<and> cx_ca cx = Some (cstr (cfg_ssl_ca_file CONFIG)) \<and> cstr (cfg_ssl_ca_file CONFIG) \<noteq> []
     \<and> cx_cert cx = Some (cstr cert) \<and> cstr cert \<noteq> [] \<and> cx_key cx = Some (cstr key) \<and> cstr key \<noteq> []
     \<and> lib_load_ca lib (cstr (cfg_ssl_ca_file CONFIG)) \<and> lib_use_cert lib (cstr cert) \<and> lib_use_key lib (cstr key)
     \<and> lib_read_crl lib (cstr (cfg_ssl_crl_file CONFIG))"

lemma c_string_eq_Ret: "c_string a = Ret s \<longleftrightarrow> terminated a \<and> s = cstr a"
  by (auto simp: c_string_def)

lemma need_file_eq_Ret: "need_file path m = Ret x \<longleftrightarrow> terminated path \<and> cstr path \<noteq> [] \<and> m = Ret x"
  by (auto simp: need_file_def obind_eq_Ret c_string_eq_Ret Suc_le_eq not_less split: if_splits)

lemmas tls_ctx_defs = load_credentials_def add_crl_to_ssl_ctx_def load_crl_def client_verification_def server_verification_def

lemma netssl_client_ctx_Ret:
  assumes "netssl_client_ctx lib CONFIG t = Ret t'"
  shows "\<exists>cx. t' = t\<lparr>ssl_ctx_client := Some cx\<rparr> \<and> verifying lib CONFIG (cfg_ssl_client_cert CONFIG) (cfg_ssl_client_key CONFIG) cx"
  using assms
  by (auto simp: netssl_client_ctx_def need_file_eq_Ret tls_ctx_defs obind_eq_Ret c_string_eq_Ret verifying_def split: if_splits)

lemma netssl_server_ctx_Ret:
  assumes "netssl_server_ctx lib CONFIG t = Ret t'" and "ssl_ctx_server t = None"
  shows "\<not> lib_old lib \<and> (\<exists>cx. t' = t\<lparr>ssl_ctx_server := Some cx\<rparr> \<and> verifying lib CONFIG (cfg_ssl_server_cert CONFIG) (cfg_ssl_server_key CONFIG) cx)"
  using assms
  by (auto simp: netssl_server_ctx_def need_file_eq_Ret tls_ctx_defs obind_eq_Ret c_string_eq_Ret verifying_def Let_def
      split: if_splits option.splits)

lemma netssl_initialize_Ret:
  assumes "netssl_initialize nd lib CONFIG tls_start = Ret (rv, t)"
  shows "rv = RETVAL_OK \<and> ssl_initialized t
    \<and> (if cfg_inform CONFIG \<noteq> 0
       then \<exists>cx. ssl_ctx_client t = Some cx \<and> verifying lib CONFIG (cfg_ssl_client_cert CONFIG) (cfg_ssl_client_key CONFIG) cx
       else ssl_ctx_client t = None)
    \<and> (if cfg_server CONFIG \<noteq> 0
       then \<not> lib_old lib \<and> (\<exists>cx. ssl_ctx_server t = Some cx \<and> verifying lib CONFIG (cfg_ssl_server_cert CONFIG) (cfg_ssl_server_key CONFIG) cx)
       else ssl_ctx_server t = None)"
  using assms
  by (auto simp: netssl_initialize_def tls_start_def obind_eq_Ret split: if_splits
      dest!: netssl_client_ctx_Ret netssl_server_ctx_Ret)

text \<open>Conversely, with everything in place the start succeeds.\<close>

definition files_ok :: "ssl_lib \<Rightarrow> config \<Rightarrow> bool" where
  "files_ok lib CONFIG \<longleftrightarrow> (\<forall>p \<in> set [cfg_ssl_ca_file CONFIG, cfg_ssl_crl_file CONFIG, cfg_ssl_client_cert CONFIG,
       cfg_ssl_client_key CONFIG, cfg_ssl_server_cert CONFIG, cfg_ssl_server_key CONFIG]. terminated p \<and> cstr p \<noteq> [])
     \<and> lib_load_ca lib = (\<lambda>_. True) \<and> lib_use_cert lib = (\<lambda>_. True) \<and> lib_use_key lib = (\<lambda>_. True)
     \<and> lib_bio_file lib \<and> lib_bio_open lib = (\<lambda>_. True) \<and> lib_read_crl lib = (\<lambda>_. True)
     \<and> lib_ctx_client lib \<and> lib_ctx_server lib \<and> \<not> lib_old lib"

lemma netssl_initialize_ok:
  assumes "files_ok lib CONFIG"
  shows "\<exists>t. netssl_initialize nd lib CONFIG tls_start = Ret (RETVAL_OK, t)"
proof -
  have "\<exists>cx. \<forall>t. netssl_client_ctx lib CONFIG t = Ret (t\<lparr>ssl_ctx_client := Some cx\<rparr>)"
    using assms by (auto simp: files_ok_def netssl_client_ctx_def need_file_def tls_ctx_defs c_string_def Suc_le_eq)
  moreover have "\<exists>cx. \<forall>t. netssl_server_ctx lib CONFIG t = Ret (t\<lparr>ssl_ctx_server := Some cx\<rparr>)"
    using assms by (auto simp: files_ok_def netssl_server_ctx_def need_file_def tls_ctx_defs c_string_def Suc_le_eq Let_def)
  ultimately show ?thesis
    using assms by (auto simp: netssl_initialize_def tls_start_def initialize_locking_def files_ok_def)
qed

text \<open>What was initialized can be taken down.\<close>

lemma deinitialize_locking_ok:
  assumes "initialize_locking lib = Ret l"
  shows "\<exists>l'. deinitialize_locking lib l = Ret l'"
proof (cases "lib_old lib")
  case True
  let ?loop = "c_for 0 (lib_num_locks lib) (\<lambda>i u. if lib_mutex_rv lib i \<noteq> 0 then Exit 1 else Ret (Inr u)) () :: (unit + unit) outcome"
  have "safe ?loop (case_sum (\<lambda>_. False) (\<lambda>_. True))"
    by (rule c_for_rule [where I = "\<lambda>_ _. True"]) simp_all
  moreover obtain x where "?loop = Ret x"
      "(case x of Inl u \<Rightarrow> Ret no_locks | Inr u \<Rightarrow> Ret \<lparr>lk_count = replicate (lib_num_locks lib) 0, lk_locked = replicate (lib_num_locks lib) False\<rparr>) = Ret l"
    using assms True by (auto simp: initialize_locking_def obind_eq_Ret split: if_splits)
  ultimately have len: "length (lk_count l) = lib_num_locks lib" by (cases x) auto
  let ?free = "c_for 0 (lib_num_locks lib) (\<lambda>i u. obind (read_at (lk_count l) i) (\<lambda>n. Ret (Inr u))) () :: (unit + unit) outcome"
  have "returns ?free (case_sum (\<lambda>_. False) (\<lambda>_. True))"
    by (rule c_for_rule [where I = "\<lambda>_ _. True"]) (simp_all add: len)
  then obtain x where x: "?free = Ret x" unfolding returns_iff by blast
  show ?thesis unfolding deinitialize_locking_def x using True by (cases x) simp_all
qed (simp add: deinitialize_locking_def)

lemma netssl_initialize_locking:
  assumes "netssl_initialize nd lib CONFIG tls_start = Ret (rv, t)"
  shows "initialize_locking lib = Ret (ssl_locking t)"
  using assms
  by (auto simp: netssl_initialize_def tls_start_def obind_eq_Ret split: if_splits
      dest!: netssl_client_ctx_Ret netssl_server_ctx_Ret)

lemma netssl_disintegrate_ok:
  assumes "netssl_initialize nd lib CONFIG tls_start = Ret (rv, t)"
  shows "\<exists>t'. netssl_disintegrate nd' lib CONFIG t = Ret t' \<and> ssl_ctx_client t' = None \<and> ssl_ctx_server t' = None"
proof -
  obtain l where "deinitialize_locking lib (ssl_locking t) = Ret l"
    using deinitialize_locking_ok [OF netssl_initialize_locking [OF assms]] by blast
  with netssl_initialize_Ret [OF assms] show ?thesis
    by (auto simp: netssl_disintegrate_def c_assert_def split: if_splits)
qed

subsection \<open>Connections leave nothing behind\<close>

text \<open>
  The descriptor is valid, and in a build with TLS there is a context. A build without TLS has no
  answers to give, and nothing to ask.
\<close>

definition tls_ready :: "tls_answers option \<Rightarrow> int \<Rightarrow> bool" where
  "tls_ready tls fd \<longleftrightarrow> fd \<ge> 0 \<and> (case tls of None \<Rightarrow> True | Some ta \<Rightarrow> ta_ctx ta)"

definition tls_ok :: "tls_answers option \<Rightarrow> bool" where
  "tls_ok tls \<longleftrightarrow> (case tls of None \<Rightarrow> True | Some ta \<Rightarrow> ta_new ta \<and> ta_bio ta \<and> ta_rv ta = 1)"

text \<open>The objects of an open connection, and whether its shutdown dialogue comes to an end.\<close>

definition tls_open :: "tls_answers option \<Rightarrow> tls_conn" where
  "tls_open tls = (case tls of None \<Rightarrow> tls_null | Some ta \<Rightarrow> \<lparr>tc_ssl = True, tc_sbio = True, tc_live = 1\<rparr>)"

definition tls_done :: "tls_answers option \<Rightarrow> int list \<Rightarrow> bool" where
  "tls_done tls rs \<longleftrightarrow> tls = None \<or> \<not> tls_ok tls \<or> (\<exists>r \<in> set rs. r \<noteq> 0)"

lemma netssl_handshake_null:
  assumes "ta_ctx ta" and "fd \<ge> 0"
  shows "netssl_handshake b nd ta fd tls_null = (if tls_ok (Some ta) then Ret (RETVAL_OK, tls_open (Some ta))
    else Ret (RETVAL_ERR, tls_null\<lparr>tc_sbio := (\<not> b \<and> ta_new ta \<and> ta_bio ta)\<rparr>))"
  using assms by (auto simp: netssl_handshake_def tls_null_def tls_ok_def tls_open_def Let_def)

text \<open>The handshake as the client and the worker call it, in either kind of build.\<close>

lemma netssl_client_null:
  "tls_ready tls fd \<Longrightarrow> (case tls of None \<Rightarrow> Ret (RETVAL_OK, tls_null) | Some ta \<Rightarrow> netssl_client nd ta fd tls_null)
    = Ret (if tls_ok tls then (RETVAL_OK, tls_open tls) else (RETVAL_ERR, tls_null))"
  by (auto simp: tls_ready_def netssl_client_def netssl_handshake_null tls_open_def tls_ok_def [of None] split: option.splits)
    (simp_all add: tls_null_def)

lemma netssl_server_null:
  assumes "tls_ready tls fd"
  obtains c where "(case tls of None \<Rightarrow> Ret (RETVAL_OK, tls_null) | Some ta \<Rightarrow> netssl_server nd ta fd tls_null)
      = Ret (if tls_ok tls then (RETVAL_OK, tls_open tls) else (RETVAL_ERR, c))" "\<not> tc_ssl c" "tc_live c = 0"
proof
  let ?c = "case tls of None \<Rightarrow> tls_null | Some ta \<Rightarrow> tls_null\<lparr>tc_sbio := (ta_new ta \<and> ta_bio ta)\<rparr>"
  show "(case tls of None \<Rightarrow> Ret (RETVAL_OK, tls_null) | Some ta \<Rightarrow> netssl_server nd ta fd tls_null)
      = Ret (if tls_ok tls then (RETVAL_OK, tls_open tls) else (RETVAL_ERR, ?c))"
    using assms by (auto simp: tls_ready_def netssl_server_def netssl_handshake_null tls_open_def tls_ok_def [of None] split: option.splits)
  show "\<not> tc_ssl ?c" "tc_live ?c = 0"
    by (auto simp: tls_null_def split: option.splits)
qed

lemma ssl_shutdown_ends: "ssl_shutdown rs \<noteq> None \<longleftrightarrow> (\<exists>r \<in> set rs. r \<noteq> 0)"
  by (induction rs) auto

lemma tls_close_open:
  "tls_ok tls \<Longrightarrow> tls_close rs (tls_open tls) = (if tls_done tls rs then Some tls_null else None)"
  using ssl_shutdown_ends [of rs]
  by (auto simp: tls_close_def tls_null_def tls_open_def tls_done_def split: option.splits)

lemma tls_close_none: "\<not> tc_ssl c \<Longrightarrow> tls_close rs c = Some c"
  by (simp add: tls_close_def)

lemma tls_null_closed [simp]: "\<not> tc_ssl tls_null" "\<not> tc_sbio tls_null" "tc_live tls_null = 0"
  by (simp_all add: tls_null_def)

subsection \<open>Properties\<close>

text \<open>
  C28. No TLS context is used without verification: when \<^verbatim>\<open>netssl_initialize\<close> returns, each context the
  configuration asks for exists, demands and verifies a certificate of the peer, checks revocation, and has the
  configured trust store, certificate and key, all of which have been loaded. In every other case the program
  has ended; so it does, for a server, with a version of the library before 1.1.
\<close>

theorem tls_start_verifies:
  assumes "netssl_initialize nd lib CONFIG tls_start = Ret (rv, t)"
  shows "rv = RETVAL_OK \<and> ssl_initialized t
    \<and> (if cfg_inform CONFIG \<noteq> 0
       then \<exists>cx. ssl_ctx_client t = Some cx \<and> verifying lib CONFIG (cfg_ssl_client_cert CONFIG) (cfg_ssl_client_key CONFIG) cx
       else ssl_ctx_client t = None)
    \<and> (if cfg_server CONFIG \<noteq> 0
       then \<not> lib_old lib \<and> (\<exists>cx. ssl_ctx_server t = Some cx \<and> verifying lib CONFIG (cfg_ssl_server_cert CONFIG) (cfg_ssl_server_key CONFIG) cx)
       else ssl_ctx_server t = None)"
  using assms by (rule netssl_initialize_Ret)

definition demo_ssl :: ssl_lib where
  "demo_ssl = \<lparr>lib_old = False, lib_num_locks = 0, lib_cs_ok = True, lib_count_ok = True, lib_mutex_rv = (\<lambda>_. 0),
     lib_ctx_client = True, lib_ctx_server = True, lib_load_ca = (\<lambda>_. True), lib_use_cert = (\<lambda>_. True), lib_use_key = (\<lambda>_. True),
     lib_bio_file = True, lib_bio_open = (\<lambda>_. True), lib_read_crl = (\<lambda>_. True)\<rparr>"

definition demo_ssl_config :: config where
  "demo_ssl_config = demo_config\<lparr>cfg_inform := 1, cfg_server := 1, cfg_ssl_ca_file := ''ca'' @ [NUL], cfg_ssl_crl_file := ''crl'' @ [NUL],
     cfg_ssl_client_cert := ''cert'' @ [NUL], cfg_ssl_client_key := ''key'' @ [NUL],
     cfg_ssl_server_cert := ''scert'' @ [NUL], cfg_ssl_server_key := ''skey'' @ [NUL]\<rparr>"

theorem tls_start_verifies_witness:
  "\<exists>t cx. netssl_initialize False demo_ssl demo_ssl_config tls_start = Ret (RETVAL_OK, t)
     \<and> ssl_ctx_server t = Some cx \<and> cx_verify_peer cx \<and> cx_fail_if_no_cert cx \<and> cx_crl_check cx \<and> cx_ca cx = Some ''ca''"
proof -
  have "files_ok demo_ssl demo_ssl_config"
    by (simp add: files_ok_def demo_ssl_def demo_ssl_config_def terminated_def cstr_def)
  then obtain t where t: "netssl_initialize False demo_ssl demo_ssl_config tls_start = Ret (RETVAL_OK, t)"
    using netssl_initialize_ok by blast
  have "cfg_server demo_ssl_config \<noteq> 0" "cstr (cfg_ssl_ca_file demo_ssl_config) = ''ca''"
    by (simp_all add: demo_ssl_config_def cstr_def)
  with tls_start_verifies [OF t] t show ?thesis by (auto simp: verifying_def)
qed

text \<open>
  A connection leaves no object behind: a handshake that fails has freed what it made, on both sides, and
  the pointers of the client, which calls it again in the next pass, are null. A connection that was
  established is freed by the shutdown dialogue, which ends with the first answer other than 0 and goes on
  as long as there is none.
\<close>

theorem tls_connection_freed:
  assumes "tls_ready (Some ta) fd"
  shows "netssl_client nd ta fd tls_null = Ret (if tls_ok (Some ta) then (RETVAL_OK, tls_open (Some ta)) else (RETVAL_ERR, tls_null))
    \<and> (\<exists>rv c. netssl_server nd ta fd tls_null = Ret (rv, c) \<and> (rv = RETVAL_OK \<longleftrightarrow> tls_ok (Some ta))
         \<and> tc_live c = (if rv = RETVAL_OK then 1 else 0) \<and> tc_ssl c = (rv = RETVAL_OK))
    \<and> tls_close (replicate n 0) (tls_open (Some ta)) = None
    \<and> (r \<noteq> 0 \<longrightarrow> tls_close (replicate n 0 @ r # rs) (tls_open (Some ta)) = Some tls_null)"
proof -
  have z: "ssl_shutdown (replicate n 0) = None" "r \<noteq> 0 \<Longrightarrow> ssl_shutdown (replicate n 0 @ r # rs) = Some r"
    by (induction n) auto
  obtain c where "netssl_server nd ta fd tls_null = Ret (if tls_ok (Some ta) then (RETVAL_OK, tls_open (Some ta)) else (RETVAL_ERR, c))"
      "\<not> tc_ssl c" "tc_live c = 0"
    using netssl_server_null [OF assms, of nd] by auto
  then have s: "\<exists>rv c. netssl_server nd ta fd tls_null = Ret (rv, c) \<and> (rv = RETVAL_OK \<longleftrightarrow> tls_ok (Some ta))
      \<and> tc_live c = (if rv = RETVAL_OK then 1 else 0) \<and> tc_ssl c = (rv = RETVAL_OK)"
    by (cases "tls_ok (Some ta)") (simp_all add: tls_open_def)
  show ?thesis
    using netssl_client_null [OF assms, of nd] s z by (auto simp: tls_close_def tls_open_def tls_null_def)
qed

theorem tls_connection_freed_witness:
  "netssl_client False \<lparr>ta_ctx = True, ta_new = True, ta_bio = True, ta_rv = -1\<rparr> 5 tls_null = Ret (RETVAL_ERR, tls_null)
   \<and> tls_close [0, 0, -1, 7] (tls_open (Some \<lparr>ta_ctx = True, ta_new = True, ta_bio = True, ta_rv = -1\<rparr>)) = Some tls_null"
proof -
  let ?ta = "\<lparr>ta_ctx = True, ta_new = True, ta_bio = True, ta_rv = -1\<rparr>"
  have "tls_ready (Some ?ta) 5" "\<not> tls_ok (Some ?ta)" by (simp_all add: tls_ready_def tls_ok_def)
  with tls_connection_freed [of ?ta 5 False 2 "-1" "[7]"] show ?thesis by (simp add: numeral_2_eq_2)
qed

text \<open>
  The locks of older versions of the library: a lock that is free is taken and counted, a second request for
  it has to wait, and it is free again after it has been given back; the other locks are left alone.
\<close>

theorem crypto_lock_excludes:
  assumes "i < length (lk_locked l)" and "length (lk_count l) = length (lk_locked l)" and "\<not> lk_locked l ! i"
  shows "\<exists>l1 l2. sslutils_locking_callback CRYPTO_LOCK i l = Ret (Some l1) \<and> sslutils_locking_callback CRYPTO_LOCK i l1 = Ret None
    \<and> sslutils_locking_callback 0 i l1 = Ret (Some l2) \<and> lk_locked l2 = lk_locked l
    \<and> lk_count l2 = (lk_count l)[i := lk_count l ! i + 1]"
proof -
  have "(lk_locked l)[i := False] = lk_locked l" using assms(3) by (metis list_update_id)
  with assms show ?thesis by (simp add: sslutils_locking_callback_def CRYPTO_LOCK_def)
qed

end
