(* ===== verification/Client_Queue.thy ===== *)
theory Client_Queue
  imports Netshared Tls
begin

section \<open>The queue of one remote server (network/cli/clientqueue.c)\<close>

text \<open>
  A \<^verbatim>\<open>client_queue_t\<close> is a linked list of copied host records and a thread that sends them. The list
  is modelled by the records in list order; every allocation of an append has an answer of its own.
  One pass of the worker takes the whole list, tries to connect, and sends or discards. What the
  network answers in a pass is \<open>transport\<close>: the result of each connection attempt, the descriptor, the
  answers of the TLS library (\<open>None\<close> in a build without it), the result of each write, and the answers
  of the shutdown dialogue. The lemmas show that an append never reorders or loses what is queued,
  that a pass offers every record exactly once in order, and which sockets stay open.
\<close>

subsection \<open>Data\<close>

text \<open>\<open>cq_freed\<close> says that the object has been given back to the allocator; the pointers to it remain.\<close>

record client_queue =
  cq_addr :: addrinfo
  cq_head :: "hostrecord list"
  cq_freed :: bool

text \<open>The answers to one \<^verbatim>\<open>client_queue_append\<close>: the lock, and per entry the two allocations.\<close>

record append_env =
  ae_ndebug :: bool
  ae_lock_rv :: int
  ae_entry_mem :: "nat \<Rightarrow> bool"
  ae_record_mem :: "nat \<Rightarrow> bool"

text \<open>\<^verbatim>\<open>assert(strlen(a) > 2)\<close>; a build with \<^verbatim>\<open>NDEBUG\<close> does not look at the string.\<close>

definition assert_addr :: "bool \<Rightarrow> char list \<Rightarrow> 'a outcome \<Rightarrow> 'a outcome" where
  "assert_addr nd a m = (if nd then m else obind (c_string a) (\<lambda>s. if length s > 2 then m else Abort))"

definition AF_INET_NUM :: int where "AF_INET_NUM = 2"
definition AF_INET6_NUM :: int where "AF_INET6_NUM = 10"

subsection \<open>Operations\<close>

text \<open>\<^verbatim>\<open>client_queue_init\<close>; \<^verbatim>\<open>cond_rv\<close> is the result of \<^verbatim>\<open>pthread_cond_init\<close>.\<close>

definition client_queue_init :: "sysenv \<Rightarrow> int \<Rightarrow> addrinfo \<Rightarrow> client_queue outcome" where
  "client_queue_init e cond_rv a =
     c_assert (ndebug e) (ai_addr a \<noteq> [])
       (c_assert (ndebug e) (ai_family a = AF_INET_NUM \<or> ai_family a = AF_INET6_NUM)
         (if \<not> malloc_ok e then Exit 1
          else if \<not> buf_ok e then Exit 1
          else if mutex_init_rv e \<noteq> 0 then Exit 1
          else if cond_rv \<noteq> 0 then Exit 1
          else if pthread_rv e \<noteq> 0 then Exit 1
          else Ret \<lparr>cq_addr = a, cq_head = [], cq_freed = False\<rparr>))"

text \<open>One new entry for the empty queue: both allocations are checked.\<close>

definition entry_checked :: "append_env \<Rightarrow> nat \<Rightarrow> hostrecord \<Rightarrow> hostrecord outcome" where
  "entry_checked e i r =
     (if \<not> ae_entry_mem e i then Exit 1
      else if \<not> ae_record_mem e i then Exit 1
      else assert_addr (ae_ndebug e) (hr_ipaddr r) (Ret r))"

text \<open>
  One new entry behind the last one. The check after the first allocation looks at
  \<^verbatim>\<open>queue->head\<close>, which is not null here, so a failed allocation is dereferenced.
\<close>

definition entry_unchecked :: "append_env \<Rightarrow> client_queue \<Rightarrow> nat \<Rightarrow> hostrecord \<Rightarrow> hostrecord outcome" where
  "entry_unchecked e q i r =
     (if cq_head q = [] then Exit 1
      else if \<not> ae_entry_mem e i then Undef
      else if \<not> ae_record_mem e i then Exit 1
      else assert_addr (ae_ndebug e) (hr_ipaddr r) (assert_addr (ae_ndebug e) (hr_ipaddr r) (Ret r)))"

definition client_queue_append :: "append_env \<Rightarrow> hostrecord list \<Rightarrow> nat \<Rightarrow> client_queue \<Rightarrow> (int \<times> client_queue) outcome" where
  "client_queue_append e rec len queue =
     c_assert (ae_ndebug e) (len > 0)
       (if cq_freed queue then Undef
        else if ae_lock_rv e \<noteq> 0 then Ret (RETVAL_ERR, queue)
        else if cq_head queue = []
        then obind (read_at rec 0) (\<lambda>r0. obind (entry_checked e 0 r0) (\<lambda>x0.
               obind (c_for 1 len (\<lambda>i l.
                   obind (read_at rec i) (\<lambda>r. obind (entry_checked e i r) (\<lambda>x. Ret (Inr (l @ [x]))))) [x0])
                 (\<lambda>res. case res of
                    Inl l \<Rightarrow> Ret (RETVAL_OK, queue\<lparr>cq_head := l\<rparr>)
                  | Inr l \<Rightarrow> Ret (RETVAL_OK, queue\<lparr>cq_head := l\<rparr>))))
        else obind (c_for 0 len (\<lambda>i l.
                   obind (read_at rec i) (\<lambda>r. obind (entry_unchecked e queue i r) (\<lambda>x. Ret (Inr (l @ [x]))))) (cq_head queue))
               (\<lambda>res. case res of
                  Inl l \<Rightarrow> Ret (RETVAL_OK, queue\<lparr>cq_head := l\<rparr>)
                | Inr l \<Rightarrow> Ret (RETVAL_OK, queue\<lparr>cq_head := l\<rparr>)))"

text \<open>
  \<^verbatim>\<open>client_queue_destroy\<close> cancels the worker, whose cleanup handler frees what is queued, and frees
  the queue.
\<close>

definition client_queue_worker_cleanup :: "client_queue \<Rightarrow> client_queue" where
  "client_queue_worker_cleanup q = q\<lparr>cq_head := []\<rparr>"

definition client_queue_destroy :: "client_queue \<Rightarrow> (int \<times> client_queue) outcome" where
  "client_queue_destroy q =
     (if cq_freed q then Undef else Ret (RETVAL_OK, (client_queue_worker_cleanup q)\<lparr>cq_freed := True\<rparr>))"

subsection \<open>The worker thread\<close>

datatype conn_result = SockFail | ConnFail | Connected

record transport =
  tr_conn :: "nat \<Rightarrow> conn_result"
  tr_fd :: int
  tr_tls :: "tls_answers option"
  tr_write :: "nat \<Rightarrow> bool"
  tr_shutdown :: "int list"

text \<open>
  What a pass leaves behind: the buffers written completely, the records that were freed or lost
  unsent, the number of sockets opened and not closed, and the TLS objects. A pass that is still in the
  shutdown dialogue has its socket open.
\<close>

record pass_log =
  pl_sent :: "u8 list list"
  pl_unsent :: "hostrecord list"
  pl_open :: nat
  pl_conn :: tls_conn

text \<open>
  The connection loop: the number of sockets open and whether \<^verbatim>\<open>sockfd\<close> holds one of them. A socket
  whose \<^verbatim>\<open>connect\<close> failed is not closed before the next attempt overwrites \<^verbatim>\<open>sockfd\<close>.
\<close>

definition connect_loop :: "config \<Rightarrow> transport \<Rightarrow> ((nat \<times> bool) + (nat \<times> bool)) outcome" where
  "connect_loop CONFIG tr =
     c_for 0 (nat (sint (cfg_inform_retry CONFIG))) (\<lambda>retries (opened, cur).
       case tr_conn tr retries of
         SockFail \<Rightarrow> Ret (Inr (opened, False))
       | ConnFail \<Rightarrow> Ret (Inr (Suc opened, True))
       | Connected \<Rightarrow> Ret (Inl (Suc opened, True))) (0, False)"

text \<open>
  Sending one entry: its address goes into a message, \<^verbatim>\<open>net_command_to_buff\<close> fills the local buffer, then one write;
  an error is only logged.
\<close>

definition send_entry :: "bool \<Rightarrow> transport \<Rightarrow> nat \<Rightarrow> hostrecord \<Rightarrow> u8 list \<Rightarrow> (u8 list \<times> bool) outcome" where
  "send_entry nd tr k r buff =
     obind (c_string (hr_ipaddr r)) (\<lambda>_. assert_addr nd (hr_ipaddr r)
       (obind (net_command_to_buff nd ADD r buff) (\<lambda>(n, buff'). Ret (buff', tr_write tr k))))"

fun send_entries :: "bool \<Rightarrow> transport \<Rightarrow> nat \<Rightarrow> hostrecord list \<Rightarrow> u8 list \<Rightarrow> pass_log \<Rightarrow> pass_log outcome" where
  "send_entries nd tr k [] buff lg = Ret lg"
| "send_entries nd tr k (r # rs) buff lg =
     obind (send_entry nd tr k r buff) (\<lambda>(buff', ok).
       send_entries nd tr (Suc k) rs buff'
         (if ok then lg\<lparr>pl_sent := pl_sent lg @ [buff']\<rparr> else lg\<lparr>pl_unsent := pl_unsent lg @ [r]\<rparr>))"

text \<open>From the label \<^verbatim>\<open>SHUTDOWNCONN\<close> on: the shutdown dialogue, and \<^verbatim>\<open>close(sockfd)\<close>.\<close>

definition shutdownconn :: "transport \<Rightarrow> pass_log \<Rightarrow> pass_log" where
  "shutdownconn tr lg =
     (case tls_close (tr_shutdown tr) (pl_conn lg) of
        None \<Rightarrow> lg
      | Some c \<Rightarrow> lg\<lparr>pl_conn := c, pl_open := (if tr_fd tr > -1 then pl_open lg - 1 else pl_open lg)\<rparr>)"

text \<open>
  One pass of \<^verbatim>\<open>_client_queue_worker\<close>; \<^verbatim>\<open>ssl\<close> and \<^verbatim>\<open>sbio\<close> are as the pass before left them. With an empty queue the thread waits on the condition, and
  the pass has not begun (\<open>None\<close>).
\<close>

definition client_queue_worker ::
  "bool \<Rightarrow> config \<Rightarrow> transport \<Rightarrow> u8 list \<Rightarrow> tls_conn \<Rightarrow> client_queue \<Rightarrow> (pass_log option \<times> client_queue) outcome" where
  "client_queue_worker nd CONFIG tr buff conn queue =
     (if cq_head queue = [] then Ret (None, queue)
      else
        (let ptr = cq_head queue; queue = queue\<lparr>cq_head := []\<rparr> in
         obind (connect_loop CONFIG tr) (\<lambda>res. case res of
           Inr (opened, cur) \<Rightarrow>
             Ret (Some \<lparr>pl_sent = [], pl_unsent = ptr, pl_open = (if cur then opened - 1 else opened), pl_conn = conn\<rparr>, queue)
         | Inl (opened, cur) \<Rightarrow>
             obind (case tr_tls tr of None \<Rightarrow> Ret (RETVAL_OK, conn) | Some ta \<Rightarrow> netssl_client nd ta (tr_fd tr) conn) (\<lambda>(retval, conn).
             if retval \<noteq> RETVAL_OK
             then Ret (Some (shutdownconn tr \<lparr>pl_sent = [], pl_unsent = ptr, pl_open = opened, pl_conn = conn\<rparr>), queue)
             else obind (send_entries nd tr 0 ptr buff \<lparr>pl_sent = [], pl_unsent = [], pl_open = opened, pl_conn = conn\<rparr>)
                    (\<lambda>lg. Ret (Some (shutdownconn tr lg), queue))))))"

subsection \<open>Appending keeps order and content\<close>

text \<open>A record that may be queued: well-formed, with an address of more than two characters.\<close>

definition sendable :: "hostrecord \<Rightarrow> bool" where
  "sendable r \<longleftrightarrow> wf_hostrecord r \<and> length (ip_of r) > 2"

definition append_ok :: "append_env \<Rightarrow> bool" where
  "append_ok e \<longleftrightarrow> ae_lock_rv e = 0 \<and> ae_entry_mem e = (\<lambda>_. True) \<and> ae_record_mem e = (\<lambda>_. True)"

lemma assert_addr_ok: "sendable r \<Longrightarrow> assert_addr nd (hr_ipaddr r) m = m"
  by (auto simp: assert_addr_def sendable_def wf_hostrecord_def c_string_def ip_of_def)

lemma sendable_string: "sendable r \<Longrightarrow> c_string (hr_ipaddr r) = Ret (ip_of r)"
  by (simp add: sendable_def wf_hostrecord_def c_string_def ip_of_def)

text \<open>The loop of both branches: the entries copied so far, then the rest of the vector.\<close>

lemma append_loop:
  fixes l0 :: "hostrecord list"
  assumes "i \<le> n" and "n \<le> length rec" and "\<And>j. i \<le> j \<Longrightarrow> j < n \<Longrightarrow> entry j (rec ! j) = Ret (rec ! j)"
  shows "c_for i n (\<lambda>i l. obind (read_at rec i) (\<lambda>r. obind (entry i r) (\<lambda>x. Ret (Inr (l @ [x]))))) l0
    = (Ret (Inr (l0 @ drop i (take n rec))) :: (hostrecord list + hostrecord list) outcome)"
proof -
  let ?I = "\<lambda>k l. l = l0 @ drop i (take k rec)"
  let ?body = "(\<lambda>i l. obind (read_at rec i) (\<lambda>r. obind (entry i r) (\<lambda>x. Ret (Inr (l @ [x])))))
    :: nat \<Rightarrow> hostrecord list \<Rightarrow> (hostrecord list + hostrecord list) outcome"
  have "returns (c_for i n ?body l0) (case_sum (\<lambda>_. False) (?I n))"
    by (rule c_for_rule [where I = ?I]) (use assms in \<open>auto simp: take_Suc_conv_app_nth\<close>)
  then obtain x where "c_for i n ?body l0 = Ret x" "case_sum (\<lambda>_. False) (?I n) x" by (auto simp: returns_iff)
  then show ?thesis by (cases x) auto
qed

lemma client_queue_append_spec:
  assumes ok: "append_ok e" and len: "0 < len" "len \<le> length rec" and rec: "\<forall>r \<in> set (take len rec). sendable r"
    and live: "\<not> cq_freed q"
  shows "client_queue_append e rec len q = Ret (RETVAL_OK, q\<lparr>cq_head := cq_head q @ take len rec\<rparr>)"
proof -
  have r: "sendable (rec ! j)" if "j < len" for j
    using rec that len by (metis length_take min.absorb2 nth_mem nth_take)
  have c: "entry_checked e j (rec ! j) = Ret (rec ! j)" if "j < len" for j
    using ok r [OF that] by (simp add: entry_checked_def append_ok_def assert_addr_ok)
  have u: "entry_unchecked e q j (rec ! j) = Ret (rec ! j)" if "j < len" "cq_head q \<noteq> []" for j
    using ok r [OF that(1)] that(2) by (simp add: entry_unchecked_def append_ok_def assert_addr_ok)
  show ?thesis
  proof (cases "cq_head q = []")
    case True
    have "rec ! 0 # drop 1 (take len rec) = take len rec"
      using len by (cases rec; cases len) auto
    moreover have "0 < length rec" using len by linarith
    ultimately show ?thesis
      using True ok len live c
      by (simp add: client_queue_append_def append_ok_def append_loop [of "Suc 0" len rec "entry_checked e"])
  next
    case False
    with ok len live u show ?thesis
      by (simp add: client_queue_append_def append_ok_def append_loop [of 0 len rec "entry_unchecked e q"])
  qed
qed

subsection \<open>A pass of the worker\<close>

lemma send_entries_spec:
  assumes "\<forall>r \<in> set rs. sendable r" and "length buff = REMOTE_COMMAND_SIZE"
  shows "send_entries nd tr k rs buff lg = Ret (lg
    \<lparr>pl_sent := pl_sent lg @ map (\<lambda>i. wire ADD (rs ! i)) (filter (\<lambda>i. tr_write tr (k + i)) [0..<length rs]),
     pl_unsent := pl_unsent lg @ map ((!) rs) (filter (\<lambda>i. \<not> tr_write tr (k + i)) [0..<length rs])\<rparr>)"
  using assms
proof (induction rs arbitrary: k buff lg)
  case Nil
  then show ?case by simp
next
  case (Cons r rs)
  have enc: "net_command_to_buff nd ADD r buff = Ret (REMOTE_COMMAND_SIZE, wire ADD r)"
    using Cons.prems by (intro net_command_to_buff_wire) (auto simp: sendable_def wf_hostrecord_def)
  have len: "length (wire ADD r) = REMOTE_COMMAND_SIZE"
    using Cons.prems by (simp add: sendable_def wf_hostrecord_def wire_def IPADDR_SIZE_def REMOTE_COMMAND_SIZE_def)
  have up: "[0..<length (r # rs)] = 0 # map Suc [0..<length rs]"
    by (simp only: length_Cons map_Suc_upt upt_conv_Cons zero_less_Suc)
  show ?case
    unfolding up using Cons.prems Cons.IH [OF _ len, of "Suc k"] enc
    by (auto simp: send_entry_def assert_addr_ok sendable_string filter_map comp_def)
qed

text \<open>The loop stops at the first successful attempt; every failed connect has opened a socket.\<close>

definition failed_connects :: "transport \<Rightarrow> nat \<Rightarrow> nat" where
  "failed_connects tr n = length (filter (\<lambda>j. tr_conn tr j = ConnFail) [0..<n])"

lemma connect_loop_spec:
  fixes CONFIG tr
  defines "N \<equiv> nat (sint (cfg_inform_retry CONFIG))"
  obtains (success) n where "connect_loop CONFIG tr = Ret (Inl (Suc (failed_connects tr n), True))" "n < N"
      "tr_conn tr n = Connected" "\<forall>j < n. tr_conn tr j \<noteq> Connected"
  | (failure) cur where "connect_loop CONFIG tr = Ret (Inr (failed_connects tr N, cur))" "\<forall>j < N. tr_conn tr j \<noteq> Connected"
      "cur \<Longrightarrow> 0 < failed_connects tr N"
proof -
  let ?I = "\<lambda>n (opened, cur). (\<forall>j < n. tr_conn tr j \<noteq> Connected) \<and> opened = failed_connects tr n \<and> (cur \<longrightarrow> 0 < opened)"
  let ?Q = "\<lambda>(opened, cur). cur \<and> (\<exists>n < N. tr_conn tr n = Connected \<and> (\<forall>j < n. tr_conn tr j \<noteq> Connected)
    \<and> opened = Suc (failed_connects tr n))"
  have "returns (connect_loop CONFIG tr) (case_sum ?Q (?I N))"
    unfolding connect_loop_def N_def
    by (rule c_for_rule [where I = ?I]) (auto simp: less_Suc_eq failed_connects_def split: conn_result.splits)
  then obtain x where x: "connect_loop CONFIG tr = Ret x" "case_sum ?Q (?I N) x"
    unfolding returns_iff by blast
  show thesis
  proof (cases x)
    case (Inl y)
    with x success show ?thesis by auto
  next
    case (Inr y)
    with x failure show ?thesis by auto
  qed
qed

text \<open>Does the pass reach the server?\<close>

definition reachable_server :: "config \<Rightarrow> transport \<Rightarrow> bool" where
  "reachable_server CONFIG tr \<longleftrightarrow> (\<exists>n \<in> {..<nat (sint (cfg_inform_retry CONFIG))}. tr_conn tr n = Connected) \<and> tls_ok (tr_tls tr)"

text \<open>What is left after the last label, when the pass came with the connection open or refused.\<close>

lemma shutdownconn_open:
  assumes "tls_ready (tr_tls tr) (tr_fd tr)" and "tls_ok (tr_tls tr)" and "pl_conn lg = tls_open (tr_tls tr)"
  shows "shutdownconn tr lg = (if tls_done (tr_tls tr) (tr_shutdown tr) then lg\<lparr>pl_conn := tls_null, pl_open := pl_open lg - 1\<rparr> else lg)"
  using assms by (simp add: shutdownconn_def tls_close_open tls_ready_def)

lemma shutdownconn_null:
  assumes "tls_ready tls (tr_fd tr)" and "pl_conn lg = tls_null"
  shows "shutdownconn tr lg = lg\<lparr>pl_open := pl_open lg - 1\<rparr>"
  using assms by (simp add: shutdownconn_def tls_close_none tls_ready_def)

lemma shutdownconn_keeps [simp]:
  "pl_sent (shutdownconn tr lg) = pl_sent lg" "pl_unsent (shutdownconn tr lg) = pl_unsent lg"
  by (simp_all add: shutdownconn_def split: option.splits)

text \<open>
  A pass that begins with null pointers empties the queue; every record is sent or accounted for as
  unsent, in queue order. The pointers are null again unless the shutdown dialogue goes on.
\<close>

lemma client_queue_worker_spec:
  assumes q: "cq_head q \<noteq> []" "\<forall>r \<in> set (cq_head q). sendable r" and buff: "length buff = REMOTE_COMMAND_SIZE"
    and tls: "tls_ready (tr_tls tr) (tr_fd tr)"
  shows "returns (client_queue_worker nd CONFIG tr buff tls_null q) (\<lambda>(lg, q'). q' = q\<lparr>cq_head := []\<rparr> \<and> (\<exists>l. lg = Some l \<and>
    (tls_done (tr_tls tr) (tr_shutdown tr) \<longrightarrow> pl_conn l = tls_null) \<and>
    (if reachable_server CONFIG tr
     then pl_sent l = map (\<lambda>i. wire ADD (cq_head q ! i)) (filter (tr_write tr) [0..<length (cq_head q)])
        \<and> pl_unsent l = map ((!) (cq_head q)) (filter (\<lambda>i. \<not> tr_write tr i) [0..<length (cq_head q)])
     else pl_sent l = [] \<and> pl_unsent l = cq_head q)))"
proof (cases rule: connect_loop_spec [of CONFIG tr])
  case (success n)
  then have "reachable_server CONFIG tr = tls_ok (tr_tls tr)"
    by (auto simp: reachable_server_def)
  with success(1) show ?thesis
    using q(1) send_entries_spec [OF q(2) buff, of nd tr 0]
    by (simp add: client_queue_worker_def Let_def netssl_client_null [OF tls] shutdownconn_open [OF tls] shutdownconn_null [OF tls])
next
  case (failure cur)
  then have "\<not> reachable_server CONFIG tr"
    by (auto simp: reachable_server_def)
  with failure(1) show ?thesis
    using q(1) by (simp add: client_queue_worker_def Let_def)
qed

lemma client_queue_worker_head:
  assumes "client_queue_worker nd CONFIG tr buff conn q = Ret (lg, q')"
  shows "q' = q \<or> q' = q\<lparr>cq_head := []\<rparr>"
proof (cases rule: connect_loop_spec [of CONFIG tr])
  case (success n)
  with assms show ?thesis
    by (auto simp: client_queue_worker_def Let_def obind_eq_Ret split: if_splits)
next
  case (failure cur)
  with assms show ?thesis
    by (auto simp: client_queue_worker_def Let_def split: if_splits)
qed

text \<open>Every failed connect before a successful one leaves a socket open for good.\<close>

lemma client_queue_worker_leak:
  assumes q: "cq_head q \<noteq> []" "\<forall>r \<in> set (cq_head q). sendable r" and buff: "length buff = REMOTE_COMMAND_SIZE"
    and tls: "tls_ready (tr_tls tr) (tr_fd tr)" "tls_done (tr_tls tr) (tr_shutdown tr)"
    and n: "n < nat (sint (cfg_inform_retry CONFIG))" "tr_conn tr n = Connected" "\<forall>j < n. tr_conn tr j = ConnFail"
  shows "returns (client_queue_worker nd CONFIG tr buff tls_null q) (\<lambda>(lg, q'). \<exists>l. lg = Some l \<and> pl_open l = n)"
proof (cases rule: connect_loop_spec [of CONFIG tr])
  case (success m)
  have "m = n"
  proof (rule linorder_cases)
    show "m < n \<Longrightarrow> m = n" using success(3) n(3) by (metis conn_result.distinct(5))
    show "n < m \<Longrightarrow> m = n" using success(4) n(2) by blast
  qed
  moreover have "failed_connects tr n = n" using n(3) by (simp add: failed_connects_def)
  ultimately show ?thesis
    using q(1) success(1) send_entries_spec [OF q(2) buff, of nd tr 0] tls(2)
    by (simp add: client_queue_worker_def Let_def netssl_client_null [OF tls(1)] shutdownconn_open [OF tls(1)]
        shutdownconn_null [OF tls(1)])
next
  case (failure cur)
  with n show ?thesis by blast
qed

subsection \<open>Properties\<close>

text \<open>A host from the table as it may be queued, and answers that never fail.\<close>

definition calm_append :: append_env where
  "calm_append = \<lparr>ae_ndebug = False, ae_lock_rv = 0, ae_entry_mem = (\<lambda>_. True), ae_record_mem = (\<lambda>_. True)\<rparr>"

definition demo_addrinfo :: addrinfo where
  "demo_addrinfo = \<lparr>ai_family = AF_INET_NUM, ai_socktype = 1, ai_addr = replicate 16 NUL\<rparr>"

definition demo_queue :: client_queue where
  "demo_queue = \<lparr>cq_addr = demo_addrinfo, cq_head = [demo_host], cq_freed = False\<rparr>"

lemma calm_append_ok [simp]: "append_ok calm_append"
  by (simp add: calm_append_def append_ok_def)

lemma demo_host_sendable [simp]: "sendable demo_host"
  by (simp add: sendable_def)

text \<open>
  \<^verbatim>\<open>client_queue_append\<close>: the given records are copied behind everything already queued, in their
  order, whether the queue was empty or not; nothing is lost, duplicated or reordered.
\<close>

theorem client_queue_append_fifo:
  assumes "append_ok e" and "0 < len" and "len \<le> length rec" and "\<forall>r \<in> set (take len rec). sendable r" and "\<not> cq_freed q"
  shows "client_queue_append e rec len q = Ret (RETVAL_OK, q\<lparr>cq_head := cq_head q @ take len rec\<rparr>)"
  using assms by (rule client_queue_append_spec)

theorem client_queue_append_fifo_witness:
  "client_queue_append calm_append [demo_host, demo_host] 2 demo_queue =
     Ret (RETVAL_OK, demo_queue\<lparr>cq_head := [demo_host, demo_host, demo_host]\<rparr>)"
  using client_queue_append_fifo [of calm_append 2 "[demo_host, demo_host]" demo_queue] by (simp add: demo_queue_def)

text \<open>
  One pass of the worker over a queue that is not empty takes all of it. If the server is reached, the
  commands written are those of the records whose write succeeded, in queue order, each exactly once,
  and the other records are the unsent ones; otherwise nothing is written and all records are unsent.
  When the shutdown dialogue ends, both TLS pointers are null again, as the next handshake demands.
\<close>

theorem client_worker_pass:
  assumes "cq_head q \<noteq> []" and "\<forall>r \<in> set (cq_head q). sendable r" and "length buff = REMOTE_COMMAND_SIZE"
    and "tls_ready (tr_tls tr) (tr_fd tr)"
  shows "returns (client_queue_worker nd CONFIG tr buff tls_null q) (\<lambda>(lg, q'). q' = q\<lparr>cq_head := []\<rparr> \<and> (\<exists>l. lg = Some l \<and>
    (tls_done (tr_tls tr) (tr_shutdown tr) \<longrightarrow> pl_conn l = tls_null) \<and>
    (if reachable_server CONFIG tr
     then pl_sent l = map (\<lambda>i. wire ADD (cq_head q ! i)) (filter (tr_write tr) [0..<length (cq_head q)])
        \<and> pl_unsent l = map ((!) (cq_head q)) (filter (\<lambda>i. \<not> tr_write tr i) [0..<length (cq_head q)])
     else pl_sent l = [] \<and> pl_unsent l = cq_head q)))"
  using assms by (rule client_queue_worker_spec)

text \<open>A server that answers the second attempt, with TLS, and one shutdown call too many.\<close>

definition demo_transport :: transport where
  "demo_transport = \<lparr>tr_conn = (\<lambda>n. if n = 1 then Connected else SockFail), tr_fd = 5,
     tr_tls = Some \<lparr>ta_ctx = True, ta_new = True, ta_bio = True, ta_rv = 1\<rparr>, tr_write = (\<lambda>_. True), tr_shutdown = [0, 1]\<rparr>"

theorem client_worker_pass_witness:
  "returns (client_queue_worker False demo_config demo_transport (replicate 144 0) tls_null demo_queue)
    (\<lambda>(lg, q'). cq_head q' = [] \<and> (\<exists>l. lg = Some l \<and> pl_sent l = [wire ADD demo_host] \<and> pl_conn l = tls_null))"
proof -
  have "reachable_server demo_config demo_transport"
    by (auto simp: reachable_server_def demo_transport_def tls_ok_def intro!: bexI [of _ 1])
  then show ?thesis
    by (intro ospec_mono [OF client_worker_pass [of demo_queue "replicate 144 0" demo_transport False demo_config]])
      (auto simp: demo_queue_def REMOTE_COMMAND_SIZE_def demo_transport_def tls_ready_def tls_done_def)
qed

text \<open>
  Appending to a queue that is not empty checks the wrong pointer after its allocation, so running out
  of memory there is a null pointer dereference and not the intended exit of the program.
\<close>

theorem client_queue_append_null:
  assumes "cq_head q \<noteq> []" and "\<not> cq_freed q" and "ae_lock_rv e = 0" and "rec \<noteq> []" and "0 < len" and "\<not> ae_entry_mem e 0"
  shows "client_queue_append e rec len q = Undef"
proof -
  have "0 < length rec" using assms(4) by simp
  then show ?thesis
    using assms by (simp add: client_queue_append_def c_for_step entry_unchecked_def)
qed

theorem client_queue_append_null_witness:
  "client_queue_append (calm_append\<lparr>ae_entry_mem := (\<lambda>_. False)\<rparr>) [demo_host] 1 demo_queue = Undef
   \<and> client_queue_append (calm_append\<lparr>ae_entry_mem := (\<lambda>_. False)\<rparr>) [demo_host] 1 (demo_queue\<lparr>cq_head := []\<rparr>) = Exit 1"
  using client_queue_append_null [of demo_queue "calm_append\<lparr>ae_entry_mem := (\<lambda>_. False)\<rparr>" "[demo_host]" 1]
  by (simp add: demo_queue_def calm_append_def client_queue_append_def entry_checked_def)

text \<open>
  A socket whose \<^verbatim>\<open>connect\<close> fails is not closed before the next attempt opens another one: when the
  server answers only at attempt \<^verbatim>\<open>n\<close>, \<^verbatim>\<open>n\<close> descriptors stay open for the life of the process.
\<close>

theorem client_worker_leaks:
  assumes "cq_head q \<noteq> []" and "\<forall>r \<in> set (cq_head q). sendable r" and "length buff = REMOTE_COMMAND_SIZE"
    and "tls_ready (tr_tls tr) (tr_fd tr)" and "tls_done (tr_tls tr) (tr_shutdown tr)"
    and "n < nat (sint (cfg_inform_retry CONFIG))" and "tr_conn tr n = Connected" and "\<forall>j < n. tr_conn tr j = ConnFail"
  shows "returns (client_queue_worker nd CONFIG tr buff tls_null q) (\<lambda>(lg, q'). \<exists>l. lg = Some l \<and> pl_open l = n)"
  using assms by (rule client_queue_worker_leak)

theorem client_worker_leaks_witness:
  "returns (client_queue_worker False demo_config (demo_transport\<lparr>tr_conn := (\<lambda>n. if n = 7 then Connected else ConnFail)\<rparr>)
      (replicate 144 0) tls_null demo_queue) (\<lambda>(lg, q'). \<exists>l. lg = Some l \<and> pl_open l = 7)"
  by (rule client_worker_leaks)
    (simp_all add: demo_queue_def REMOTE_COMMAND_SIZE_def demo_transport_def tls_ready_def tls_done_def)

end
