(* ===== verification/Client.thy ===== *)
theory Client
  imports Client_Queue
begin

section \<open>The client side: distributing host records (network/cli/client.c)\<close>

text \<open>
  \<open>client_st\<close> is the static variables of \<^verbatim>\<open>client.c\<close>: the queues, one per remote agent, and a small
  vector that collects records until it is flushed to all of them; \<open>cl_temp_freed\<close> says that the entries below its
  fill count have been freed. The lemmas state the effect on
  the \<^emph>\<open>stream\<close> of a queue, what it holds followed by what is still collected: recording extends
  every stream by the record, flushing changes none.
\<close>

subsection \<open>Data\<close>

definition MAXCLIENTQUEUES :: nat where "MAXCLIENTQUEUES = 256"
definition HOSTRECORDVECTORLEN :: nat where "HOSTRECORDVECTORLEN = 25"

record client_st =
  cl_started :: bool
  cl_queues :: "client_queue option list"
  cl_temp :: "hostrecord option list"
  cl_fill :: nat
  cl_temp_freed :: bool

record client_env =
  ce_ndebug :: bool
  ce_mem :: bool
  ce_append :: "nat \<Rightarrow> append_env"

definition client_init_st :: client_st where
  "client_init_st = \<lparr>cl_started = False, cl_queues = replicate MAXCLIENTQUEUES None,
     cl_temp = replicate HOSTRECORDVECTORLEN None, cl_fill = 0, cl_temp_freed = False\<rparr>"

subsection \<open>Operations\<close>

text \<open>\<^verbatim>\<open>client_start\<close>; \<open>es i\<close> and \<open>crv i\<close> serve the creation of queue \<open>i\<close>.\<close>

definition client_start :: "bool \<Rightarrow> (nat \<Rightarrow> sysenv) \<Rightarrow> (nat \<Rightarrow> int) \<Rightarrow> addrinfo_list \<Rightarrow> client_st \<Rightarrow> (int \<times> client_st) outcome" where
  "client_start nd es crv aglist st =
     c_assert nd (aglist \<noteq> [])
       (let st = st\<lparr>cl_queues := replicate MAXCLIENTQUEUES None,
                    cl_temp := replicate HOSTRECORDVECTORLEN None, cl_fill := 0, cl_temp_freed := False\<rparr> in
        obind (c_for 0 MAXCLIENTQUEUES (\<lambda>i (qs, ptr). case ptr of
             [] \<Rightarrow> Ret (Inl (qs, ptr))
           | addr # rest \<Rightarrow> (case addr of
               [] \<Rightarrow> Undef
             | a # _ \<Rightarrow> obind (client_queue_init (es i) (crv i) a) (\<lambda>q.
                 obind (write_at qs i (Some q)) (\<lambda>qs'. Ret (Inr (qs', rest))))))
             (cl_queues st, aglist))
          (\<lambda>res. case res of
             Inl (qs, ptr) \<Rightarrow> Ret (RETVAL_OK, st\<lparr>cl_queues := qs, cl_started := True\<rparr>)
           | Inr (qs, ptr) \<Rightarrow> Ret (RETVAL_OK, st\<lparr>cl_queues := qs, cl_started := True\<rparr>)))"

text \<open>
  \<^verbatim>\<open>client_queue_flush\<close>, with the body of its loop and its end on their own. The vector of pointers is handed to every
  queue; a null pointer among the first \<^verbatim>\<open>temp_hr_vector_fill\<close> would be dereferenced, so only the entries before it can
  be read. What \<^verbatim>\<open>client_queue_append\<close> returns is ignored.
\<close>

definition flush_queue :: "client_env \<Rightarrow> client_st \<Rightarrow> nat \<Rightarrow> client_queue option list \<Rightarrow>
    (client_queue option list + client_queue option list) outcome" where
  "flush_queue e st i qs =
     obind (read_at qs i) (\<lambda>p. case p of
       None \<Rightarrow> Ret (Inl qs)
     | Some q \<Rightarrow>
         if cl_temp_freed st then Undef
         else obind (client_queue_append (ce_append e i)
                  (map the (takeWhile (\<lambda>p. p \<noteq> None) (cl_temp st))) (cl_fill st) q) (\<lambda>(rv, q').
           Ret (Inr (qs[i := Some q']))))"

definition flush_end :: "client_st \<Rightarrow> (int \<times> client_st) outcome" where
  "flush_end st =
     (if cl_temp_freed st then Undef
      else Ret (RETVAL_OK, st\<lparr>cl_temp := replicate HOSTRECORDVECTORLEN None, cl_fill := 0\<rparr>))"

definition client_queue_flush :: "client_env \<Rightarrow> client_st \<Rightarrow> (int \<times> client_st) outcome" where
  "client_queue_flush e st =
     c_assert (ce_ndebug e) (cl_fill st \<le> HOSTRECORDVECTORLEN)
       (if \<not> cl_started st then Ret (RETVAL_OK, st)
        else if cl_fill st < 1 then Ret (RETVAL_OK, st)
        else obind (c_for 0 MAXCLIENTQUEUES (flush_queue e st) (cl_queues st)) (\<lambda>res.
               flush_end (st\<lparr>cl_queues := (case res of Inl qs \<Rightarrow> qs | Inr qs \<Rightarrow> qs)\<rparr>)))"

lemma client_queue_flush_fill:
  "client_queue_flush e st = Ret (rv, st') \<Longrightarrow> cl_started st \<Longrightarrow> cl_fill st' = 0"
  by (auto simp: client_queue_flush_def flush_end_def c_assert_def obind_eq_Ret split: if_splits)

text \<open>\<^verbatim>\<open>client_queue_record\<close> calls itself again after a forced flush.\<close>

function client_queue_record :: "client_env \<Rightarrow> hostrecord \<Rightarrow> client_st \<Rightarrow> (int \<times> client_st) outcome" where
  "client_queue_record e hr st =
     assert_addr (ce_ndebug e) (hr_ipaddr hr)
       (if \<not> cl_started st then Ret (RETVAL_ERR, st)
        else if cl_fill st \<ge> HOSTRECORDVECTORLEN
        then obind (client_queue_flush e st) (\<lambda>(rv, st').
               if rv = RETVAL_ERR then Ret (RETVAL_ERR, st') else client_queue_record e hr st')
        else if \<not> ce_mem e then Exit 1
        else obind (write_at (cl_temp st) (cl_fill st) (Some hr)) (\<lambda>v.
               assert_addr (ce_ndebug e) (hr_ipaddr hr)
                 (Ret (RETVAL_OK, st\<lparr>cl_temp := v, cl_fill := cl_fill st + 1\<rparr>))))"
  by pat_completeness auto
termination
  by (relation "measure (\<lambda>(e, hr, st). cl_fill st)")
    (auto simp: HOSTRECORDVECTORLEN_def dest!: client_queue_flush_fill)

declare client_queue_record.simps [simp del]

text \<open>
  \<^verbatim>\<open>client_stop\<close> destroys the queues and frees what is in the vector; the pointers and the fill count keep their
  values. A second call destroys and frees again.
\<close>

definition stop_queue :: "nat \<Rightarrow> client_queue option list \<Rightarrow> (client_queue option list + client_queue option list) outcome" where
  "stop_queue i qs =
     obind (read_at qs i) (\<lambda>p. case p of
       None \<Rightarrow> Ret (Inl qs)
     | Some q \<Rightarrow> obind (client_queue_destroy q) (\<lambda>(rv, q'). Ret (Inr (qs[i := Some q']))))"

definition stop_vector :: "client_st \<Rightarrow> client_st outcome" where
  "stop_vector st = (if cl_temp_freed st \<and> 0 < cl_fill st then Undef else Ret (st\<lparr>cl_temp_freed := True\<rparr>))"

definition client_stop :: "client_st \<Rightarrow> (int \<times> client_st) outcome" where
  "client_stop st =
     obind (c_for 0 MAXCLIENTQUEUES stop_queue (cl_queues st)) (\<lambda>res.
     obind (stop_vector (st\<lparr>cl_queues := (case res of Inl qs \<Rightarrow> qs | Inr qs \<Rightarrow> qs)\<rparr>)) (\<lambda>st'.
       Ret (RETVAL_OK, st'\<lparr>cl_started := False\<rparr>)))"

subsection \<open>The invariant and the streams\<close>

text \<open>The queues in use are the ones before the first null pointer.\<close>

definition active :: "client_st \<Rightarrow> client_queue list" where
  "active st = map the (takeWhile (\<lambda>p. p \<noteq> None) (cl_queues st))"

definition pending :: "client_st \<Rightarrow> hostrecord list" where
  "pending st = map the (takeWhile (\<lambda>p. p \<noteq> None) (cl_temp st))"

definition client_inv :: "client_st \<Rightarrow> bool" where
  "client_inv st \<longleftrightarrow> length (cl_queues st) = MAXCLIENTQUEUES \<and> length (pending st) = cl_fill st
     \<and> cl_temp st = map Some (pending st) @ replicate (HOSTRECORDVECTORLEN - cl_fill st) None
     \<and> cl_fill st \<le> HOSTRECORDVECTORLEN \<and> (\<forall>r \<in> set (pending st). sendable r)
     \<and> (\<forall>q \<in> set (active st). \<forall>r \<in> set (cq_head q). sendable r)
     \<and> (cl_started st \<longrightarrow> (\<forall>q \<in> set (active st). \<not> cq_freed q) \<and> \<not> cl_temp_freed st)"

definition client_env_ok :: "client_env \<Rightarrow> bool" where
  "client_env_ok e \<longleftrightarrow> ce_mem e \<and> (\<forall>i. append_ok (ce_append e i))"

definition streams :: "client_st \<Rightarrow> hostrecord list list" where
  "streams st = map (\<lambda>q. cq_head q @ pending st) (active st)"

lemma takeWhile_upd_Some:
  "v ! i = Some q \<Longrightarrow> i < length v \<Longrightarrow>
    takeWhile (\<lambda>p. p \<noteq> None) (v[i := Some q']) = (takeWhile (\<lambda>p. p \<noteq> None) v)[i := Some q']"
  by (induction v arbitrary: i) (auto split: nat.splits simp: nth_Cons')

text \<open>A loop that rewrites the entries of an array up to the first null pointer.\<close>

lemma c_for_prefix:
  fixes v :: "'q option list"
  assumes "\<And>i q w. i < length v \<Longrightarrow> v ! i = Some q \<Longrightarrow> q \<in> set (map the (takeWhile (\<lambda>p. p \<noteq> None) v)) \<Longrightarrow> w ! i = Some q \<Longrightarrow> length w = length v \<Longrightarrow>
      body i w = Ret (Inr (w[i := Some (f q)]))"
    and "\<And>i w. i < length v \<Longrightarrow> w ! i = None \<Longrightarrow> length w = length v \<Longrightarrow> body i w = Ret (Inl w)"
  shows "\<exists>res w. c_for 0 (length v) body v = Ret res \<and> (res = Inl w \<or> res = Inr w) \<and>
    w = map (\<lambda>p. Some (f (the p))) (takeWhile (\<lambda>p. p \<noteq> None) v) @ dropWhile (\<lambda>p. p \<noteq> None) v"
proof -
  let ?goal = "map (\<lambda>p. Some (f (the p))) (takeWhile (\<lambda>p. p \<noteq> None) v) @ dropWhile (\<lambda>p. p \<noteq> None) v"
  let ?I = "\<lambda>i w. w = map (\<lambda>p. Some (f (the p))) (take i v) @ drop i v \<and> (\<forall>j < i. v ! j \<noteq> None)"
  have pre: "takeWhile (\<lambda>p. p \<noteq> None) v = take i v \<and> dropWhile (\<lambda>p. p \<noteq> None) v = drop i v"
    if "i \<le> length v" "\<forall>j < i. v ! j \<noteq> None" "i < length v \<longrightarrow> v ! i = None" for i
  proof -
    have "takeWhile (\<lambda>p. p \<noteq> None) v = take i v"
      using that by (intro takeWhile_eq_take_P_nth) auto
    then show ?thesis
      by (metis append_take_drop_id same_append_eq takeWhile_dropWhile_id)
  qed
  have "returns (c_for 0 (length v) body v) (case_sum (\<lambda>w. w = ?goal) (?I (length v)))"
  proof (rule c_for_rule [where I = ?I], goal_cases)
    case (3 i w)
    then have w: "length w = length v" "w ! i = v ! i" "w = map (\<lambda>p. Some (f (the p))) (take i v) @ drop i v"
      by (auto simp: nth_append)
    show ?case
    proof (cases "v ! i")
      case None
      with 3 w pre [of i] show ?thesis by (auto simp: assms(2))
    next
      case (Some q)
      have "takeWhile (\<lambda>p. p \<noteq> None) v = take i v @ takeWhile (\<lambda>p. p \<noteq> None) (drop i v)"
      proof -
        have "\<forall>p \<in> set (take i v). p \<noteq> None" using 3 w(3) by (auto simp: in_set_conv_nth)
        with takeWhile_append2 [of "take i v" "\<lambda>p. p \<noteq> None" "drop i v"] show ?thesis by (simp del: not_None_eq)
      qed
      moreover have "drop i v = Some q # drop (Suc i) v" using 3 Some by (simp add: Cons_nth_drop_Suc [symmetric])
      ultimately have "Some q \<in> set (takeWhile (\<lambda>p. p \<noteq> None) v)" by simp
      then have q: "q \<in> set (map the (takeWhile (\<lambda>p. p \<noteq> None) v))" by force
      have "w[i := Some (f q)] = map (\<lambda>p. Some (f (the p))) (take (Suc i) v) @ drop (Suc i) v"
        using w(3) 3 Some by (simp add: list_update_append take_Suc_conv_app_nth Cons_nth_drop_Suc [symmetric])
      with 3 w Some q show ?thesis by (auto simp: assms(1) less_Suc_eq simp del: set_map)
    qed
  qed auto
  then obtain x where x: "c_for 0 (length v) body v = Ret x" "case_sum (\<lambda>w. w = ?goal) (?I (length v)) x"
    unfolding returns_iff by blast
  with pre [of "length v"] show ?thesis 
    by (cases x) (auto simp: takeWhile_eq_all_conv [THEN iffD2] dropWhile_eq_Nil_conv [THEN iffD2] simp del: not_None_eq)
qed

lemma takeWhile_mapped_prefix:
  "takeWhile (\<lambda>p. p \<noteq> None) (map (\<lambda>p. Some (f (the p))) (takeWhile (\<lambda>p. p \<noteq> None) v) @ dropWhile (\<lambda>p. p \<noteq> None) v)
    = map (\<lambda>p. Some (f (the p))) (takeWhile (\<lambda>p. p \<noteq> None) v)"
  by (induction v) auto

lemma pending_upd [simp]: "pending (st\<lparr>cl_queues := qs\<rparr>) = pending st" "active (st\<lparr>cl_temp := v\<rparr>) = active st"
    "active (st\<lparr>cl_fill := n\<rparr>) = active st" "active (st\<lparr>cl_temp_freed := b\<rparr>) = active st" "pending (st\<lparr>cl_temp_freed := b\<rparr>) = pending st"
    "active (st\<lparr>cl_started := b\<rparr>) = active st" "pending (st\<lparr>cl_started := b\<rparr>) = pending st" "pending (st\<lparr>cl_fill := n\<rparr>) = pending st"
  by (simp_all add: pending_def active_def)

lemma client_queue_flush_spec:
  assumes inv: "client_inv st" and ok: "client_env_ok e" and st: "cl_started st"
  shows "returns (client_queue_flush e st) (\<lambda>(rv, st'). rv = RETVAL_OK \<and> client_inv st' \<and> cl_started st' \<and>
     pending st' = [] \<and> active st' = map (\<lambda>q. q\<lparr>cq_head := cq_head q @ pending st\<rparr>) (active st))"
proof (cases "cl_fill st = 0")
  case True
  with inv st have "pending st = []" by (simp add: client_inv_def)
  with True inv st show ?thesis by (simp add: client_queue_flush_def)
next
  case False
  let ?f = "\<lambda>q. q\<lparr>cq_head := cq_head q @ pending st\<rparr>"
  have live: "\<And>q. q \<in> set (active st) \<Longrightarrow> \<not> cq_freed q" "\<not> cl_temp_freed st" using inv st by (auto simp: client_inv_def)
  have len: "length (cl_queues st) = MAXCLIENTQUEUES" and le: "cl_fill st \<le> HOSTRECORDVECTORLEN"
    using inv by (auto simp: client_inv_def)
  have app: "client_queue_append (ce_append e i) (pending st) (cl_fill st) q = Ret (RETVAL_OK, ?f q)" if "\<not> cq_freed q" for i q
    using inv ok False that by (subst client_queue_append_spec) (auto simp: client_inv_def client_env_ok_def)
  obtain res w where loop: "c_for 0 (length (cl_queues st)) (flush_queue e st) (cl_queues st) = Ret res" "res = Inl w \<or> res = Inr w"
      "w = map (\<lambda>p. Some (?f (the p))) (takeWhile (\<lambda>p. p \<noteq> None) (cl_queues st)) @ dropWhile (\<lambda>p. p \<noteq> None) (cl_queues st)"
    using c_for_prefix [of "cl_queues st" "flush_queue e st" ?f, folded active_def] app live
    by (auto simp: flush_queue_def pending_def simp del: set_map)
  let ?st = "st\<lparr>cl_queues := w, cl_temp := replicate HOSTRECORDVECTORLEN None, cl_fill := 0\<rparr>"
  have pend: "pending ?st = []"
    by (simp add: pending_def takeWhile_eq_Nil_iff HOSTRECORDVECTORLEN_def)
  have act: "active ?st = map ?f (active st)"
    unfolding active_def by (simp add: loop(3) takeWhile_mapped_prefix [of ?f] comp_def del: not_None_eq)
  have "length (takeWhile P v) + length (dropWhile P v) = length v" for P and v :: "client_queue option list"
    by (metis length_append takeWhile_dropWhile_id)
  then have "length w = MAXCLIENTQUEUES" using len loop(3) by simp
  with pend act inv have "client_inv ?st"
    by (auto simp: client_inv_def)
  moreover have "client_queue_flush e st = Ret (RETVAL_OK, ?st)"
    using False st le loop(1,2) len live(2) by (auto simp: client_queue_flush_def flush_end_def c_assert_holds)
  ultimately show ?thesis using st pend act by simp
qed

lemma client_queue_record_room:
  assumes inv: "client_inv st" and ok: "client_env_ok e" and st: "cl_started st" and r: "sendable r"
    and room: "cl_fill st < HOSTRECORDVECTORLEN"
  shows "returns (client_queue_record e r st) (\<lambda>(rv, st'). rv = RETVAL_OK \<and> client_inv st' \<and> cl_started st' \<and>
     pending st' = pending st @ [r] \<and> active st' = active st)"
proof -
  let ?v = "(cl_temp st)[cl_fill st := Some r]"
  have temp: "cl_temp st = map Some (pending st) @ replicate (HOSTRECORDVECTORLEN - cl_fill st) None"
    and len: "length (pending st) = cl_fill st" using inv by (auto simp: client_inv_def)
  obtain k where k: "HOSTRECORDVECTORLEN - cl_fill st = Suc k" using room by (metis Suc_diff_Suc)
  then have v: "?v = map Some (pending st @ [r]) @ replicate k None"
    using temp len by (simp add: list_update_append)
  let ?st = "st\<lparr>cl_temp := ?v, cl_fill := cl_fill st + 1\<rparr>"
  have tw: "takeWhile (\<lambda>p. p \<noteq> None) (map Some xs @ replicate k None) = map Some xs" for xs :: "hostrecord list"
    by (induction xs) (auto simp: takeWhile_eq_Nil_iff)
  have pend: "pending ?st = pending st @ [r]"
  proof -
    have "cl_temp ?st = map Some (pending st @ [r]) @ replicate k None" using v by simp
    then show ?thesis unfolding pending_def [of ?st] by (simp only: tw map_map comp_def option.sel list.map_ident)
  qed
  have "HOSTRECORDVECTORLEN - Suc (cl_fill st) = k" using k by simp
  with pend v inv r room have "client_inv ?st"
    by (auto simp: client_inv_def active_def)
  moreover have "cl_fill st < length (cl_temp st)" using temp len room by simp
  ultimately show ?thesis
    using st room r ok pend
    by (subst client_queue_record.simps) (simp add: assert_addr_ok client_env_ok_def active_def)
qed

lemma client_queue_record_spec:
  assumes inv: "client_inv st" and ok: "client_env_ok e" and st: "cl_started st" and r: "sendable r"
  shows "returns (client_queue_record e r st) (\<lambda>(rv, st'). rv = RETVAL_OK \<and> client_inv st' \<and> cl_started st' \<and>
     streams st' = map (\<lambda>s. s @ [r]) (streams st))"
proof (cases "cl_fill st < HOSTRECORDVECTORLEN")
  case True
  show ?thesis
    by (rule ospec_mono [OF client_queue_record_room [OF assms True]]) (auto simp: streams_def)
next
  case False
  obtain st1 where st1: "client_queue_flush e st = Ret (RETVAL_OK, st1)" "client_inv st1" "cl_started st1"
      "pending st1 = []" "active st1 = map (\<lambda>q. q\<lparr>cq_head := cq_head q @ pending st\<rparr>) (active st)"
    using client_queue_flush_spec [OF inv ok st] by (auto simp: returns_iff)
  have "cl_fill st1 = 0" using client_queue_flush_fill [OF st1(1) st] .
  then have "returns (client_queue_record e r st1) (\<lambda>(rv, st'). rv = RETVAL_OK \<and> client_inv st' \<and> cl_started st' \<and>
     streams st' = map (\<lambda>s. s @ [r]) (streams st))"
    by (intro ospec_mono [OF client_queue_record_room [OF st1(2) ok st1(3) r]])
      (auto simp: HOSTRECORDVECTORLEN_def streams_def st1)
  moreover have "client_queue_record e r st = client_queue_record e r st1"
    using False st st1(1) r by (subst client_queue_record.simps) (simp add: assert_addr_ok)
  ultimately show ?thesis by simp
qed

subsection \<open>Starting and stopping\<close>

text \<open>One empty queue per configured agent, as far as there is room.\<close>

definition new_queue :: "addrinfo list \<Rightarrow> client_queue" where
  "new_queue chain = \<lparr>cq_addr = hd chain, cq_head = [], cq_freed = False\<rparr>"

definition agents_ok :: "addrinfo_list \<Rightarrow> bool" where
  "agents_ok aglist \<longleftrightarrow> list_all (\<lambda>c. c \<noteq> [] \<and> ai_addr (hd c) \<noteq> []
     \<and> (ai_family (hd c) = AF_INET_NUM \<or> ai_family (hd c) = AF_INET6_NUM)) aglist"

lemma client_queue_init_ok:
  assumes "sys_ok e" and "ai_addr a \<noteq> []" and "ai_family a = AF_INET_NUM \<or> ai_family a = AF_INET6_NUM"
  shows "client_queue_init e 0 a = Ret \<lparr>cq_addr = a, cq_head = [], cq_freed = False\<rparr>"
  using assms by (auto simp: client_queue_init_def sys_ok_def c_assert_holds)

lemma client_start_loop:
  assumes ag: "agents_ok aglist" and es: "\<And>i. sys_ok (es i)" and N: "N = length qs0" "qs0 = replicate N None"
  shows "\<exists>res. c_for 0 N (\<lambda>i (qs, ptr). case ptr of
             [] \<Rightarrow> Ret (Inl (qs, ptr))
           | addr # rest \<Rightarrow> (case addr of
               [] \<Rightarrow> Undef
             | a # _ \<Rightarrow> obind (client_queue_init (es i) 0 a) (\<lambda>q.
                 obind (write_at qs i (Some q)) (\<lambda>qs'. Ret (Inr (qs', rest)))))) (qs0, aglist) = Ret res
    \<and> (\<exists>ptr qs. (res = Inl (qs, ptr) \<or> res = Inr (qs, ptr)) \<and>
        qs = map (\<lambda>c. Some (new_queue c)) (take N aglist) @ replicate (N - length aglist) None)"
proof -
  let ?qs = "\<lambda>i. map (\<lambda>c. Some (new_queue c)) (take i aglist) @ replicate (N - i) None"
  let ?I = "\<lambda>i (qs, ptr). ptr = drop i aglist \<and> i \<le> length aglist \<and> qs = ?qs i"
  let ?Q = "\<lambda>(qs, ptr). qs = map (\<lambda>c. Some (new_queue c)) (take N aglist) @ replicate (N - length aglist) None"
  let ?body = "(\<lambda>i (qs, ptr). case ptr of
             [] \<Rightarrow> Ret (Inl (qs, ptr))
           | addr # rest \<Rightarrow> (case addr of
               [] \<Rightarrow> Undef
             | a # _ \<Rightarrow> obind (client_queue_init (es i) 0 a) (\<lambda>q.
                 obind (write_at qs i (Some q)) (\<lambda>qs'. Ret (Inr (qs', rest))))))
    :: nat \<Rightarrow> client_queue option list \<times> addrinfo_list \<Rightarrow>
         ((client_queue option list \<times> addrinfo_list) + (client_queue option list \<times> addrinfo_list)) outcome"
  have "returns (c_for 0 N ?body (qs0, aglist)) (case_sum ?Q (?I N))"
  proof (rule c_for_rule [where I = ?I], goal_cases)
    case (3 i x)
    then obtain qs where x: "x = (qs, drop i aglist)" "i \<le> length aglist" "qs = ?qs i" by auto
    show ?case
    proof (cases "drop i aglist")
      case Nil
      with 3 x show ?thesis by simp
    next
      case (Cons c rest)
      then have i: "i < length aglist" "aglist ! i = c" "rest = drop (Suc i) aglist"
        by (metis drop_all list.distinct(1) not_le, metis nth_via_drop,
            metis list.sel(3) tl_drop drop_Suc)
      obtain a as where c: "c = a # as" "ai_addr a \<noteq> []" "ai_family a = AF_INET_NUM \<or> ai_family a = AF_INET6_NUM"
        using ag i(1,2) by (cases c) (auto simp: agents_ok_def list_all_length)
      have "N - i = Suc (N - Suc i)" using 3 by simp
      then have "(?qs i)[i := Some (new_queue c)] = ?qs (Suc i)"
        using i by (simp add: list_update_append take_Suc_conv_app_nth)
      with 3 x Cons i c show ?thesis
        by (simp add: client_queue_init_ok [OF es c(2,3)] new_queue_def)
    qed
  qed (use N in auto)
  then obtain res where "c_for 0 N ?body (qs0, aglist) = Ret res" "case_sum ?Q (?I N) res"
    unfolding returns_iff by blast
  then show ?thesis by (cases res) auto
qed

lemma client_start_spec:
  assumes ag: "agents_ok aglist" "aglist \<noteq> []" and es: "\<And>i. sys_ok (es i)"
  shows "returns (client_start nd es (\<lambda>_. 0) aglist st) (\<lambda>(rv, st'). rv = RETVAL_OK \<and> client_inv st' \<and> cl_started st'
     \<and> pending st' = [] \<and> active st' = map new_queue (take MAXCLIENTQUEUES aglist))"
proof -
  let ?qs = "map (\<lambda>c. Some (new_queue c)) (take MAXCLIENTQUEUES aglist) @ replicate (MAXCLIENTQUEUES - length aglist) None"
  let ?nulls = "replicate MAXCLIENTQUEUES None :: client_queue option list"
  have len: "MAXCLIENTQUEUES = length ?nulls" by simp
  obtain res ptr where loop: "c_for 0 MAXCLIENTQUEUES (\<lambda>i (qs, ptr). case ptr of
             [] \<Rightarrow> Ret (Inl (qs, ptr))
           | addr # rest \<Rightarrow> (case addr of
               [] \<Rightarrow> Undef
             | a # _ \<Rightarrow> obind (client_queue_init (es i) 0 a) (\<lambda>q.
                 obind (write_at qs i (Some q)) (\<lambda>qs'. Ret (Inr (qs', rest)))))) (?nulls, aglist) = Ret res"
      "res = Inl (?qs, ptr) \<or> res = Inr (?qs, ptr)"
    using client_start_loop [of aglist es, OF ag(1) es len refl] by blast
  let ?st = "st\<lparr>cl_queues := ?qs, cl_temp := replicate HOSTRECORDVECTORLEN None, cl_fill := 0, cl_temp_freed := False, cl_started := True\<rparr>"
  have eq: "client_start nd es (\<lambda>_. 0) aglist st = Ret (RETVAL_OK, ?st)"
    using loop ag(2) by (auto simp: client_start_def Let_def)
  have tw: "takeWhile (\<lambda>p. p \<noteq> None) (map (\<lambda>c. Some (g c)) xs @ replicate k None) = map (\<lambda>c. Some (g c)) xs"
    for g :: "addrinfo list \<Rightarrow> client_queue" and xs k by (induction xs) (auto simp: takeWhile_eq_Nil_iff)
  have act: "active ?st = map new_queue (take MAXCLIENTQUEUES aglist)"
    unfolding active_def by (simp add: tw [of new_queue] comp_def del: not_None_eq)
  have pend: "pending ?st = []" by (simp add: pending_def takeWhile_eq_Nil_iff HOSTRECORDVECTORLEN_def)
  from act pend have "client_inv ?st" by (auto simp: client_inv_def new_queue_def)
  with eq act pend show ?thesis by simp
qed

text \<open>
  Stopping: every queue is emptied and destroyed, and nothing more is taken. That it returns at all means that
  neither a queue nor the vector had been freed before.
\<close>

definition destroyed :: "client_queue \<Rightarrow> client_queue" where
  "destroyed q = q\<lparr>cq_head := [], cq_freed := True\<rparr>"

definition client_live :: "client_st \<Rightarrow> bool" where
  "client_live st \<longleftrightarrow> (\<forall>q \<in> set (active st). \<not> cq_freed q) \<and> (cl_temp_freed st \<longrightarrow> cl_fill st = 0)"

lemma client_inv_live: "client_inv st \<Longrightarrow> cl_started st \<Longrightarrow> client_live st"
  by (simp add: client_inv_def client_live_def)

lemma client_queue_destroy_Ret: "client_queue_destroy q = (if cq_freed q then Undef else Ret (RETVAL_OK, destroyed q))"
  by (simp add: client_queue_destroy_def client_queue_worker_cleanup_def destroyed_def)

lemma stop_queues_Ret:
  assumes "c_for i (length v) stop_queue w = Ret res" and "length w = length v" and "\<And>j. i \<le> j \<Longrightarrow> w ! j = v ! j"
    and "\<forall>j < i. v ! j \<noteq> None" and "i \<le> j" "j < length (takeWhile (\<lambda>p. p \<noteq> None) v)"
  shows "\<not> cq_freed (the (v ! j))"
  using assms
proof (induction "length v - i" arbitrary: i w)
  case 0
  have "length (takeWhile (\<lambda>p. p \<noteq> None) v) \<le> length v" by (rule length_takeWhile_le)
  with 0 show ?case by simp
next
  case (Suc n)
  then have i: "i < length v" "n = length v - Suc i" by simp_all
  have "v ! i \<noteq> None"
    using Suc.prems(5,6) by (metis (mono_tags, lifting) le_less_trans nth_mem set_takeWhileD takeWhile_nth)
  then obtain q where q: "v ! i = Some q" "w ! i = Some q" using Suc.prems(3) by auto
  have live: "\<not> cq_freed q"
    using Suc.prems(1,2) i q by (auto simp: c_for_step stop_queue_def client_queue_destroy_Ret)
  then have rest: "c_for (Suc i) (length v) stop_queue (w[i := Some (destroyed q)]) = Ret res"
    using Suc.prems(1,2) i q by (simp add: c_for_step stop_queue_def client_queue_destroy_Ret)
  show ?case
  proof (cases "j = i")
    case True
    with live q show ?thesis by simp
  next
    case False
    then have "Suc i \<le> j" using Suc.prems(5) by simp
    with Suc.hyps(1) [OF i(2) rest] Suc.prems(2-6) q(1) show ?thesis by (auto simp: less_Suc_eq)
  qed
qed

lemma client_stop_live:
  assumes "client_stop st = Ret r" and "client_inv st"
  shows "client_live st"
proof -
  obtain res where res: "c_for 0 (length (cl_queues st)) stop_queue (cl_queues st) = Ret res"
    using assms by (auto simp: client_stop_def obind_eq_Ret client_inv_def)
  have "\<not> cq_freed q" if q: "q \<in> set (active st)" for q
  proof -
    obtain j where "j < length (active st)" "active st ! j = q" using q by (auto simp: in_set_conv_nth)
    then have j: "j < length (takeWhile (\<lambda>p. p \<noteq> None) (cl_queues st))" "q = active st ! j" by (simp_all add: active_def)
    from j(2) have "q = the (cl_queues st ! j)" using j(1) by (simp add: active_def takeWhile_nth)
    with stop_queues_Ret [OF res refl _ _ _ j(1)] show ?thesis by simp
  qed
  moreover have "cl_temp_freed st \<longrightarrow> cl_fill st = 0"
    using assms(1) by (auto simp: client_stop_def stop_vector_def obind_eq_Ret split: if_splits)
  ultimately show ?thesis by (simp add: client_live_def)
qed

lemma client_stop_spec:
  assumes inv: "client_inv st" and live: "client_live st"
  shows "returns (client_stop st) (\<lambda>(rv, st'). rv = RETVAL_OK \<and> client_inv st' \<and> \<not> cl_started st'
    \<and> active st' = map destroyed (active st) \<and> pending st' = pending st)"
proof -
  let ?f = destroyed
  have len: "length (cl_queues st) = MAXCLIENTQUEUES" using inv by (simp add: client_inv_def)
  obtain res w where loop: "c_for 0 (length (cl_queues st)) stop_queue (cl_queues st) = Ret res" "res = Inl w \<or> res = Inr w"
      "w = map (\<lambda>p. Some (?f (the p))) (takeWhile (\<lambda>p. p \<noteq> None) (cl_queues st)) @ dropWhile (\<lambda>p. p \<noteq> None) (cl_queues st)"
    using c_for_prefix [of "cl_queues st" stop_queue ?f, folded active_def] live
    by (auto simp: stop_queue_def client_queue_destroy_Ret client_live_def simp del: set_map)
  let ?st = "st\<lparr>cl_queues := w, cl_temp_freed := True, cl_started := False\<rparr>"
  have act: "active ?st = map ?f (active st)"
    unfolding active_def by (simp add: loop(3) takeWhile_mapped_prefix [of ?f] comp_def del: not_None_eq)
  have pend: "pending ?st = pending st" by (simp add: pending_def)
  have "length (takeWhile P v) + length (dropWhile P v) = length v" for P and v :: "client_queue option list"
    by (metis length_append takeWhile_dropWhile_id)
  then have "length w = MAXCLIENTQUEUES" using len loop(3) by simp
  with act pend inv have "client_inv ?st"
    unfolding client_inv_def act pend by (simp add: destroyed_def)
  moreover have "client_stop st = Ret (RETVAL_OK, ?st)"
    using loop(1,2) len live by (auto simp: client_stop_def stop_vector_def client_live_def)
  ultimately show ?thesis using act pend by simp
qed

subsection \<open>The contract the action thread relies on\<close>

fun run_records :: "('e \<Rightarrow> hostrecord \<Rightarrow> 'st \<Rightarrow> (int \<times> 'st) outcome) \<Rightarrow> ('e \<times> hostrecord) list \<Rightarrow> 'st \<Rightarrow> 'st outcome" where
  "run_records f [] st = Ret st"
| "run_records f ((e, r) # rs) st = obind (f e r st) (\<lambda>(rv, st'). run_records f rs st')"

locale record_distributor =
  fixes inv :: "'st \<Rightarrow> bool"
    and strm :: "'st \<Rightarrow> hostrecord list list"
    and collect :: "'e \<Rightarrow> hostrecord \<Rightarrow> 'st \<Rightarrow> (int \<times> 'st) outcome"
    and flush :: "'e \<Rightarrow> 'st \<Rightarrow> (int \<times> 'st) outcome"
    and env_ok :: "'e \<Rightarrow> bool"
  assumes collect_law: "inv st \<Longrightarrow> env_ok e \<Longrightarrow> sendable r \<Longrightarrow>
        returns (collect e r st) (\<lambda>(rv, st'). rv = RETVAL_OK \<and> inv st' \<and> strm st' = map (\<lambda>s. s @ [r]) (strm st))"
    and flush_law: "inv st \<Longrightarrow> env_ok e \<Longrightarrow>
        returns (flush e st) (\<lambda>(rv, st'). rv = RETVAL_OK \<and> inv st' \<and> strm st' = strm st)"
begin

text \<open>Any number of records reaches every stream, in order and without loss.\<close>

lemma collect_all:
  assumes "inv st" and "\<forall>(e, r) \<in> set rs. env_ok e \<and> sendable r"
  shows "returns (run_records collect rs st) (\<lambda>st'. inv st' \<and> strm st' = map (\<lambda>s. s @ map snd rs) (strm st))"
  using assms
proof (induction rs arbitrary: st)
  case Nil
  then show ?case by simp
next
  case (Cons x rs)
  obtain e r where x: "x = (e, r)" by (cases x)
  obtain st1 where st1: "collect e r st = Ret (RETVAL_OK, st1)" "inv st1" "strm st1 = map (\<lambda>s. s @ [r]) (strm st)"
    using collect_law [of st e r] Cons.prems x by (auto simp: returns_iff)
  have "returns (run_records collect rs st1) (\<lambda>st'. inv st' \<and> strm st' = map (\<lambda>s. s @ map snd rs) (strm st1))"
    by (rule Cons.IH [OF st1(2)]) (use Cons.prems in auto)
  with x st1 show ?case by (simp add: comp_def)
qed

end

interpretation cd: record_distributor "\<lambda>st. client_inv st \<and> cl_started st" streams
  client_queue_record client_queue_flush client_env_ok
proof (unfold_locales, goal_cases)
  case (1 st e r)
  then show ?case using client_queue_record_spec [of st e r] by simp
next
  case (2 st e)
  then show ?case
    by (intro ospec_mono [OF client_queue_flush_spec [of st e]]) (auto simp: streams_def)
qed

subsection \<open>Properties\<close>

definition calm_client :: client_env where
  "calm_client = \<lparr>ce_ndebug = False, ce_mem = True, ce_append = (\<lambda>_. calm_append)\<rparr>"

definition demo_client :: client_st where
  "demo_client = \<lparr>cl_started = True, cl_queues = Some demo_queue # replicate 255 None,
     cl_temp = replicate 25 None, cl_fill = 0, cl_temp_freed = False\<rparr>"

lemma calm_client_ok [simp]: "client_env_ok calm_client"
  by (simp add: calm_client_def client_env_ok_def)

lemma demo_client_inv [simp]: "client_inv demo_client" "cl_started demo_client" "streams demo_client = [[demo_host]]"
  by (simp_all add: demo_client_def client_inv_def pending_def active_def streams_def demo_queue_def MAXCLIENTQUEUES_def
      HOSTRECORDVECTORLEN_def takeWhile_eq_Nil_iff)

text \<open>
  C27. Recording any number of host records, with the flushes \<^verbatim>\<open>client_queue_record\<close> forces when its vector
  is full, adds exactly these records, in order, to what every agent is still to receive; and a flush by
  itself neither adds nor loses anything.
\<close>

theorem client_records_reach_all:
  assumes "client_inv st" and "cl_started st" and "\<forall>(e, r) \<in> set rs. client_env_ok e \<and> sendable r" and "client_env_ok e'"
  shows "returns (run_records client_queue_record rs st) (\<lambda>st'. client_inv st' \<and>
    streams st' = map (\<lambda>s. s @ map snd rs) (streams st) \<and>
    returns (client_queue_flush e' st') (\<lambda>(rv, st''). rv = RETVAL_OK \<and> client_inv st'' \<and> pending st'' = [] \<and> streams st'' = streams st'))"
proof -
  have inv: "client_inv st \<and> cl_started st" using assms by simp
  show ?thesis
  proof (rule ospec_mono [OF cd.collect_all [OF inv assms(3)]], goal_cases)
    case (1 st')
    then have "returns (client_queue_flush e' st') (\<lambda>(rv, st''). rv = RETVAL_OK \<and> client_inv st'' \<and> pending st'' = [] \<and> streams st'' = streams st')"
      by (intro ospec_mono [OF client_queue_flush_spec [of st' e']]) (use assms(4) in \<open>auto simp: streams_def comp_def\<close>)
    with 1 show ?case by simp
  qed simp
qed

theorem client_records_reach_all_witness:
  "returns (run_records client_queue_record (replicate 30 (calm_client, demo_host)) demo_client) (\<lambda>st'.
     streams st' = [replicate 31 demo_host])"
  by (rule ospec_mono [OF client_records_reach_all [of demo_client "replicate 30 (calm_client, demo_host)" calm_client]])
    (auto simp: map_replicate_const simp flip: replicate_Suc)

text \<open>
  \<^verbatim>\<open>client_start\<close> creates one empty queue for each of the first \<^verbatim>\<open>MAXCLIENTQUEUES\<close> agents, in order, each
  with the first address found for the agent, and forgets whatever was collected before.
\<close>

theorem client_start_queues:
  assumes "agents_ok aglist" and "aglist \<noteq> []" and "\<And>i. sys_ok (es i)"
  shows "returns (client_start nd es (\<lambda>_. 0) aglist st) (\<lambda>(rv, st'). rv = RETVAL_OK \<and> client_inv st' \<and> cl_started st'
     \<and> pending st' = [] \<and> active st' = map new_queue (take MAXCLIENTQUEUES aglist))"
  using assms by (rule client_start_spec)

theorem client_start_queues_witness:
  "returns (client_start False (\<lambda>_. calm_env) (\<lambda>_. 0) [[demo_addrinfo]] client_init_st) (\<lambda>(rv, st'). rv = RETVAL_OK
     \<and> active st' = [\<lparr>cq_addr = demo_addrinfo, cq_head = [], cq_freed = False\<rparr>])"
  by (rule ospec_mono [OF client_start_queues [of "[[demo_addrinfo]]" "\<lambda>_. calm_env" False client_init_st]])
    (auto simp: agents_ok_def demo_addrinfo_def new_queue_def MAXCLIENTQUEUES_def)

end
