(* ===== verification/Actions.thy ===== *)
theory Actions
  imports Client
begin

section \<open>The action and maintenance threads (threads.c) and the signal callbacks (sighandler.c)\<close>

text \<open>
  The callbacks that run the action script, the bodies of the two endless loops (one pass each) and
  the callback of \<^verbatim>\<open>SIGUSR2\<close>. The state \<open>action_st\<close> is the client state plus the commands handed to
  \<^verbatim>\<open>system\<close>, each with the record it is about. \<open>action_env\<close> has what the system answers during one
  pass; \<^verbatim>\<open>time(NULL)\<close> is read once per pass. The lemmas give the exact commands of a pass, which
  records it marks, and what it relays.
\<close>

subsection \<open>Data\<close>

datatype ac_type = AC_NEW | AC_REMOVE

definition ACTION_BUFFER_SIZE :: nat where "ACTION_BUFFER_SIZE = 2048"

definition AC_TYPE_NEW_STR :: string where "AC_TYPE_NEW_STR = ''new''"
definition AC_TYPE_REMOVE_STR :: string where "AC_TYPE_REMOVE_STR = ''remove''"

record action_event =
  ev_type :: ac_type
  ev_ip :: string
  ev_command :: string

record action_st =
  as_client :: client_st
  as_log :: "action_event list"

record action_env =
  act_sys :: sysenv
  act_access :: int
  act_client :: client_env

text \<open>\<^verbatim>\<open>snprintf(action, ACTION_BUFFER_SIZE, ''%s %s %i %s %s'', ...)\<close>.\<close>

definition action_command :: "string \<Rightarrow> string \<Rightarrow> i32 \<Rightarrow> string \<Rightarrow> string \<Rightarrow> string" where
  "action_command act ip occ ty origin =
     take (ACTION_BUFFER_SIZE - 1) (act @ '' '' @ ip @ '' '' @ show_i32 occ @ '' '' @ ty @ '' '' @ origin)"

subsection \<open>Running the action\<close>

text \<open>The part of \<^verbatim>\<open>_do_action\<close> that relays a new local record to the other agents.\<close>

definition relay_new :: "action_env \<Rightarrow> config \<Rightarrow> hostrecord \<Rightarrow> client_st \<Rightarrow> client_st outcome" where
  "relay_new e CONFIG ptr cl =
     (if cfg_inform CONFIG = 1 \<and> cfg_inform_agents CONFIG \<noteq> []
      then obind (strcmp_eq (hr_origin ptr) (bytes_of LOCALHOST)) (\<lambda>eq.
             if \<not> eq then Ret cl
             else assert_addr (ndebug (act_sys e)) (hr_ipaddr ptr)
                    (obind (client_queue_record (act_client e) ptr cl) (\<lambda>(rv, cl'). Ret cl')))
      else Ret cl)"

definition do_action :: "action_env \<Rightarrow> config \<Rightarrow> ac_type \<Rightarrow> hostrecord \<Rightarrow> action_st \<Rightarrow> action_st outcome" where
  "do_action e CONFIG t ptr s =
     obind (c_string (cfg_action CONFIG)) (\<lambda>act.
      if act_access e = -1 then Ret s
      else
        obind (case t of AC_NEW \<Rightarrow> relay_new e CONFIG ptr (as_client s) | AC_REMOVE \<Rightarrow> Ret (as_client s)) (\<lambda>cl.
          if \<not> buf_ok (act_sys e) then Undef
          else
            obind (c_string (hr_ipaddr ptr)) (\<lambda>ip.
            obind (c_string (hr_origin ptr)) (\<lambda>origin.
              let type_str = (case t of AC_NEW \<Rightarrow> AC_TYPE_NEW_STR | AC_REMOVE \<Rightarrow> AC_TYPE_REMOVE_STR);
                  action = action_command act ip (hr_occurrences ptr) type_str origin
              in Ret (s\<lparr>as_client := cl,
                        as_log := as_log s @ [\<lparr>ev_type = t, ev_ip = ip, ev_command = action\<rparr>]\<rparr>)))))"

text \<open>\<^verbatim>\<open>_records_callback_action_new\<close>.\<close>

definition records_callback_action_new :: "action_env \<Rightarrow> config \<Rightarrow> action_st records_enum_callback" where
  "records_callback_action_new e CONFIG ptr s =
     (if hr_action_threshold ptr <=s hr_occurrences ptr \<and> hr_processed ptr = 0
      then obind (do_action e CONFIG AC_NEW ptr s) (\<lambda>s'. Ret (0, ptr\<lparr>hr_processed := 1\<rparr>, s'))
      else if hr_lastseen ptr = 0
      then (if hr_purge_after ptr <s now (act_sys e) - hr_firstseen ptr
            then Ret (0, ptr\<lparr>hr_remove := 1\<rparr>, s) else Ret (0, ptr, s))
      else (if hr_purge_after ptr <s now (act_sys e) - hr_lastseen ptr
            then Ret (0, ptr\<lparr>hr_remove := 1\<rparr>, s) else Ret (0, ptr, s)))"

text \<open>One pass of \<^verbatim>\<open>action_thread\<close>: enumerate, then flush what was collected for the other agents.\<close>

definition action_thread_pass ::
  "action_env \<Rightarrow> config \<Rightarrow> records_st \<times> action_st \<Rightarrow> (records_st \<times> action_st) outcome" where
  "action_thread_pass e CONFIG sts =
     obind (records_enumerate (act_sys e) (records_callback_action_new e CONFIG) SYNC sts) (\<lambda>(rv, thread, st, s).
       if cfg_inform CONFIG = 1 \<and> cfg_inform_agents CONFIG \<noteq> []
       then obind (client_queue_flush (act_client e) (as_client s)) (\<lambda>(rv', cl). Ret (st, s\<lparr>as_client := cl\<rparr>))
       else Ret (st, s))"

definition threads_records_callback_action_removal :: "action_env \<Rightarrow> config \<Rightarrow> action_st records_remove_callback" where
  "threads_records_callback_action_removal e CONFIG ptr s =
     (if hr_processed ptr \<noteq> 0 then do_action e CONFIG AC_REMOVE ptr s else Ret s)"

text \<open>One pass of \<^verbatim>\<open>maintenance_thread\<close>.\<close>

definition maintenance_thread_pass ::
  "action_env \<Rightarrow> config \<Rightarrow> records_st \<times> action_st \<Rightarrow> (records_st \<times> action_st) outcome" where
  "maintenance_thread_pass e CONFIG sts =
     obind (records_maintenance (act_sys e) (Some (threads_records_callback_action_removal e CONFIG)) sts)
       (\<lambda>(rv, sts'). Ret sts')"

text \<open>The callback behind \<^verbatim>\<open>SIGUSR2\<close>.\<close>

definition records_callback_remove_all :: "'s records_enum_callback" where
  "records_callback_remove_all ptr s = Ret (0, ptr\<lparr>hr_remove := 1\<rparr>, s)"

subsection \<open>What a pass does\<close>

definition due :: "hostrecord \<Rightarrow> bool" where
  "due r \<longleftrightarrow> hr_action_threshold r <=s hr_occurrences r \<and> hr_processed r = 0"

definition stale :: "i64 \<Rightarrow> hostrecord \<Rightarrow> bool" where
  "stale t r \<longleftrightarrow> hr_purge_after r <s t - (if hr_lastseen r = 0 then hr_firstseen r else hr_lastseen r)"

definition acted :: "i64 \<Rightarrow> hostrecord \<Rightarrow> hostrecord" where
  "acted t r = (if due r then r\<lparr>hr_processed := 1\<rparr> else if stale t r then r\<lparr>hr_remove := 1\<rparr> else r)"

definition relayed :: "config \<Rightarrow> hostrecord \<Rightarrow> bool" where
  "relayed CONFIG r \<longleftrightarrow> cfg_inform CONFIG = 1 \<and> cfg_inform_agents CONFIG \<noteq> [] \<and> cstr (hr_origin r) = LOCALHOST"

definition event_of :: "config \<Rightarrow> ac_type \<Rightarrow> hostrecord \<Rightarrow> action_event" where
  "event_of CONFIG t r = \<lparr>ev_type = t, ev_ip = ip_of r, ev_command = action_command (cstr (cfg_action CONFIG)) (ip_of r)
     (hr_occurrences r) (case t of AC_NEW \<Rightarrow> AC_TYPE_NEW_STR | AC_REMOVE \<Rightarrow> AC_TYPE_REMOVE_STR) (cstr (hr_origin r))\<rparr>"

text \<open>The conditions under which a pass runs undisturbed.\<close>

definition action_ok :: "action_env \<Rightarrow> config \<Rightarrow> bool" where
  "action_ok e CONFIG \<longleftrightarrow> sys_ok (act_sys e) \<and> act_access e = 0 \<and> client_env_ok (act_client e)
     \<and> terminated (cfg_action CONFIG)"

text \<open>
  The client may be running or not: \<^verbatim>\<open>main\<close> starts it after the threads and stops it before them. Only a
  running client takes what is relayed.
\<close>

definition action_inv :: "action_st \<Rightarrow> bool" where
  "action_inv s \<longleftrightarrow> client_inv (as_client s)"

definition relay_streams :: "config \<Rightarrow> action_st \<Rightarrow> hostrecord list \<Rightarrow> hostrecord list list" where
  "relay_streams CONFIG s rs =
     (if cl_started (as_client s) then map (\<lambda>l. l @ filter (relayed CONFIG) rs) (streams (as_client s)) else streams (as_client s))"

lemma localhost_cstr: "is_cstring LOCALHOST" "cstr (bytes_of LOCALHOST) = LOCALHOST"
  by (simp_all add: LOCALHOST_def is_cstring_def)

lemma do_action_remove:
  assumes ok: "action_ok e CONFIG" and r: "wf_hostrecord r"
  shows "do_action e CONFIG AC_REMOVE r s = Ret (s\<lparr>as_log := as_log s @ [event_of CONFIG AC_REMOVE r]\<rparr>)"
  using assms
  by (simp add: do_action_def action_ok_def sys_ok_def c_string_def wf_hostrecord_def event_of_def ip_of_def Let_def)

lemma do_action_new:
  assumes ok: "action_ok e CONFIG" and r: "wf_hostrecord r" "relayed CONFIG r \<longrightarrow> sendable r" and s: "action_inv s"
  shows "returns (do_action e CONFIG AC_NEW r s) (\<lambda>s'. action_inv s'
    \<and> as_log s' = as_log s @ [event_of CONFIG AC_NEW r]
    \<and> cl_started (as_client s') = cl_started (as_client s) \<and> streams (as_client s') = relay_streams CONFIG s [r])"
proof -
  have e: "act_access e \<noteq> -1" "buf_ok (act_sys e)" "client_env_ok (act_client e)" "terminated (cfg_action CONFIG)"
    using ok by (auto simp: action_ok_def sys_ok_def)
  have cmp: "strcmp_eq (hr_origin r) (bytes_of LOCALHOST) = Ret (cstr (hr_origin r) = LOCALHOST)"
    using r(1) localhost_cstr by (simp add: strcmp_eq_terminated wf_hostrecord_def)
  have rel: "returns (relay_new e CONFIG r (as_client s)) (\<lambda>cl. client_inv cl \<and> cl_started cl = cl_started (as_client s)
    \<and> streams cl = relay_streams CONFIG s [r])"
  proof (cases "relayed CONFIG r")
    case True
    then have st: "client_inv (as_client s)" "sendable r" using s r(2) by (auto simp: action_inv_def)
    show ?thesis
    proof (cases "cl_started (as_client s)")
      case run: True
      with True cmp show ?thesis
        using client_queue_record_spec [OF st(1) e(3) run st(2)]
        by (auto simp: relay_new_def relayed_def relay_streams_def assert_addr_ok [OF st(2)] ospec_obind elim!: ospec_mono)
    next
      case False
      then have "client_queue_record (act_client e) r (as_client s) = Ret (RETVAL_ERR, as_client s)"
        by (subst client_queue_record.simps) (simp add: assert_addr_ok [OF st(2)])
      with False True cmp st(1) show ?thesis
        by (auto simp: relay_new_def relayed_def relay_streams_def assert_addr_ok [OF st(2)])
    qed
  next
    case False
    with cmp s show ?thesis by (auto simp: relay_new_def relayed_def relay_streams_def action_inv_def)
  qed
  then obtain cl where cl: "relay_new e CONFIG r (as_client s) = Ret cl" "client_inv cl" "cl_started cl = cl_started (as_client s)"
      "streams cl = relay_streams CONFIG s [r]"
    unfolding returns_iff by blast
  from e r(1) cl show ?thesis
    by (simp add: do_action_def c_string_def wf_hostrecord_def event_of_def ip_of_def Let_def action_inv_def)
qed

text \<open>The records a pass can handle: what is relayed has an address the client accepts.\<close>

definition actionable :: "config \<Rightarrow> hostrecord \<Rightarrow> bool" where
  "actionable CONFIG r \<longleftrightarrow> (relayed CONFIG r \<longrightarrow> length (ip_of r) > 2)"

definition callback_st :: "action_env \<Rightarrow> config \<Rightarrow> hostrecord \<Rightarrow> action_st \<Rightarrow> action_st" where
  "callback_st e CONFIG r s = (case records_callback_action_new e CONFIG r s of Ret (rv, r', s') \<Rightarrow> s' | _ \<Rightarrow> s)"

lemma acted_keeps [simp]: "wf_hostrecord (acted t r) = wf_hostrecord r" "ip_of (acted t r) = ip_of r"
  by (simp_all add: acted_def wf_hostrecord_def ip_of_def)

lemma callback_action_new_all:
  assumes ok: "action_ok e CONFIG" and r: "wf_hostrecord r" "actionable CONFIG r" and s: "action_inv s"
  shows "records_callback_action_new e CONFIG r s = Ret (0, acted (now (act_sys e)) r, callback_st e CONFIG r s)
    \<and> action_inv (callback_st e CONFIG r s)
    \<and> as_log (callback_st e CONFIG r s) = as_log s @ (if due r then [event_of CONFIG AC_NEW r] else [])
    \<and> cl_started (as_client (callback_st e CONFIG r s)) = cl_started (as_client s)
    \<and> streams (as_client (callback_st e CONFIG r s)) = relay_streams CONFIG s (if due r then [r] else [])"
proof (cases "due r")
  case True
  have "relayed CONFIG r \<longrightarrow> sendable r" using r by (simp add: actionable_def sendable_def)
  then obtain s' where "do_action e CONFIG AC_NEW r s = Ret s'" "action_inv s'"
      "as_log s' = as_log s @ [event_of CONFIG AC_NEW r]" "cl_started (as_client s') = cl_started (as_client s)"
      "streams (as_client s') = relay_streams CONFIG s [r]"
    using do_action_new [OF ok r(1) _ s] unfolding returns_iff by blast
  with True show ?thesis
    by (simp add: records_callback_action_new_def callback_st_def acted_def due_def)
next
  case False
  with s show ?thesis
    by (auto simp: records_callback_action_new_def callback_st_def acted_def due_def stale_def relay_streams_def)
qed

lemmas callback_action_new_spec =
  callback_action_new_all [THEN conjunct1]
  callback_action_new_all [THEN conjunct2, THEN conjunct1]
  callback_action_new_all [THEN conjunct2, THEN conjunct2, THEN conjunct1]
  callback_action_new_all [THEN conjunct2, THEN conjunct2, THEN conjunct2, THEN conjunct1]
  callback_action_new_all [THEN conjunct2, THEN conjunct2, THEN conjunct2, THEN conjunct2]

lemma callback_fold:
  assumes "action_ok e CONFIG" and "\<forall>r \<in> set rs. wf_hostrecord r \<and> actionable CONFIG r" and "action_inv s"
  shows "action_inv (fold (callback_st e CONFIG) rs s)
    \<and> as_log (fold (callback_st e CONFIG) rs s) = as_log s @ map (event_of CONFIG AC_NEW) (filter due rs)
    \<and> cl_started (as_client (fold (callback_st e CONFIG) rs s)) = cl_started (as_client s)
    \<and> streams (as_client (fold (callback_st e CONFIG) rs s)) = relay_streams CONFIG s (filter due rs)"
  using assms(2,3)
proof (induction rs arbitrary: s)
  case Nil
  then show ?case by (simp add: relay_streams_def)
next
  case (Cons r rs)
  then have r: "wf_hostrecord r" "actionable CONFIG r" by auto
  note c = callback_action_new_spec [OF assms(1) r Cons.prems(2)]
  from Cons.IH [OF _ c(2)] Cons.prems c(3-5) show ?case by (auto simp: comp_def relay_streams_def)
qed

text \<open>A flush returns whether the client runs or not, and loses nothing.\<close>

lemma flush_returns:
  assumes "client_inv cl" and "client_env_ok e"
  shows "returns (client_queue_flush e cl) (\<lambda>(rv, c). rv = RETVAL_OK \<and> client_inv c
    \<and> cl_started c = cl_started cl \<and> streams c = streams cl \<and> (cl_started cl \<longrightarrow> pending c = []))"
proof (cases "cl_started cl")
  case True
  then show ?thesis
    by (intro ospec_mono [OF client_queue_flush_spec [OF assms]]) (auto simp: streams_def)
next
  case False
  then show ?thesis using assms(1) by (simp add: client_queue_flush_def client_inv_def)
qed

text \<open>
  One pass of the action thread: every due record gets its command once, in slot order, and is marked;
  stale ones are marked for removal; what is new and local joins the stream of every agent.
\<close>

lemma action_thread_pass_spec:
  assumes inv: "records_inv st" and ok: "action_ok e CONFIG" and s: "action_inv s"
    and act: "\<And>r. Some r \<in> set (hr_vector st) \<Longrightarrow> actionable CONFIG r"
  shows "returns (action_thread_pass e CONFIG (st, s)) (\<lambda>(st', s'). records_inv st' \<and> action_inv s'
    \<and> records_map st' = (\<lambda>ip. map_option (acted (now (act_sys e))) (records_map st ip))
    \<and> somes (hr_vector st') = map (acted (now (act_sys e))) (somes (hr_vector st))
    \<and> as_log s' = as_log s @ map (event_of CONFIG AC_NEW) (filter due (somes (hr_vector st)))
    \<and> cl_started (as_client s') = cl_started (as_client s)
    \<and> streams (as_client s') = relay_streams CONFIG s (filter due (somes (hr_vector st)))
    \<and> (cl_started (as_client s) \<and> cfg_inform CONFIG = 1 \<and> cfg_inform_agents CONFIG \<noteq> [] \<longrightarrow> pending (as_client s') = []))"
proof -
  let ?rs = "somes (hr_vector st)"
  let ?s = "fold (callback_st e CONFIG) ?rs s"
  have sys: "sys_ok (act_sys e)" "client_env_ok (act_client e)" using ok by (auto simp: action_ok_def)
  have cb: "cb_ok (actionable CONFIG) action_inv (records_callback_action_new e CONFIG)
      (acted (now (act_sys e))) (callback_st e CONFIG)"
    using callback_action_new_spec [OF ok] by (simp add: cb_ok_def)
  obtain st' where en: "records_enumerate_sync (act_sys e) (records_callback_action_new e CONFIG) (st, s) = Ret (RETVAL_OK, st', ?s)"
      "records_inv st'" "records_map st' = (\<lambda>ip. map_option (acted (now (act_sys e))) (records_map st ip))"
      "somes (hr_vector st') = map (acted (now (act_sys e))) ?rs"
    using records_enumerate_sync_spec [OF inv cb act s sys(1)] by blast
  have "\<forall>r \<in> set ?rs. wf_hostrecord r \<and> actionable CONFIG r"
    using records_invD(5) [OF inv] act by (auto simp: set_somes)
  note f = callback_fold [OF ok this s]
  have "client_inv (as_client ?s)" using f by (simp add: action_inv_def)
  from flush_returns [OF this sys(2)]
  obtain c where c: "client_queue_flush (act_client e) (as_client ?s) = Ret (RETVAL_OK, c)" "client_inv c"
      "cl_started c = cl_started (as_client ?s)" "streams c = streams (as_client ?s)"
      "cl_started (as_client ?s) \<longrightarrow> pending c = []"
    unfolding returns_iff by auto
  with en f records_invD(1) [OF inv] show ?thesis
    by (auto simp: action_thread_pass_def records_enumerate_def c_assert_holds action_inv_def)
qed

text \<open>One pass of the maintenance thread: marked records go, processed ones with a removal command.\<close>

definition removal_st :: "config \<Rightarrow> hostrecord \<Rightarrow> action_st \<Rightarrow> action_st" where
  "removal_st CONFIG r s = (if hr_processed r \<noteq> 0 then s\<lparr>as_log := as_log s @ [event_of CONFIG AC_REMOVE r]\<rparr> else s)"

lemma removal_fold: "fold (removal_st CONFIG) rs s =
    s\<lparr>as_log := as_log s @ map (event_of CONFIG AC_REMOVE) (filter (\<lambda>r. hr_processed r \<noteq> 0) rs)\<rparr>"
  by (induction rs arbitrary: s) (simp_all add: removal_st_def)

lemma removal_rm_ok: "action_ok e CONFIG \<Longrightarrow>
    rm_ok (\<lambda>_. True) (Some (threads_records_callback_action_removal e CONFIG)) (removal_st CONFIG)"
  by (simp add: rm_ok_def threads_records_callback_action_removal_def removal_st_def do_action_remove)

lemma maintenance_thread_pass_spec:
  assumes inv: "records_inv st" and ok: "action_ok e CONFIG"
  shows "returns (maintenance_thread_pass e CONFIG (st, s)) (\<lambda>(st', s'). maintained st st' \<and>
    s' = s\<lparr>as_log := as_log s @ map (event_of CONFIG AC_REMOVE)
       (filter (\<lambda>r. hr_remove r \<noteq> 0 \<and> hr_processed r \<noteq> 0) (somes (hr_vector st)))\<rparr>)"
proof -
  have sys: "realloc_ok (act_sys e)" "lock_rv (act_sys e) = 0" using ok by (auto simp: action_ok_def sys_ok_def)
  have eq: "filter (\<lambda>r. hr_processed r \<noteq> 0) (filter (\<lambda>r. hr_remove r \<noteq> 0) rs) =
      filter (\<lambda>r. hr_remove r \<noteq> 0 \<and> hr_processed r \<noteq> 0) rs" for rs by simp
  show ?thesis
    unfolding maintenance_thread_pass_def ospec_obind
    by (rule ospec_mono [OF records_maintenance_spec [OF inv removal_rm_ok [OF ok], where s = s and e = "act_sys e"]])
      (use sys in \<open>auto simp: removal_fold eq\<close>)
qed

text \<open>\<^verbatim>\<open>SIGUSR2\<close>: the thread marks every record.\<close>

lemma remove_all_spec:
  assumes inv: "records_inv st" and ok: "sys_ok e"
  shows "returns (records_enumerate_thread e records_callback_remove_all (st, s)) (\<lambda>(st', s'). s' = s \<and> records_inv st'
    \<and> records_map st' = (\<lambda>ip. map_option (\<lambda>r. r\<lparr>hr_remove := 1\<rparr>) (records_map st ip))
    \<and> somes (hr_vector st') = map (\<lambda>r. r\<lparr>hr_remove := 1\<rparr>) (somes (hr_vector st)))"
proof -
  have cb: "cb_ok (\<lambda>_. True) (\<lambda>_. True) records_callback_remove_all (\<lambda>r. r\<lparr>hr_remove := 1\<rparr>) (\<lambda>r s. s)"
    by (simp add: cb_ok_def records_callback_remove_all_def wf_hostrecord_def ip_of_def)
  have "fold (\<lambda>r s. s) rs s = s" for rs :: "hostrecord list" by (induction rs) auto
  with records_enumerate_sync_spec [OF inv cb, where s = s and e = e] ok show ?thesis
    by (auto simp: records_enumerate_thread_def)
qed

subsection \<open>Properties\<close>

text \<open>A record that has reached its threshold, alone in the table, and a program without agents to inform.\<close>

definition demo_due :: hostrecord where
  "demo_due = demo_host\<lparr>hr_occurrences := 3\<rparr>"

definition due_records :: records_st where
  "due_records = one_record\<lparr>hr_vector := Some demo_due # replicate 99 None\<rparr>"

definition calm_action :: action_env where
  "calm_action = \<lparr>act_sys = calm_env, act_access = 0, act_client = calm_client\<rparr>"

definition idle_action :: action_st where
  "idle_action = \<lparr>as_client = client_init_st, as_log = []\<rparr>"

lemma demo_due_simps [simp]: "wf_hostrecord demo_due" "ip_of demo_due = ''10.0.0.1''" "due demo_due"
  using demo_host_wf
  by (simp_all add: demo_due_def wf_hostrecord_def ip_of_def due_def demo_host_def fresh_record_def word_sle_eq)

lemma due_records_inv [simp]: "records_inv due_records" "somes (hr_vector due_records) = [demo_due]"
    "records_map due_records = [''10.0.0.1'' \<mapsto> demo_due]"
  by (auto simp: due_records_def one_record_def records_inv_def vec_ok_def hr_vector_chunksize_def keys_unique_def
      records_map_def slot_map_def)

lemma calm_action_ok [simp]: "action_ok calm_action demo_config" "now (act_sys calm_action) = 1000"
  by (simp_all add: calm_action_def action_ok_def)

lemma client_init_inv: "client_inv client_init_st"
  by (simp add: client_inv_def client_init_st_def pending_def active_def takeWhile_eq_Nil_iff
      HOSTRECORDVECTORLEN_def MAXCLIENTQUEUES_def)

lemma idle_action_inv [simp]: "action_inv idle_action" "as_log idle_action = []"
  by (simp_all add: idle_action_def action_inv_def client_init_inv)

text \<open>
  C4. One pass of the action thread: the script is run with \<^verbatim>\<open>new\<close> once for each record that has reached its
  threshold and is not processed, in slot order, and for no other; those records and only those become
  processed; a stale record is marked for removal; while the client runs, a record of local origin is added,
  once, to what every agent to inform is still to receive, and one received from elsewhere is not.
\<close>

theorem action_pass_correct:
  assumes "records_inv st" and "action_ok e CONFIG" and "action_inv s"
    and "\<And>r. Some r \<in> set (hr_vector st) \<Longrightarrow> actionable CONFIG r"
  shows "returns (action_thread_pass e CONFIG (st, s)) (\<lambda>(st', s'). records_inv st' \<and> action_inv s'
    \<and> records_map st' = (\<lambda>ip. map_option (acted (now (act_sys e))) (records_map st ip))
    \<and> as_log s' = as_log s @ map (event_of CONFIG AC_NEW) (filter due (somes (hr_vector st)))
    \<and> cl_started (as_client s') = cl_started (as_client s) \<and> streams (as_client s') =
        (if cl_started (as_client s)
         then map (\<lambda>l. l @ filter (relayed CONFIG) (filter due (somes (hr_vector st)))) (streams (as_client s))
         else streams (as_client s)))"
  by (rule ospec_mono [OF action_thread_pass_spec [OF assms]]) (auto simp: relay_streams_def)

theorem action_pass_correct_witness:
  "returns (action_thread_pass calm_action demo_config (due_records, idle_action)) (\<lambda>(st', s').
     map ev_command (as_log s') = [''/bin/true 10.0.0.1 3 new localhost'']
     \<and> records_map st' = [''10.0.0.1'' \<mapsto> demo_due\<lparr>hr_processed := 1\<rparr>])"
proof -
  have "actionable demo_config r" for r by (simp add: actionable_def relayed_def)
  note p = action_pass_correct [OF due_records_inv(1) calm_action_ok(1) idle_action_inv(1) this]
  have "cstr (hr_origin demo_due) = ''localhost''"
    using cstr_strncpy [OF localhost_cstr(1), of IPADDR_SIZE]
    by (simp add: demo_due_def demo_host_def fresh_record_def LOCALHOST_def IPADDR_SIZE_def)
  moreover have "cstr (cfg_action demo_config) = ''/bin/true''" "hr_occurrences demo_due = 3"
    by (simp_all add: demo_config_def init_config_def strncpy_def DEFAULT_ACTION_def cstr_def MAX_PATH_def demo_due_def)
  ultimately have d: "cstr (cfg_action demo_config) = ''/bin/true''" "cstr (hr_origin demo_due) = ''localhost''"
    "hr_occurrences demo_due = 3" by auto
  have "decimal 3 = ''3''" by code_simp
  then have c: "ev_command (event_of demo_config AC_NEW demo_due) = ''/bin/true 10.0.0.1 3 new localhost''"
    by (simp add: event_of_def d action_command_def show_i32_def AC_TYPE_NEW_STR_def ACTION_BUFFER_SIZE_def)
  have a: "acted 1000 demo_due = demo_due\<lparr>hr_processed := 1\<rparr>" by (simp add: acted_def)
  show ?thesis by (rule ospec_mono [OF p]) (auto simp: c a)
qed

text \<open>
  C5. One pass of the maintenance thread: exactly the records marked for removal leave the table, and the
  script is run with \<^verbatim>\<open>remove\<close> once for each of them that was processed, in slot order, and for no other.
\<close>

theorem maintenance_pass_correct:
  assumes "records_inv st" and "action_ok e CONFIG"
  shows "returns (maintenance_thread_pass e CONFIG (st, s)) (\<lambda>(st', s'). records_inv st'
    \<and> records_map st' = (\<lambda>ip. keep_record (records_map st ip))
    \<and> as_client s' = as_client s
    \<and> as_log s' = as_log s @ map (event_of CONFIG AC_REMOVE)
       (filter (\<lambda>r. hr_remove r \<noteq> 0 \<and> hr_processed r \<noteq> 0) (somes (hr_vector st))))"
  by (rule ospec_mono [OF maintenance_thread_pass_spec [OF assms]]) (auto simp: maintained_def)

definition demo_spent :: hostrecord where
  "demo_spent = demo_due\<lparr>hr_processed := 1, hr_remove := 1\<rparr>"

definition spent_records :: records_st where
  "spent_records = one_record\<lparr>hr_vector := Some demo_spent # replicate 99 None\<rparr>"

lemma spent_records_inv [simp]: "records_inv spent_records" "somes (hr_vector spent_records) = [demo_spent]"
    "records_map spent_records = [''10.0.0.1'' \<mapsto> demo_spent]"
proof -
  have "wf_hostrecord demo_spent" "ip_of demo_spent = ''10.0.0.1''"
    using demo_due_simps(1,2) by (simp_all add: demo_spent_def wf_hostrecord_def ip_of_def)
  then show "records_inv spent_records" "somes (hr_vector spent_records) = [demo_spent]"
      "records_map spent_records = [''10.0.0.1'' \<mapsto> demo_spent]"
    by (auto simp: spent_records_def one_record_def records_inv_def vec_ok_def hr_vector_chunksize_def keys_unique_def
        records_map_def slot_map_def)
qed

theorem maintenance_pass_correct_witness:
  "returns (maintenance_thread_pass calm_action demo_config (spent_records, idle_action)) (\<lambda>(st', s').
     records_map st' = (\<lambda>_. None) \<and> as_log s' = [event_of demo_config AC_REMOVE demo_spent])"
proof -
  have k: "hr_remove demo_spent = 1" "hr_processed demo_spent = 1" by (simp_all add: demo_spent_def)
  show ?thesis
    by (rule ospec_mono [OF maintenance_pass_correct [OF spent_records_inv(1) calm_action_ok(1), of idle_action]])
      (auto simp: k keep_record_def fun_eq_iff)
qed

text \<open>
  Once is enough: a pass of the action thread right after another one runs no command and relays
  nothing, whatever time has passed in between.
\<close>

theorem action_pass_once:
  assumes "records_inv st" and "action_ok e CONFIG" and "action_ok e' CONFIG" and "action_inv s"
    and "\<And>r. Some r \<in> set (hr_vector st) \<Longrightarrow> actionable CONFIG r"
  shows "returns (obind (action_thread_pass e CONFIG (st, s)) (\<lambda>sts. obind (action_thread_pass e' CONFIG sts) (\<lambda>sts'. Ret (snd sts, snd sts'))))
    (\<lambda>(s1, s2). as_log s2 = as_log s1 \<and> streams (as_client s2) = streams (as_client s1))"
proof -
  have nd: "\<not> due (acted t r)" for t r by (auto simp: acted_def due_def)
  obtain st1 s1 where p1: "action_thread_pass e CONFIG (st, s) = Ret (st1, s1)" "records_inv st1" "action_inv s1"
      "somes (hr_vector st1) = map (acted (now (act_sys e))) (somes (hr_vector st))"
    using action_thread_pass_spec [OF assms(1,2,4,5)] unfolding returns_iff by auto
  have none: "filter due (somes (hr_vector st1)) = []"
    unfolding p1(4) using nd by (simp add: filter_map comp_def)
  have "actionable CONFIG r" if "Some r \<in> set (hr_vector st1)" for r
  proof -
    have "r \<in> set (somes (hr_vector st1))" using that by (simp add: set_somes)
    then obtain r0 where "Some r0 \<in> set (hr_vector st)" "r = acted (now (act_sys e)) r0"
      unfolding p1(4) by (auto simp: set_somes)
    then show ?thesis using assms(5) [of r0] by (auto simp: actionable_def relayed_def acted_def ip_of_def split: if_splits)
  qed
  from action_thread_pass_spec [OF p1(2) assms(3) p1(3) this] none p1(1) show ?thesis
    by (auto simp: ospec_obind relay_streams_def elim!: ospec_mono)
qed

theorem action_pass_once_witness:
  "returns (obind (action_thread_pass calm_action demo_config (due_records, idle_action))
      (\<lambda>sts. obind (action_thread_pass calm_action demo_config sts) (\<lambda>sts'. Ret (snd sts, snd sts'))))
    (\<lambda>(s1, s2). as_log s2 = as_log s1)"
proof -
  have "actionable demo_config r" for r by (simp add: actionable_def relayed_def)
  from action_pass_once [OF due_records_inv(1) calm_action_ok(1) calm_action_ok(1) idle_action_inv(1) this]
  show ?thesis by (elim ospec_mono) auto
qed

end
