(* ===== verification/Exclude.thy ===== *)
theory Exclude
  imports Slot_Vector Bytes "HOL-Library.Multiset"
begin

section \<open>The exclusion list (exclude.h, exclude.c)\<close>

text \<open>
  The state \<open>exclude_st\<close> is the static variables of \<^verbatim>\<open>exclude.c\<close>. An entry is the tagged union
  \<^verbatim>\<open>struct _excluderecord\<close>; IPv4 addresses are \<^verbatim>\<open>in_addr_t\<close> words as a little-endian machine
  loads them, IPv6 addresses 16 bytes. \<^verbatim>\<open>inet_pton\<close> belongs to the system and is the argument
  \<open>pton\<close>; \<open>pton_ok\<close> is what the code relies on. The build modelled has IPv6
  (\<^verbatim>\<open>HAVE_IN6_ADDR_T\<close>). The lemmas show that the netmask tests compare exactly the first
  \<^verbatim>\<open>prefix\<close> bits in network order, that adding stores one entry, and that an address is excluded
  if and only if one entry covers it.
\<close>

subsection \<open>Data\<close>

datatype af = AF_INET | AF_INET6

type_synonym inet_pton = "af \<Rightarrow> string \<Rightarrow> u8 list option"

definition pton_ok :: "inet_pton \<Rightarrow> bool" where
  "pton_ok pton \<longleftrightarrow> (\<forall>s b. pton AF_INET s = Some b \<longrightarrow> length b = 4)
     \<and> (\<forall>s b. pton AF_INET6 s = Some b \<longrightarrow> length b = 16)"

datatype excluderecord = ER_INET (er_net: u32) (er_mask: u32) | ER_INET6 (er_net6: "u8 list") (er_mask6: "u8 list")

fun er_af :: "excluderecord \<Rightarrow> af" where
  "er_af (ER_INET net msk) = AF_INET"
| "er_af (ER_INET6 net msk) = AF_INET6"

record exclude_st =
  exclude_vector :: "excluderecord option list"
  er_vector_size :: nat
  er_vector_fill :: nat
  ex_initialized :: bool

definition er_vector_chunksize :: nat where "er_vector_chunksize = 100"
definition MAX_EXCLUDE_LINE_LENGTH :: nat where "MAX_EXCLUDE_LINE_LENGTH = 100"

definition exclude_start :: exclude_st where
  "exclude_start = \<lparr>exclude_vector = [], er_vector_size = 100, er_vector_fill = 0, ex_initialized = False\<rparr>"

subsection \<open>Internal helpers\<close>

text \<open>\<^verbatim>\<open>_exclude_parse_ip\<close>; \<open>None\<close> is \<^verbatim>\<open>RETVAL_ERR\<close>. The result of its \<^verbatim>\<open>malloc\<close> is not checked.\<close>

definition exclude_parse_ip :: "bool \<Rightarrow> string \<Rightarrow> (string \<times> u32 \<times> af) option outcome" where
  "exclude_parse_ip ok str =
     (if length str < 3 then Ret None
      else
        (let af = (if strchr str (CHR '':'') \<noteq> None then AF_INET6 else AF_INET) in
         if \<not> ok then Undef
         else (case strchr str (CHR ''/'') of
             Some p \<Rightarrow>
               obind (atoi (drop (p + 1) str)) (\<lambda>n.
                 let prefix = word_of_int n :: u32 in
                 if prefix > 32 \<and> af = AF_INET then Ret None
                 else if prefix > 128 \<and> af = AF_INET6 then Ret None
                 else Ret (Some (take p str, prefix, af)))
           | None \<Rightarrow>
               (let ip = (if str ! (length str - 1) = CHR 0x0A then take (length str - 1) str else str) in
                Ret (Some (ip, (if af = AF_INET6 then 128 else 32), af))))))"

definition exclude_prefix_to_ipv6_mask :: "bool \<Rightarrow> u32 \<Rightarrow> u8 list outcome" where
  "exclude_prefix_to_ipv6_mask nd prefix =
     c_assert nd (prefix \<ge> 0 \<and> prefix \<le> 128)
       (let msk = replicate 16 0; n = unat (prefix div 8) in
        obind (c_for 0 n (\<lambda>i msk. obind (write_at msk i 0xff) (\<lambda>msk'. Ret (Inr msk'))) msk)
          (\<lambda>res. case res of
             Inl msk \<Rightarrow> Ret msk
           | Inr msk \<Rightarrow>
               (let m = unat (prefix mod 8) in
                if m = 0 then Ret msk
                else obind (write_at msk n 0xff) (\<lambda>msk.
                  obind (read_at msk n) (\<lambda>b. write_at msk n (push_bit (8 - m) b))))))"

definition exclude_ipv4_in_net :: "u32 \<Rightarrow> u32 \<Rightarrow> u32 \<Rightarrow> int" where
  "exclude_ipv4_in_net net msk ip = (if net AND msk = ip AND msk then RETVAL_OK else RETVAL_ERR)"

definition exclude_ipv6_in_net :: "u8 list \<Rightarrow> u8 list \<Rightarrow> u8 list \<Rightarrow> int outcome" where
  "exclude_ipv6_in_net net msk ip =
     obind (c_for 0 16 (\<lambda>i u.
         obind (read_at net i) (\<lambda>n. obind (read_at msk i) (\<lambda>m. obind (read_at ip i) (\<lambda>a.
           Ret (if n AND m \<noteq> a AND m then Inl RETVAL_ERR else Inr u))))) ())
       (\<lambda>res. Ret (case res of Inl rv \<Rightarrow> rv | Inr u \<Rightarrow> RETVAL_OK))"

definition exclude_vector_grow :: "bool \<Rightarrow> exclude_st \<Rightarrow> (nat \<times> exclude_st) outcome" where
  "exclude_vector_grow ok st =
     (let previous_size = er_vector_size st;
          st = st\<lparr>er_vector_size := er_vector_size st + er_vector_chunksize\<rparr>
      in if \<not> ok then Exit 3
         else Ret (previous_size,
                st\<lparr>exclude_vector := exclude_vector st @ replicate er_vector_chunksize None\<rparr>))"

text \<open>One comparison of the search loop: the entry has the family and its net holds the address.\<close>

definition exclude_entry_hit :: "af \<Rightarrow> u8 list \<Rightarrow> excluderecord \<Rightarrow> bool outcome" where
  "exclude_entry_hit af addr er =
     (if er_af er \<noteq> af then Ret False
      else (case er of
          ER_INET net msk \<Rightarrow> Ret (exclude_ipv4_in_net net msk (word_le addr) \<noteq> RETVAL_ERR)
        | ER_INET6 net msk \<Rightarrow> obind (exclude_ipv6_in_net net msk addr) (\<lambda>rv. Ret (rv \<noteq> RETVAL_ERR))))"

text \<open>\<^verbatim>\<open>_records_find\<close> of \<^verbatim>\<open>exclude.c\<close>.\<close>

definition exclude_records_find ::
  "sysenv \<Rightarrow> inet_pton \<Rightarrow> exclude_st \<Rightarrow> string \<Rightarrow> (nat \<times> excluderecord) option outcome" where
  "exclude_records_find e pton st ipaddr =
     obind (exclude_parse_ip (buf_ok e) ipaddr) (\<lambda>res. case res of
       None \<Rightarrow> Ret None
     | Some (iponly, prefix, af) \<Rightarrow>
         c_assert (ndebug e) ((af = AF_INET \<and> prefix = 32) \<or> (af = AF_INET6 \<and> prefix = 128))
           (case pton af iponly of
              None \<Rightarrow> Ret None
            | Some addr \<Rightarrow>
                obind (c_for 0 (er_vector_fill st) (\<lambda>i u.
                    obind (read_at (exclude_vector st) i) (\<lambda>p. case p of
                      None \<Rightarrow> Ret (Inr u)
                    | Some er \<Rightarrow> obind (exclude_entry_hit af addr er) (\<lambda>hit.
                        Ret (if hit then Inl (i, er) else Inr u)))) ())
                  (\<lambda>res. Ret (case res of Inl hit \<Rightarrow> Some hit | Inr u \<Rightarrow> None))))"

definition exclude_find_free :: "exclude_st \<Rightarrow> (nat \<times> int) outcome" where
  "exclude_find_free st =
     obind (c_for 0 (er_vector_size st) (\<lambda>i u.
         obind (read_at (exclude_vector st) i) (\<lambda>p.
           Ret (if p = None then Inl i else Inr u))) ())
       (\<lambda>res. Ret (case res of Inl i \<Rightarrow> (i, RETVAL_OK) | Inr _ \<Rightarrow> (0, 1)))"

subsection \<open>Operations\<close>

definition exclude_init :: "sysenv \<Rightarrow> exclude_st \<Rightarrow> exclude_st outcome" where
  "exclude_init e st =
     (if ex_initialized st then Ret st
      else if \<not> malloc_ok e then Exit 3
      else if mutex_init_rv e \<noteq> 0 then Exit 3
      else Ret (st\<lparr>exclude_vector := replicate (er_vector_size st) None, ex_initialized := True\<rparr>))"

text \<open>The loop that frees every entry reads each slot of the array.\<close>

definition exclude_free_all :: "exclude_st \<Rightarrow> unit outcome" where
  "exclude_free_all st =
     obind (c_for 0 (er_vector_size st) (\<lambda>i u.
         obind (read_at (exclude_vector st) i) (\<lambda>p. Ret (Inr u))) ())
       (\<lambda>res. case res of Inl u \<Rightarrow> Ret u | Inr u \<Rightarrow> Ret u)"

text \<open>\<^verbatim>\<open>exclude_destroy\<close> leaves \<^verbatim>\<open>initialized\<close> set; the freed array has no slot left.\<close>

definition exclude_destroy :: "exclude_st \<Rightarrow> exclude_st outcome" where
  "exclude_destroy st =
     (if \<not> ex_initialized st then Ret st
      else obind (exclude_free_all st) (\<lambda>_. Ret (st\<lparr>exclude_vector := []\<rparr>)))"

definition exclude_clear :: "sysenv \<Rightarrow> exclude_st \<Rightarrow> (int \<times> exclude_st) outcome" where
  "exclude_clear e st =
     c_assert (ndebug e) (ex_initialized st)
       (if \<not> ex_initialized st then Ret (RETVAL_ERR, st)
        else with_mutex e st (\<lambda>st.
          obind (exclude_free_all st) (\<lambda>_.
            if \<not> malloc_ok e then Exit 3
            else Ret (RETVAL_OK, st\<lparr>er_vector_size := 100, er_vector_fill := 0,
                                    exclude_vector := replicate 100 None\<rparr>))))"

text \<open>The entry \<^verbatim>\<open>exclude_add\<close> fills in; an IPv4 prefix of 0 shifts a 32 bit value by 32.\<close>

definition exclude_make_entry :: "bool \<Rightarrow> af \<Rightarrow> u8 list \<Rightarrow> u32 \<Rightarrow> excluderecord outcome" where
  "exclude_make_entry nd af addr prefix =
     (if af = AF_INET
      then (if 32 - prefix \<ge> 32 then Undef
            else Ret (ER_INET (word_le addr) (htonl (push_bit (unat (32 - prefix)) 0xffffffff))))
      else obind (exclude_prefix_to_ipv6_mask nd prefix) (\<lambda>msk. Ret (ER_INET6 addr msk)))"

definition exclude_add :: "sysenv \<Rightarrow> inet_pton \<Rightarrow> string \<Rightarrow> exclude_st \<Rightarrow> (int \<times> exclude_st) outcome" where
  "exclude_add e pton ipaddr st =
     with_mutex e st (\<lambda>st.
       obind (exclude_parse_ip (buf_ok e) ipaddr) (\<lambda>res. case res of
         None \<Rightarrow> Ret (RETVAL_ERR, st)
       | Some (iponly, prefix, af) \<Rightarrow>
           (case pton af iponly of
              None \<Rightarrow> Ret (RETVAL_ERR, st)
            | Some addr \<Rightarrow>
                obind (alloc_slot exclude_find_free (exclude_vector_grow (realloc_ok e)) st) (\<lambda>(pos, st1).
                  if \<not> malloc_ok e
                  then obind (write_at (exclude_vector st1) pos None)
                         (\<lambda>v. Ret (RETVAL_ERR, st1\<lparr>exclude_vector := v\<rparr>))
                  else obind (exclude_make_entry (ndebug e) af addr prefix) (\<lambda>er.
                    obind (write_at (exclude_vector st1) pos (Some er)) (\<lambda>v.
                      Ret (RETVAL_OK, st1\<lparr>exclude_vector := v,
                        er_vector_fill := (if pos + 1 > er_vector_fill st1 then pos + 1
                                           else er_vector_fill st1)\<rparr>)))))))"

text \<open>\<^verbatim>\<open>exclude_isexcluded\<close>: \<^verbatim>\<open>RETVAL_OK\<close> when an entry covers the address.\<close>

definition exclude_isexcluded :: "sysenv \<Rightarrow> inet_pton \<Rightarrow> string \<Rightarrow> exclude_st \<Rightarrow> int outcome" where
  "exclude_isexcluded e pton ipaddr st =
     (if lock_rv e \<noteq> 0 then Ret RETVAL_ERR
      else obind (exclude_records_find e pton st ipaddr) (\<lambda>hit.
        if unlock_rv e \<noteq> 0 then Ret RETVAL_ERR
        else Ret (if hit = None then RETVAL_ERR else RETVAL_OK)))"

subsection \<open>Reading the exclude file\<close>

text \<open>The successive lines a \<^verbatim>\<open>while (fgets(...) != NULL)\<close> loop sees.\<close>

function fgets_lines :: "nat \<Rightarrow> string \<Rightarrow> string list" where
  "fgets_lines n f =
     (if n < 2 then []
      else (case fgets n f of None \<Rightarrow> [] | Some (line, rest) \<Rightarrow> line # fgets_lines n rest))"
  by pat_completeness auto
termination
proof (relation "measure (\<lambda>(n, f). length f)", simp)
  fix n f x line rest
  assume "\<not> n < 2" "fgets n f = Some x" "(line, rest) = x"
  then show "((n, rest), (n, f)) \<in> measure (\<lambda>(n, f). length f)"
    by (auto simp: fgets_def Let_def split: if_splits option.splits)
qed

declare fgets_lines.simps [simp del]

text \<open>One iteration of \<^verbatim>\<open>_exclude_readfile_thread\<close>'s loop; the line is read as a C string.\<close>

definition exclude_read_line :: "sysenv \<Rightarrow> inet_pton \<Rightarrow> string \<Rightarrow> exclude_st \<Rightarrow> exclude_st outcome" where
  "exclude_read_line e pton l st =
     (let line = cstr l in
      if line \<noteq> [] \<and> line ! 0 = CHR ''#'' then Ret st
      else
        (let line = (if length line > 1 \<and> line ! (length line - 1) = CHR 0x0A
                     then take (length line - 1) line else line)
         in obind (exclude_add e pton line st) (\<lambda>(rv, st'). Ret st')))"

fun exclude_read_lines :: "(nat \<Rightarrow> sysenv) \<Rightarrow> inet_pton \<Rightarrow> nat \<Rightarrow> string list \<Rightarrow> exclude_st \<Rightarrow> exclude_st outcome" where
  "exclude_read_lines es pton lineno [] st = Ret st"
| "exclude_read_lines es pton lineno (l # ls) st =
     obind (exclude_read_line (es (Suc lineno)) pton l st) (exclude_read_lines es pton (Suc lineno) ls)"

text \<open>
  \<^verbatim>\<open>_exclude_readfile_thread\<close>: the content is \<open>None\<close> when \<^verbatim>\<open>access\<close> or \<^verbatim>\<open>fopen\<close> fails; \<open>es 0\<close> serves the
  clearing, \<open>es n\<close> the line \<open>n\<close>.
\<close>

definition exclude_readfile_thread ::
  "(nat \<Rightarrow> sysenv) \<Rightarrow> inet_pton \<Rightarrow> (string \<Rightarrow> string option) \<Rightarrow> string \<Rightarrow> exclude_st \<Rightarrow> exclude_st outcome" where
  "exclude_readfile_thread es pton fs fp st =
     (if fp = [] then Ret st
      else (case fs fp of
          None \<Rightarrow> Ret st
        | Some content \<Rightarrow>
            obind (exclude_clear (es 0) st) (\<lambda>(rv, st1).
              if rv \<noteq> RETVAL_OK then Ret st1
              else exclude_read_lines es pton 0 (fgets_lines MAX_EXCLUDE_LINE_LENGTH content) st1)))"

text \<open>\<^verbatim>\<open>exclude_readfile\<close> only creates the detached thread: its code and whether the thread runs.\<close>

definition exclude_readfile :: "sysenv \<Rightarrow> int \<times> bool" where
  "exclude_readfile e = (if pthread_rv e \<noteq> 0 then (RETVAL_ERR, False) else (RETVAL_OK, True))"

subsection \<open>The netmask tests compare a prefix\<close>

lemma and_eq_iff: "a AND m = b AND m \<longleftrightarrow> (\<forall>n < LENGTH('a). bit m n \<longrightarrow> bit a n = bit b n)"
  for a b m :: "'a::len word"
  by (auto simp: bit_eq_iff bit_and_iff dest: bit_imp_le_length)

text \<open>Splitting a bit number into a byte and a bit of that byte.\<close>

lemma all_bits_of_bytes: "(\<forall>i < 8 * n. P i) \<longleftrightarrow> (\<forall>k < n. \<forall>m < 8. P (8 * k + m))" for n :: nat
proof
  assume "\<forall>i < 8 * n. P i"
  then show "\<forall>k < n. \<forall>m < 8. P (8 * k + m)" by simp
next
  assume R: "\<forall>k < n. \<forall>m < 8. P (8 * k + m)"
  show "\<forall>i < 8 * n. P i"
  proof (intro allI impI)
    fix i assume "i < 8 * n"
    then have "i div 8 < n" by (simp add: less_mult_imp_div_less mult.commute)
    with R have "P (8 * (i div 8) + i mod 8)" by (metis mod_less_divisor zero_less_numeral)
    then show "P i" by (simp only: mult_div_mod_eq)
  qed
qed

definition ipv4_mask :: "u32 \<Rightarrow> u32" where
  "ipv4_mask p = htonl (push_bit (unat (32 - p)) 0xffffffff)"

text \<open>The simplifier reads the bits of a literal in the integers.\<close>

lemma bit_allones: "bit (0xff :: int) n \<longleftrightarrow> n < 8" "bit (0xffffffff :: int) n \<longleftrightarrow> n < 32"
proof -
  have "(0xff :: int) = mask 8" "(0xffffffff :: int) = mask 32" by (simp_all add: mask_eq_exp_minus_1)
  then show "bit (0xff :: int) n \<longleftrightarrow> n < 8" "bit (0xffffffff :: int) n \<longleftrightarrow> n < 32"
    by (simp_all only: bit_mask_iff) simp_all
qed

lemma bit_ipv4_mask:
  assumes "p \<le> 32" and "k < 4" and "m < 8"
  shows "bit (ipv4_mask p) (8 * k + m) \<longleftrightarrow> 8 * k + (7 - m) < unat p"
proof -
  have p: "unat p \<le> 32" "unat (32 - p) = 32 - unat p"
    using assms(1) by (simp_all add: word_le_nat_alt unat_sub)
  have "bit (ipv4_mask p) (8 * k + m) \<longleftrightarrow> 32 - unat p \<le> 8 * (3 - k) + m"
    using assms p
    by (simp add: ipv4_mask_def htonl_def bit_word_le rev_nth bit_bytes_le bit_push_bit_iff bit_allones) linarith
  also have "\<dots> \<longleftrightarrow> 8 * k + (7 - m) < unat p"
    using assms p by linarith
  finally show ?thesis .
qed

lemma ipv4_in_net_prefix:
  assumes "length a = 4" and "length b = 4" and "p \<le> 32"
  shows "exclude_ipv4_in_net (word_le a) (ipv4_mask p) (word_le b) = RETVAL_OK \<longleftrightarrow> same_prefix (unat p) a b"
proof -
  have "unat p \<le> 8 * 4" using assms(3) by (simp add: word_le_nat_alt)
  note pre = same_prefix_bits [OF this, of a b]
  have "word_le a AND ipv4_mask p = word_le b AND ipv4_mask p \<longleftrightarrow>
      (\<forall>i < 8 * 4. bit (ipv4_mask p) i \<longrightarrow> bit (word_le a :: u32) i = bit (word_le b :: u32) i)"
    by (subst and_eq_iff) simp
  also have "\<dots> \<longleftrightarrow> same_prefix (unat p) a b"
    unfolding all_bits_of_bytes pre using assms
    by (simp add: bit_ipv4_mask bit_word_le)
  finally show ?thesis by (simp add: exclude_ipv4_in_net_def)
qed

definition ipv6_mask_ok :: "nat \<Rightarrow> u8 list \<Rightarrow> bool" where
  "ipv6_mask_ok p m \<longleftrightarrow> length m = 16 \<and> (\<forall>k < 16. \<forall>j < 8. bit (m ! k) j \<longleftrightarrow> 8 * k + (7 - j) < p)"

lemma ipv6_mask_bytes:
  assumes "n \<le> 16"
  shows "c_for 0 n (\<lambda>i msk. obind (write_at msk i 0xff) (\<lambda>msk'. Ret (Inr msk'))) (replicate 16 0)
    = Ret (Inr (replicate n (0xff :: u8) @ replicate (16 - n) 0) :: u8 list + u8 list)"
proof -
  let ?I = "\<lambda>i t. t = replicate i (0xff :: u8) @ replicate (16 - i) 0"
  let ?body = "(\<lambda>i msk. obind (write_at msk i 0xff) (\<lambda>msk'. Ret (Inr msk')))
    :: nat \<Rightarrow> u8 list \<Rightarrow> (u8 list + u8 list) outcome"
  have "returns (c_for 0 n ?body (replicate 16 0)) (case_sum (\<lambda>_. False) (?I n))"
  proof (rule c_for_rule [where I = ?I], goal_cases)
    case (3 i t)
    then have "16 - i = Suc (16 - Suc i)" using assms by simp
    with 3 assms show ?case
      by (simp add: list_update_append replicate_app_Cons_same)
  qed auto
  then obtain x where "c_for 0 n ?body (replicate 16 0) = Ret x" "case_sum (\<lambda>_. False) (?I n) x"
    by (auto simp: returns_iff)
  then show ?thesis by (cases x) auto
qed

lemma prefix_to_ipv6_mask_spec:
  assumes "p \<le> 128"
  shows "returns (exclude_prefix_to_ipv6_mask nd p) (ipv6_mask_ok (unat p))"
proof -
  define n m where "n = unat p div 8" and "m = unat p mod 8"
  have p: "unat p = 8 * n + m" "m < 8" by (simp_all add: n_def m_def)
  have un: "unat (p div 8) = n" "unat (p mod 8) = m"
    by (simp_all add: n_def m_def unat_div unat_mod)
  have le: "n \<le> 16" "m \<noteq> 0 \<Longrightarrow> n < 16" using assms p by (auto simp: word_le_nat_alt)
  let ?base = "replicate n (0xff :: u8) @ replicate (16 - n) 0"
  have base: "bit (?base ! k) j \<longleftrightarrow> k < n \<and> j < 8" if "k < 16" for k j
    using that by (auto simp: nth_append bit_allones)
  have ok: "ipv6_mask_ok (unat p) (if m = 0 then ?base else ?base[n := push_bit (8 - m) 0xff])"
    unfolding ipv6_mask_ok_def
  proof (intro conjI allI impI, goal_cases)
    case (2 k j)
    consider "k < n" | "k = n" | "n < k" by linarith
    then show ?case
    proof cases
      case 2
      with p le \<open>j < 8\<close> \<open>k < 16\<close> show ?thesis
        by (auto simp: bit_push_bit_iff bit_allones base)
    qed (use p le 2 in \<open>auto simp: base nth_list_update\<close>)
  qed (use le in auto)
  show ?thesis
    unfolding exclude_prefix_to_ipv6_mask_def un Let_def ipv6_mask_bytes [OF le(1)]
    using assms ok le by (cases "m = 0") (auto simp: c_assert_holds)
qed

lemma ipv6_in_net_prefix:
  assumes a: "length a = 16" and b: "length b = 16" and m: "ipv6_mask_ok p m" and p: "p \<le> 128"
  shows "exclude_ipv6_in_net a m b = Ret (if same_prefix p a b then RETVAL_OK else RETVAL_ERR)"
proof -
  let ?f = "\<lambda>k. if a ! k AND m ! k \<noteq> b ! k AND m ! k then Some RETVAL_ERR else None"
  have eq: "exclude_ipv6_in_net a m b = Ret (case first_hit ?f 0 16 of None \<Rightarrow> RETVAL_OK | Some rv \<Rightarrow> rv)"
    unfolding exclude_ipv6_in_net_def
    by (subst c_for_search [where f = ?f]) (use a b m in \<open>auto simp: ipv6_mask_ok_def split: option.splits\<close>)
  have "p \<le> 8 * 16" using p by simp
  have "first_hit ?f 0 16 = None \<longleftrightarrow> (\<forall>k < 16. a ! k AND m ! k = b ! k AND m ! k)"
    by (auto simp: first_hit_None)
  also have "\<dots> \<longleftrightarrow> same_prefix p a b"
    unfolding same_prefix_bits [OF \<open>p \<le> 8 * 16\<close>] and_eq_iff using m by (simp add: ipv6_mask_ok_def)
  finally have "first_hit ?f 0 16 = None \<longleftrightarrow> same_prefix p a b" .
  moreover have "rv = RETVAL_ERR" if "first_hit ?f 0 16 = Some rv" for rv
    using first_hit_Some [OF that] by (auto split: if_splits)
  ultimately show ?thesis
    using eq by (cases "first_hit ?f 0 16") auto
qed

subsection \<open>The list as a collection of networks\<close>

interpretation ev: slot_vector exclude_vector er_vector_size er_vector_fill er_vector_chunksize
  exclude_find_free exclude_vector_grow
proof (unfold_locales, goal_cases)
  case 1
  show ?case by (simp add: er_vector_chunksize_def)
next
  case (2 st)
  then show ?case using scan_free_hit [OF 2(2)] by (auto simp: exclude_find_free_def)
next
  case (3 st)
  then show ?case using scan_free_full [OF 3(2)] by (simp add: exclude_find_free_def)
qed (simp_all add: exclude_vector_grow_def Let_def)

text \<open>A network: family, address bytes and prefix length; what it covers and which entry stores it.\<close>

type_synonym network = "af \<times> u8 list \<times> nat"

fun net_covers :: "network \<Rightarrow> af \<Rightarrow> u8 list \<Rightarrow> bool" where
  "net_covers (f, a, p) f' b \<longleftrightarrow> f = f' \<and> same_prefix p a b"

fun net_entry :: "network \<Rightarrow> excluderecord \<Rightarrow> bool" where
  "net_entry (AF_INET, a, p) er \<longleftrightarrow> length a = 4 \<and> 1 \<le> p \<and> p \<le> 32 \<and> er = ER_INET (word_le a) (ipv4_mask (of_nat p))"
| "net_entry (AF_INET6, a, p) er \<longleftrightarrow> length a = 16 \<and> p \<le> 128 \<and> (\<exists>m. er = ER_INET6 a m \<and> ipv6_mask_ok p m)"

definition exclude_nets :: "network multiset \<Rightarrow> exclude_st \<Rightarrow> bool" where
  "exclude_nets N st \<longleftrightarrow> ex_initialized st
     \<and> vec_ok er_vector_chunksize (exclude_vector st) (er_vector_size st) (er_vector_fill st)
     \<and> (\<exists>ns. mset ns = N \<and> list_all2 net_entry ns (somes (exclude_vector st)))"

definition addr_len :: "af \<Rightarrow> nat" where
  "addr_len f = (case f of AF_INET \<Rightarrow> 4 | AF_INET6 \<Rightarrow> 16)"

lemma pton_len: "pton_ok pton \<Longrightarrow> pton f s = Some b \<Longrightarrow> length b = addr_len f"
  by (cases f) (auto simp: pton_ok_def addr_len_def)

lemma exclude_entry_hit_spec:
  assumes "net_entry n er" and "length b = addr_len f"
  shows "exclude_entry_hit f b er = Ret (net_covers n f b)"
proof -
  obtain g a p where n: "n = (g, a, p)" by (cases n)
  show ?thesis
  proof (cases g)
    case AF_INET
    have "exclude_ipv4_in_net (word_le a) (ipv4_mask (of_nat p)) (word_le b) = RETVAL_OK \<longleftrightarrow> same_prefix p a b"
      if "f = AF_INET"
    proof -
      have p: "unat (of_nat p :: u32) = p" "(of_nat p :: u32) \<le> 32"
        using assms(1) n AF_INET by (simp_all add: unat_of_nat word_le_nat_alt)
      show ?thesis using ipv4_in_net_prefix [of a b "of_nat p"] assms n AF_INET p that
        by (simp add: addr_len_def)
    qed
    with assms n AF_INET show ?thesis
      by (auto simp: exclude_entry_hit_def exclude_ipv4_in_net_def split: if_splits)
  next
    case AF_INET6
    with assms n show ?thesis
      by (auto simp: exclude_entry_hit_def addr_len_def ipv6_in_net_prefix)
  qed
qed

lemma list_all2_members:
  "list_all2 R xs ys \<Longrightarrow> (\<And>x y. R x y \<Longrightarrow> P x = Q y) \<Longrightarrow> (\<exists>x \<in> set xs. P x) \<longleftrightarrow> (\<exists>y \<in> set ys. Q y)"
  by (induction rule: list_all2_induct) auto

text \<open>The search loop succeeds if and only if one of the networks covers the address.\<close>

lemma exclude_search_spec:
  assumes N: "exclude_nets N st" and b: "length b = addr_len f"
  shows "\<exists>res. c_for 0 (er_vector_fill st) (\<lambda>i u.
      obind (read_at (exclude_vector st) i) (\<lambda>p. case p of
        None \<Rightarrow> Ret (Inr u)
      | Some er \<Rightarrow> obind (exclude_entry_hit f b er) (\<lambda>hit. Ret (if hit then Inl (i, er) else Inr u)))) () = Ret res
    \<and> (case res of Inl _ \<Rightarrow> \<exists>n \<in># N. net_covers n f b | Inr _ \<Rightarrow> \<not> (\<exists>n \<in># N. net_covers n f b))"
proof -
  obtain ns where ns: "mset ns = N" "list_all2 net_entry ns (somes (exclude_vector st))"
    and lay: "ev.lay st" using N by (auto simp: exclude_nets_def)
  have le: "er_vector_fill st \<le> length (exclude_vector st)" using lay by (simp add: vec_ok_def)
  define H where "H er = (exclude_entry_hit f b er = Ret True)" for er
  have hit: "exclude_entry_hit f b er = Ret (H er)" if "Some er \<in> set (exclude_vector st)" for er
  proof -
    have "\<forall>er \<in> set (somes (exclude_vector st)). \<exists>n. net_entry n er"
      using ns(2) by (induction rule: list_all2_induct) auto
    moreover have "er \<in> set (somes (exclude_vector st))" using that by (simp add: set_somes)
    ultimately obtain n where "net_entry n er" by blast
    then show ?thesis by (simp add: H_def exclude_entry_hit_spec [OF _ b])
  qed
  let ?g = "\<lambda>j. case exclude_vector st ! j of None \<Rightarrow> None | Some er \<Rightarrow> if H er then Some (j, er) else None"
  have "(\<exists>n \<in> set ns. net_covers n f b) \<longleftrightarrow> (\<exists>er \<in> set (somes (exclude_vector st)). H er)"
    by (rule list_all2_members [OF ns(2)]) (simp add: H_def exclude_entry_hit_spec [OF _ b])
  then have covered: "(\<exists>n \<in># N. net_covers n f b) \<longleftrightarrow> (\<exists>er. Some er \<in> set (exclude_vector st) \<and> H er)"
    using ns(1) set_somes by fastforce
  have found: "first_hit ?g 0 (er_vector_fill st) = None \<longleftrightarrow> \<not> (\<exists>er. Some er \<in> set (exclude_vector st) \<and> H er)"
  proof
    assume "first_hit ?g 0 (er_vector_fill st) = None"
    then show "\<not> (\<exists>er. Some er \<in> set (exclude_vector st) \<and> H er)"
      using vec_ok_hit [OF lay] by (fastforce simp: first_hit_None)
  next
    assume "\<not> (\<exists>er. Some er \<in> set (exclude_vector st) \<and> H er)"
    then show "first_hit ?g 0 (er_vector_fill st) = None"
      using le by (auto simp: first_hit_None split: option.splits) (metis nth_mem order_less_le_trans)
  qed
  have "exclude_vector st ! j = Some er \<Longrightarrow> j < er_vector_fill st \<Longrightarrow> exclude_entry_hit f b er = Ret (H er)" for j er
    using hit le by (metis nth_mem order_less_le_trans)
  then show ?thesis
    using found covered le
    by (subst c_for_search [where f = ?g]) (auto split: option.splits sum.splits)
qed

subsection \<open>Parsing an address\<close>

definition af_of :: "string \<Rightarrow> af" where
  "af_of s = (if CHR '':'' \<in> set s then AF_INET6 else AF_INET)"

lemma strchr_af [simp]: "(if strchr s (CHR '':'') \<noteq> None then AF_INET6 else AF_INET) = af_of s"
  by (simp add: af_of_def strchr_None)

definition max_prefix :: "af \<Rightarrow> nat" where
  "max_prefix f = (case f of AF_INET \<Rightarrow> 32 | AF_INET6 \<Rightarrow> 128)"

lemma exclude_parse_host:
  assumes "3 \<le> length s" and "CHR ''/'' \<notin> set s" and "last s \<noteq> CHR 0x0A"
  shows "exclude_parse_ip True s = Ret (Some (s, of_nat (max_prefix (af_of s)), af_of s))"
proof -
  have ne: "s \<noteq> []" using assms(1) by auto
  have sl: "strchr s (CHR ''/'') = None" using assms(2) by (simp add: strchr_None)
  show ?thesis
    unfolding exclude_parse_ip_def strchr_af Let_def sl
    using assms(1,3) ne by (cases "af_of s") (auto simp: max_prefix_def last_conv_nth)
qed

text \<open>\<^verbatim>\<open>address/prefix\<close> as it is written in the exclude file.\<close>

definition cidr :: "string \<Rightarrow> nat \<Rightarrow> string" where
  "cidr s p = s @ CHR ''/'' # decimal p"

lemma af_of_cidr [simp]: "af_of (cidr s p) = af_of s"
  using decimal_digits [of p] by (auto simp: af_of_def cidr_def list_all_iff dest: isdigit_not)

lemma exclude_parse_cidr:
  assumes "CHR ''/'' \<notin> set s" and "s \<noteq> []" and "p \<le> max_prefix (af_of s)"
  shows "exclude_parse_ip True (cidr s p) = Ret (Some (s, of_nat p, af_of s))"
proof -
  have len: "\<not> length (cidr s p) < 3"
    using assms(2) decimal_nonempty [of p] by (cases s; cases "decimal p") (auto simp: cidr_def)
  have sl: "strchr (cidr s p) (CHR ''/'') = Some (length s)"
    using assms(1) by (simp add: cidr_def strchr_append)
  have p: "p \<le> 128" "af_of s = AF_INET \<Longrightarrow> p \<le> 32"
    using assms(3) by (auto simp: max_prefix_def split: af.splits)
  have at: "atoi (decimal p) = Ret (int p)"
    using atoi_decimal [of p "[]"] p by simp
  have parts: "drop (length s + 1) (cidr s p) = decimal p" "take (length s) (cidr s p) = s"
    by (simp_all add: cidr_def)
  have w: "\<not> (of_nat p :: u32) > 128" "af_of s = AF_INET \<Longrightarrow> \<not> (of_nat p :: u32) > 32"
    using p by (auto simp: word_less_nat_alt unat_of_nat)
  show ?thesis
    unfolding exclude_parse_ip_def strchr_af af_of_cidr Let_def sl option.case parts at obind.simps
    using len w by auto
qed

subsection \<open>The operations on the collection\<close>

lemma exclude_make_entry_spec:
  assumes "length a = addr_len f" and "p \<le> of_nat (max_prefix f)" and "f = AF_INET \<Longrightarrow> p \<noteq> 0"
  shows "returns (exclude_make_entry nd f a p) (net_entry (f, a, unat p))"
proof (cases f)
  case AF_INET
  then have p: "p \<le> 32" "p \<noteq> 0" using assms by (auto simp: max_prefix_def)
  then have u: "1 \<le> unat p" "unat p \<le> 32" "unat (32 - p) = 32 - unat p"
    by (auto simp: word_le_nat_alt unat_sub unat_gt_0 Suc_leI)
  then have "\<not> 32 - p \<ge> 32" by (simp add: word_le_nat_alt)
  with AF_INET u assms(1) show ?thesis
    by (simp add: exclude_make_entry_def ipv4_mask_def addr_len_def)
next
  case AF_INET6
  then have "p \<le> 128" using assms(2) by (simp add: max_prefix_def)
  then show ?thesis
    using AF_INET6 assms(1) ospec_mono [OF prefix_to_ipv6_mask_spec [of p nd]]
    by (simp add: exclude_make_entry_def ospec_obind addr_len_def word_le_nat_alt)
qed

lemma somes_insert_entry:
  assumes "pos < length v" "v ! pos = None" and "list_all2 R ns (somes v)" and "R n er"
  shows "\<exists>ns'. mset ns' = add_mset n (mset ns) \<and> list_all2 R ns' (somes (v[pos := Some er]))"
proof -
  have "somes v = somes (take pos v) @ somes (drop (Suc pos) v)"
    using somes_split [OF assms(1)] assms(2) by simp
  then obtain as bs where "ns = as @ bs" "list_all2 R as (somes (take pos v))" "list_all2 R bs (somes (drop (Suc pos) v))"
    using assms(3) by (auto simp: list_all2_append2)
  then show ?thesis
    using assms(4) somes_upd [OF assms(1), of "Some er"]
    by (intro exI [of _ "as @ n # bs"]) (auto intro: list_all2_appendI)
qed

text \<open>Storing a network: success adds it, a failed allocation changes nothing.\<close>

lemma exclude_store_spec:
  assumes N: "exclude_nets N st" and er: "net_entry n er"
  shows "ospec (\<lambda>c. c = 3 \<and> \<not> realloc_ok e)
     (obind (alloc_slot exclude_find_free (exclude_vector_grow (realloc_ok e)) st) (\<lambda>(pos, st1).
        if \<not> malloc_ok e
        then obind (write_at (exclude_vector st1) pos None) (\<lambda>v. Ret (RETVAL_ERR, st1\<lparr>exclude_vector := v\<rparr>))
        else obind (Ret er) (\<lambda>er.
          obind (write_at (exclude_vector st1) pos (Some er)) (\<lambda>v.
            Ret (RETVAL_OK, st1\<lparr>exclude_vector := v,
              er_vector_fill := (if pos + 1 > er_vector_fill st1 then pos + 1 else er_vector_fill st1)\<rparr>)))))
     (\<lambda>(rv, st'). if malloc_ok e then rv = RETVAL_OK \<and> exclude_nets (add_mset n N) st'
                  else rv = RETVAL_ERR \<and> exclude_nets N st')"
proof -
  obtain ns where ns: "mset ns = N" "list_all2 net_entry ns (somes (exclude_vector st))"
    and lay: "ev.lay st" and i: "ex_initialized st" using N by (auto simp: exclude_nets_def)
  have init: "ex_initialized st1" 
    if "alloc_slot exclude_find_free (exclude_vector_grow (realloc_ok e)) st = Ret (pos, st1)" for pos st1
    using that i by (auto simp: alloc_slot_def exclude_vector_grow_def Let_def obind_eq_Ret split: if_splits)
  show ?thesis
  proof (subst ospec_obind, rule ospec_mono [OF ev.alloc_slot_spec [OF lay, of "realloc_ok e"]], goal_cases)
    case (1 x)
    then obtain pos st1 k where x: "x = (pos, st1)" and a: "ev.lay st1" "pos < er_vector_size st1"
        "exclude_vector st1 ! pos = None" "exclude_vector st1 = exclude_vector st @ replicate k None"
      by (auto split: prod.splits)
    have len: "pos < length (exclude_vector st1)" using a(1,2) by (simp add: vec_ok_def)
    have ns1: "list_all2 net_entry ns (somes (exclude_vector st1))" using ns(2) a(4) by simp
    have lay': "vec_ok er_vector_chunksize ((exclude_vector st1)[pos := Some er]) (er_vector_size st1)
        (if pos + 1 > er_vector_fill st1 then pos + 1 else er_vector_fill st1)"
      using vec_ok_store [OF a(1,2), of "Some er"] by (simp add: max_def not_less_eq_eq split: if_splits)
    have same: "(exclude_vector st1)[pos := None] = exclude_vector st1" using a(3) by (metis list_update_id)
    have "exclude_nets N st1" using a(1) ns(1) ns1 init 1(1) x by (auto simp: exclude_nets_def)
    moreover have "exclude_nets (add_mset n N) (st1\<lparr>exclude_vector := (exclude_vector st1)[pos := Some er],
        er_vector_fill := (if pos + 1 > er_vector_fill st1 then pos + 1 else er_vector_fill st1)\<rparr>)"
      using somes_insert_entry [OF len a(3) ns1 er] lay' ns(1) init 1(1) x by (simp add: exclude_nets_def)
    ultimately show ?case using x len same by simp
  qed simp
qed

lemma exclude_add_spec:
  assumes N: "exclude_nets N st" and pt: "pton_ok pton" and buf: "buf_ok e"
    and parse: "exclude_parse_ip True s = Ret (Some (ip, p, f))" and ip: "pton f ip = Some a"
    and p: "p \<le> of_nat (max_prefix f)" "f = AF_INET \<Longrightarrow> p \<noteq> 0"
  shows "ospec (\<lambda>c. c = 3 \<and> \<not> realloc_ok e) (exclude_add e pton s st) (\<lambda>(rv, st').
    if lock_rv e = 0 \<and> malloc_ok e
    then exclude_nets (add_mset (f, a, unat p) N) st' \<and> (unlock_rv e = 0 \<longrightarrow> rv = RETVAL_OK)
    else rv = RETVAL_ERR \<and> exclude_nets N st')"
proof -
  obtain er where er: "exclude_make_entry (ndebug e) f a p = Ret er" "net_entry (f, a, unat p) er"
    using exclude_make_entry_spec [OF pton_len [OF pt ip] p] by (auto simp: returns_iff)
  note body = exclude_store_spec [OF N er(2), of e, folded er(1)]
  have eq: "buf_ok e = True" using buf by simp
  show ?thesis
    unfolding exclude_add_def eq parse obind.simps option.case prod.case ip
    by (rule ospec_mono, rule ospec_with_mutex, rule body)
      (use N in \<open>auto split: if_splits\<close>)
qed

text \<open>What cannot be parsed or converted is reported and leaves the list alone.\<close>

lemma exclude_add_reject:
  assumes "exclude_parse_ip (buf_ok e) s = Ret None \<or>
      (\<exists>ip p f. exclude_parse_ip (buf_ok e) s = Ret (Some (ip, p, f)) \<and> pton f ip = None)"
  shows "exclude_add e pton s st = Ret (RETVAL_ERR, st)"
  using assms by (auto simp: exclude_add_def with_mutex_def)

lemma exclude_isexcluded_spec:
  assumes N: "exclude_nets N st" and pt: "pton_ok pton" and ok: "sys_ok e"
    and s: "3 \<le> length s" "CHR ''/'' \<notin> set s" "last s \<noteq> CHR 0x0A"
  shows "exclude_isexcluded e pton s st =
    Ret (if \<exists>a. pton (af_of s) s = Some a \<and> (\<exists>n \<in># N. net_covers n (af_of s) a) then RETVAL_OK else RETVAL_ERR)"
proof -
  have e: "buf_ok e = True" "lock_rv e = 0" "unlock_rv e = 0" using ok by (auto simp: sys_ok_def)
  have w: "(af_of s = AF_INET \<and> (of_nat (max_prefix (af_of s)) :: u32) = 32)
      \<or> (af_of s = AF_INET6 \<and> (of_nat (max_prefix (af_of s)) :: u32) = 128)"
    by (cases "af_of s") (simp_all add: max_prefix_def)
  show ?thesis
  proof (cases "pton (af_of s) s")
    case None
    then show ?thesis
      using e w by (simp add: exclude_isexcluded_def exclude_records_find_def exclude_parse_host [OF s] c_assert_holds)
  next
    case (Some a)
    obtain res where "c_for 0 (er_vector_fill st) (\<lambda>i u.
        obind (read_at (exclude_vector st) i) (\<lambda>p. case p of
          None \<Rightarrow> Ret (Inr u)
        | Some er \<Rightarrow> obind (exclude_entry_hit (af_of s) a er) (\<lambda>hit. Ret (if hit then Inl (i, er) else Inr u)))) () = Ret res"
      "case res of Inl _ \<Rightarrow> \<exists>n \<in># N. net_covers n (af_of s) a | Inr _ \<Rightarrow> \<not> (\<exists>n \<in># N. net_covers n (af_of s) a)"
      using exclude_search_spec [OF N pton_len [OF pt Some]] by blast
    with Some e w show ?thesis
      by (auto simp: exclude_isexcluded_def exclude_records_find_def exclude_parse_host [OF s] c_assert_holds
          split: sum.splits)
  qed
qed

lemma exclude_free_all_ok: "length (exclude_vector st) = er_vector_size st \<Longrightarrow> exclude_free_all st = Ret ()"
  unfolding exclude_free_all_def
  by (subst c_for_search [where f = "\<lambda>_. None"]) (auto simp: first_hit_def)

lemma exclude_clear_spec:
  assumes "exclude_nets N st"
  shows "ospec (\<lambda>c. c = 3 \<and> \<not> malloc_ok e) (exclude_clear e st) (\<lambda>(rv, st').
    if lock_rv e = 0 then exclude_nets {#} st' \<and> (unlock_rv e = 0 \<longrightarrow> rv = RETVAL_OK) else rv = RETVAL_ERR \<and> st' = st)"
proof -
  have "ex_initialized st" "exclude_free_all st = Ret ()"
    using assms by (auto simp: exclude_nets_def vec_ok_def exclude_free_all_ok)
  then show ?thesis
    by (auto simp: exclude_clear_def c_assert_holds with_mutex_def exclude_nets_def vec_ok_def er_vector_chunksize_def)
qed

lemma exclude_destroy_ok: "exclude_nets N st \<Longrightarrow> \<exists>ex. exclude_destroy st = Ret ex"
  by (auto simp: exclude_destroy_def exclude_nets_def vec_ok_def exclude_free_all_ok)

lemma exclude_init_spec:
  assumes "\<not> ex_initialized st" and "er_vector_size st = er_vector_chunksize" and "er_vector_fill st = 0" and "sys_ok e"
  shows "returns (exclude_init e st) (exclude_nets {#})"
  using assms by (simp add: exclude_init_def sys_ok_def exclude_nets_def vec_ok_def)

subsection \<open>Reading a file replaces the list\<close>

text \<open>What \<^verbatim>\<open>exclude_add\<close> is handed for a line (\<open>None\<close> for a comment), and the network it adds.\<close>

definition exclude_line :: "string \<Rightarrow> string option" where
  "exclude_line l =
     (let line = cstr l in
      if line \<noteq> [] \<and> hd line = CHR ''#'' then None
      else if length line > 1 \<and> last line = CHR 0x0A then Some (butlast line) else Some line)"

definition line_net :: "inet_pton \<Rightarrow> string \<Rightarrow> network option" where
  "line_net pton l = (case exclude_line l of
       None \<Rightarrow> None
     | Some s \<Rightarrow> (case exclude_parse_ip True s of
         Ret (Some (ip, p, f)) \<Rightarrow> map_option (\<lambda>a. (f, a, unat p)) (pton f ip)
       | _ \<Rightarrow> None))"

text \<open>Lines the program can process: the prefix fits an \<^verbatim>\<open>int\<close> and no IPv4 prefix is 0.\<close>

definition line_safe :: "inet_pton \<Rightarrow> string \<Rightarrow> bool" where
  "line_safe pton l = (case exclude_line l of
       None \<Rightarrow> True
     | Some s \<Rightarrow> (case exclude_parse_ip True s of
         Ret (Some (ip, p, f)) \<Rightarrow> \<not> (f = AF_INET \<and> p = 0 \<and> pton f ip \<noteq> None)
       | Ret None \<Rightarrow> True
       | _ \<Rightarrow> False))"

lemma exclude_read_line_eq:
  "exclude_read_line e pton l st = (case exclude_line l of
       None \<Rightarrow> Ret st
     | Some s \<Rightarrow> obind (exclude_add e pton s st) (\<lambda>(rv, st'). Ret st'))"
proof (cases "cstr l = []")
  case True
  then show ?thesis by (simp add: exclude_read_line_def exclude_line_def)
next
  case False
  then have "cstr l ! (length (cstr l) - 1) = last (cstr l)" "cstr l ! 0 = hd (cstr l)"
    "take (length (cstr l) - 1) (cstr l) = butlast (cstr l)"
    by (simp_all add: butlast_conv_take last_conv_nth hd_conv_nth)
  then show ?thesis
    unfolding exclude_read_line_def exclude_line_def Let_def by simp
qed

lemma exclude_parse_bound:
  "exclude_parse_ip b s = Ret (Some (ip, p, f)) \<Longrightarrow> p \<le> of_nat (max_prefix f)"
  by (auto simp: exclude_parse_ip_def Let_def max_prefix_def obind_eq_Ret not_less
      split: if_splits option.splits af.splits)

lemma exclude_read_line_spec:
  assumes N: "exclude_nets N st" and pt: "pton_ok pton" and ok: "sys_ok e" and l: "line_safe pton l"
  shows "returns (exclude_read_line e pton l st)
    (exclude_nets (case line_net pton l of None \<Rightarrow> N | Some n \<Rightarrow> add_mset n N))"
proof (cases "exclude_line l")
  case None
  with N show ?thesis by (simp add: exclude_read_line_eq line_net_def)
next
  case (Some s)
  have e: "buf_ok e = True" "lock_rv e = 0" "malloc_ok e" "realloc_ok e" using ok by (auto simp: sys_ok_def)
  from l Some obtain res where res: "exclude_parse_ip True s = Ret res"
    by (auto simp: line_safe_def split: outcome.splits)
  show ?thesis
  proof (cases "\<exists>ip p f a. res = Some (ip, p, f) \<and> pton f ip = Some a")
    case False
    then have "exclude_add e pton s st = Ret (RETVAL_ERR, st)"
      using res by (intro exclude_add_reject) (cases res, auto simp: e)
    with False Some res N show ?thesis
      by (cases res) (auto simp: exclude_read_line_eq line_net_def)
  next
    case True
    then obtain ip p f a where r: "res = Some (ip, p, f)" "pton f ip = Some a" by blast
    have "f = AF_INET \<Longrightarrow> p \<noteq> 0" using l Some res r by (auto simp: line_safe_def)
    note add = exclude_add_spec [OF N pt _ res [unfolded r(1)] r(2) exclude_parse_bound [OF res [unfolded r(1)]] this, of e]
    have "returns (exclude_add e pton s st) (\<lambda>(rv, st'). exclude_nets (add_mset (f, a, unat p) N) st')"
      by (rule ospec_mono [OF add]) (use e in auto)
    with Some res r show ?thesis
      by (auto simp: exclude_read_line_eq line_net_def ospec_obind elim: ospec_mono)
  qed
qed

lemma exclude_read_lines_spec:
  assumes "exclude_nets N st" and "pton_ok pton" and "\<And>n. sys_ok (es n)" and "list_all (line_safe pton) ls"
  shows "returns (exclude_read_lines es pton k ls st) (exclude_nets (mset (List.map_filter (line_net pton) ls) + N))"
  using assms
proof (induction ls arbitrary: k N st)
  case Nil
  then show ?case by (simp add: List.map_filter_def)
next
  case (Cons l ls)
  let ?M = "case line_net pton l of None \<Rightarrow> N | Some n \<Rightarrow> add_mset n N"
  obtain st1 where st1: "exclude_read_line (es (Suc k)) pton l st = Ret st1" "exclude_nets ?M st1"
    using exclude_read_line_spec [OF Cons.prems(1,2), of "es (Suc k)" l] Cons.prems(3,4) by (auto simp: returns_iff)
  have "returns (exclude_read_lines es pton (Suc k) ls st1) (exclude_nets (mset (List.map_filter (line_net pton) ls) + ?M))"
    by (rule Cons.IH [OF st1(2)]) (use Cons.prems in auto)
  with st1(1) show ?case
    by (auto simp: List.map_filter_def split: option.splits)
qed

lemma exclude_readfile_thread_spec:
  assumes "exclude_nets N st" and "pton_ok pton" and "\<And>n. sys_ok (es n)" and "fp \<noteq> []"
    and "fs fp = Some content" and "list_all (line_safe pton) (fgets_lines MAX_EXCLUDE_LINE_LENGTH content)"
  shows "returns (exclude_readfile_thread es pton fs fp st)
    (exclude_nets (mset (List.map_filter (line_net pton) (fgets_lines MAX_EXCLUDE_LINE_LENGTH content))))"
proof -
  obtain st1 where "exclude_clear (es 0) st = Ret (RETVAL_OK, st1)" "exclude_nets {#} st1"
    using exclude_clear_spec [OF assms(1), of "es 0"] assms(3) [of 0]
    by (cases "exclude_clear (es 0) st") (auto simp: sys_ok_def)
  then show ?thesis
    using assms exclude_read_lines_spec [of "{#}" st1 pton es _ 0] by (simp add: exclude_readfile_thread_def)
qed

text \<open>The lines \<^verbatim>\<open>fgets\<close> delivers are the file cut into pieces that fit the buffer.\<close>

lemma fgets_lines_concat:
  "2 \<le> n \<Longrightarrow> concat (fgets_lines n f) = f \<and> list_all (\<lambda>l. l \<noteq> [] \<and> length l < n) (fgets_lines n f)"
proof (induction n f rule: fgets_lines.induct)
  case (1 n f)
  have step: "fgets_lines n f = (case fgets n f of None \<Rightarrow> [] | Some (line, rest) \<Rightarrow> line # fgets_lines n rest)"
    using "1.prems" by (subst fgets_lines.simps) simp
  show ?case
  proof (cases "fgets n f")
    case None
    then have "f = []" by (auto simp: fgets_def Let_def split: if_splits)
    with None step show ?thesis by simp
  next
    case (Some x)
    then obtain line rest where x: "fgets n f = Some (line, rest)" by (cases x) auto
    have "concat (fgets_lines n rest) = rest \<and> list_all (\<lambda>l. l \<noteq> [] \<and> length l < n) (fgets_lines n rest)"
      by (rule "1.IH" [OF _ x refl]) (use "1.prems" in auto)
    with step x fgets_split [OF "1.prems" x] show ?thesis by simp
  qed
qed

subsection \<open>Properties\<close>

text \<open>A conversion function that knows a few addresses, and a list just initialised.\<close>

definition demo_pton :: inet_pton where
  "demo_pton f s = (if f = AF_INET \<and> s = ''10.1.2.3'' then Some [10, 1, 2, 3]
     else if f = AF_INET \<and> s = ''10.0.0.0'' then Some [10, 0, 0, 0]
     else if f = AF_INET6 \<and> s = ''fe80::1'' then Some ([0xfe, 0x80] @ replicate 13 0 @ [1])
     else None)"

definition empty_excludes :: exclude_st where
  "empty_excludes = exclude_start\<lparr>exclude_vector := replicate 100 None, ex_initialized := True\<rparr>"

lemma demo_pton_ok [simp]: "pton_ok demo_pton"
  by (auto simp: pton_ok_def demo_pton_def split: if_splits)

lemma empty_excludes_nets [simp]: "exclude_nets {#} empty_excludes"
  by (simp add: empty_excludes_def exclude_start_def exclude_nets_def vec_ok_def er_vector_chunksize_def)

lemma demo_addr: "CHR ''/'' \<notin> set ''10.0.0.0''" "''10.0.0.0'' \<noteq> []" "af_of ''10.0.0.0'' = AF_INET"
    "3 \<le> length ''10.1.2.3''" "CHR ''/'' \<notin> set ''10.1.2.3''" "last ''10.1.2.3'' \<noteq> CHR 0x0A" "af_of ''10.1.2.3'' = AF_INET"
  by (simp_all add: af_of_def)

text \<open>
  C12. After \<^verbatim>\<open>exclude_add\<close> of \<^verbatim>\<open>address/prefix\<close> succeeds, \<^verbatim>\<open>exclude_isexcluded\<close> answers yes for an address if
  and only if it already did or the address is of the same family and agrees with the added one in its
  first \<^verbatim>\<open>prefix\<close> bits in network order. The vector may have grown; nothing else excluded has changed.
\<close>

theorem exclude_cidr_semantics:
  assumes "exclude_nets N st" and "pton_ok pton" and "sys_ok e" and "sys_ok e'"
    and net: "CHR ''/'' \<notin> set s" "s \<noteq> []" "p \<le> max_prefix (af_of s)" "af_of s = AF_INET \<longrightarrow> p \<noteq> 0"
      "pton (af_of s) s = Some a"
    and ip: "3 \<le> length ip" "CHR ''/'' \<notin> set ip" "last ip \<noteq> CHR 0x0A" "pton (af_of ip) ip = Some b"
  shows "returns (exclude_add e pton (cidr s p) st) (\<lambda>(rv, st'). rv = RETVAL_OK \<and>
    (exclude_isexcluded e' pton ip st' = Ret RETVAL_OK \<longleftrightarrow>
       exclude_isexcluded e' pton ip st = Ret RETVAL_OK \<or> af_of s = af_of ip \<and> same_prefix p a b))"
proof -
  have p: "p \<le> 128" using net(3) by (auto simp: max_prefix_def split: af.splits)
  have w: "(of_nat p :: u32) \<le> of_nat (max_prefix (af_of s))"
    using net(3) p by (auto simp: word_le_nat_alt unat_of_nat max_prefix_def split: af.splits)
  have nz: "(of_nat p :: u32) \<noteq> 0" if "af_of s = AF_INET"
    using net(4) that p by (auto simp: word_unat_eq_iff unat_of_nat)
  have up: "unat (of_nat p :: u32) = p" using p by (simp add: unat_of_nat)
  have e: "buf_ok e" "lock_rv e = 0" "unlock_rv e = 0" "malloc_ok e" "realloc_ok e" using assms(3) by (auto simp: sys_ok_def)
  note add = exclude_add_spec [OF assms(1,2) e(1) exclude_parse_cidr [OF net(1-3)] net(5) w nz, unfolded up]
  have hit: "exclude_isexcluded e' pton ip st' = Ret RETVAL_OK \<longleftrightarrow> (\<exists>n \<in># M. net_covers n (af_of ip) b)"
    if "exclude_nets M st'" for M st'
    using exclude_isexcluded_spec [OF that assms(2,4) ip(1-3)] ip(4) by auto
  have cov: "(\<exists>n \<in># add_mset (af_of s, a, p) N. net_covers n (af_of ip) b) \<longleftrightarrow>
      (\<exists>n \<in># N. net_covers n (af_of ip) b) \<or> af_of s = af_of ip \<and> same_prefix p a b"
    by (simp only: set_mset_add_mset_insert bex_simps net_covers.simps) blast
  show ?thesis
  proof (rule ospec_mono [OF add], goal_cases)
    case (2 x)
    then obtain rv st' where "x = (rv, st')" "rv = RETVAL_OK" "exclude_nets (add_mset (af_of s, a, p) N) st'"
      using e by auto
    then show ?case by (simp only: prod.case hit [OF assms(1)] hit cov simp_thms)
  qed (use e in auto)
qed

theorem exclude_cidr_semantics_witness:
  "returns (exclude_add calm_env demo_pton ''10.0.0.0/8'' empty_excludes) (\<lambda>(rv, st').
     rv = RETVAL_OK \<and> exclude_isexcluded calm_env demo_pton ''10.1.2.3'' st' = Ret RETVAL_OK)"
proof -
  have c: "cidr ''10.0.0.0'' 8 = ''10.0.0.0/8''" by code_simp
  have i: "3 \<le> length ''10.1.2.3''" "CHR ''/'' \<notin> set ''10.1.2.3''" "last ''10.1.2.3'' \<noteq> CHR 0x0A"
    "demo_pton (af_of ''10.1.2.3'') ''10.1.2.3'' = Some [10, 1, 2, 3]"
    by (simp_all add: demo_addr demo_pton_def)
  have s: "CHR ''/'' \<notin> set ''10.0.0.0''" "''10.0.0.0'' \<noteq> []" "8 \<le> max_prefix (af_of ''10.0.0.0'')"
    "af_of ''10.0.0.0'' = AF_INET \<longrightarrow> (8 :: nat) \<noteq> 0" "demo_pton (af_of ''10.0.0.0'') ''10.0.0.0'' = Some [10, 0, 0, 0]"
    by (simp_all add: demo_addr demo_pton_def max_prefix_def)
  have "same_prefix 8 [10, 0, 0, 0] [10, 1, 2, 3]" by (simp add: same_prefix_def nbit_def)
  then show ?thesis
    unfolding c [symmetric]
    by (intro ospec_mono [OF exclude_cidr_semantics [OF empty_excludes_nets demo_pton_ok calm_env_ok(1) calm_env_ok(1) s i]])
      (auto simp: demo_addr)
qed

text \<open>
  The IPv4 test \<^verbatim>\<open>(net & mask) == (ip & mask)\<close> with the mask \<^verbatim>\<open>htonl(0xffffffff << (32 - prefix))\<close>, on
  words as a little-endian machine holds them, compares exactly the first \<^verbatim>\<open>prefix\<close> bits of the
  addresses in network order.
\<close>

theorem ipv4_mask_is_prefix:
  assumes "length a = 4" and "length b = 4" and "1 \<le> p" and "p \<le> 32"
  shows "exclude_make_entry nd AF_INET a p = Ret (ER_INET (word_le a) (ipv4_mask p))
    \<and> (exclude_ipv4_in_net (word_le a) (ipv4_mask p) (word_le b) = RETVAL_OK \<longleftrightarrow> same_prefix (unat p) a b)"
proof -
  have "unat (32 - p) = 32 - unat p" "1 \<le> unat p" using assms(3,4) by (auto simp: word_le_nat_alt unat_sub)
  then have "\<not> 32 - p \<ge> 32" by (simp add: word_le_nat_alt)
  then show ?thesis
    using ipv4_in_net_prefix [OF assms(1,2,4)] by (simp add: exclude_make_entry_def ipv4_mask_def)
qed

theorem ipv4_mask_is_prefix_witness:
  "exclude_ipv4_in_net (word_le [192, 168, 7, 0]) (ipv4_mask 22) (word_le [192, 168, 5, 9]) = RETVAL_OK"
proof -
  have "same_prefix (unat (22 :: u32)) [192, 168, 7, 0] [192, 168, 5, 9]"
    by (simp add: same_prefix_def lessThan_nat_numeral lessThan_Suc nbit_def)
  moreover have "exclude_ipv4_in_net (word_le [192, 168, 7, 0]) (ipv4_mask 22) (word_le [192, 168, 5, 9]) = RETVAL_OK \<longleftrightarrow>
      same_prefix (unat (22 :: u32)) [192, 168, 7, 0] [192, 168, 5, 9]"
    using ipv4_mask_is_prefix [of "[192, 168, 7, 0]" "[192, 168, 5, 9]" 22] by simp
  ultimately show ?thesis by blast
qed

text \<open>
  The IPv6 mask built byte by byte and the comparison that stops at the first differing byte decide
  the same: the first \<^verbatim>\<open>prefix\<close> bits agree. Neither leaves its arrays, for any prefix up to 128.
\<close>

theorem ipv6_mask_is_prefix:
  assumes "length a = 16" and "length b = 16" and "p \<le> 128"
  shows "returns (exclude_prefix_to_ipv6_mask nd p) (\<lambda>m. length m = 16 \<and>
    exclude_ipv6_in_net a m b = Ret (if same_prefix (unat p) a b then RETVAL_OK else RETVAL_ERR))"
proof -
  have "unat p \<le> 128" using assms(3) by (simp add: word_le_nat_alt)
  then show ?thesis
    by (intro ospec_mono [OF prefix_to_ipv6_mask_spec [OF assms(3)]])
      (auto simp: ipv6_in_net_prefix assms ipv6_mask_ok_def)
qed

theorem ipv6_mask_is_prefix_witness:
  "returns (exclude_prefix_to_ipv6_mask False 10) (\<lambda>m.
    exclude_ipv6_in_net ([0xfe, 0x80] @ replicate 14 0) m ([0xfe, 0xbf] @ replicate 14 7) = Ret RETVAL_OK)"
proof -
  have "same_prefix (unat (10 :: u32)) ([0xfe, 0x80] @ replicate 14 0) ([0xfe, 0xbf] @ replicate 14 7)"
    by (simp add: same_prefix_def lessThan_nat_numeral lessThan_Suc nbit_def)
  then show ?thesis
    by (intro ospec_mono [OF ipv6_mask_is_prefix [of "[0xfe, 0x80] @ replicate 14 0" "[0xfe, 0xbf] @ replicate 14 7" 10 False]])
      auto
qed

text \<open>
  C32. Reading an exclude file replaces the list: afterwards it has one network for each line that is not
  a comment and can be parsed and converted, and nothing of the list before. Lines with an error are
  skipped without effect.
\<close>

theorem exclude_readfile_replaces:
  assumes "exclude_nets N st" and "pton_ok pton" and "\<And>n. sys_ok (es n)" and "fp \<noteq> []"
    and "fs fp = Some content" and "list_all (line_safe pton) (fgets_lines MAX_EXCLUDE_LINE_LENGTH content)"
  shows "returns (exclude_readfile_thread es pton fs fp st)
    (exclude_nets (mset (List.map_filter (line_net pton) (fgets_lines MAX_EXCLUDE_LINE_LENGTH content))))"
  using assms by (rule exclude_readfile_thread_spec)

definition demo_exclude_file :: string where
  "demo_exclude_file = ''# hosts'' @ [CHR 0x0A] @ ''10.0.0.0/8'' @ [CHR 0x0A] @ ''nonsense'' @ [CHR 0x0A]"

lemma demo_exclude_lines:
  "fgets_lines MAX_EXCLUDE_LINE_LENGTH demo_exclude_file =
     [''# hosts'' @ [CHR 0x0A], ''10.0.0.0/8'' @ [CHR 0x0A], ''nonsense'' @ [CHR 0x0A]]"
  by (simp add: fgets_lines.simps fgets_def strchr_def demo_exclude_file_def MAX_EXCLUDE_LINE_LENGTH_def upt_conv_Cons)

lemma demo_exclude_parse:
  "exclude_line (''# hosts'' @ [CHR 0x0A]) = None"
  "exclude_line (''10.0.0.0/8'' @ [CHR 0x0A]) = Some ''10.0.0.0/8''"
  "exclude_line (''nonsense'' @ [CHR 0x0A]) = Some ''nonsense''"
  "exclude_parse_ip True ''10.0.0.0/8'' = Ret (Some (''10.0.0.0'', 8, AF_INET))"
  "exclude_parse_ip True ''nonsense'' = Ret (Some (''nonsense'', 32, AF_INET))"
  by (simp_all add: exclude_line_def cstr_def exclude_parse_ip_def strchr_def upt_conv_Cons atoi_def isspace_def
      isdigit_def digits_value_def)

theorem exclude_readfile_replaces_witness:
  "returns (exclude_readfile_thread (\<lambda>_. calm_env) demo_pton (\<lambda>_. Some demo_exclude_file) ''/etc/exclude'' empty_excludes)
    (exclude_nets {#(AF_INET, [10, 0, 0, 0], 8)#})"
proof -
  have "list_all (line_safe demo_pton) (fgets_lines MAX_EXCLUDE_LINE_LENGTH demo_exclude_file)"
    by (simp add: demo_exclude_lines line_safe_def demo_exclude_parse [simplified] demo_pton_def)
  moreover have "List.map_filter (line_net demo_pton) (fgets_lines MAX_EXCLUDE_LINE_LENGTH demo_exclude_file) =
      [(AF_INET, [10, 0, 0, 0], 8)]"
    by (simp add: demo_exclude_lines line_net_def demo_exclude_parse [simplified] demo_pton_def List.map_filter_def)
  ultimately show ?thesis
    using exclude_readfile_replaces [of "{#}" empty_excludes demo_pton "\<lambda>_. calm_env" "''/etc/exclude''"
        "\<lambda>_. Some demo_exclude_file" demo_exclude_file] by simp
qed

text \<open>
  An entry that cannot be parsed or whose address the system does not understand is reported as an
  error and changes nothing, whatever the other system calls answer.
\<close>

theorem exclude_add_rejects:
  assumes "exclude_parse_ip (buf_ok e) s = Ret None \<or>
      (\<exists>ip p f. exclude_parse_ip (buf_ok e) s = Ret (Some (ip, p, f)) \<and> pton f ip = None)"
  shows "exclude_add e pton s st = Ret (RETVAL_ERR, st)"
  using assms by (rule exclude_add_reject)

theorem exclude_add_rejects_witness: "exclude_add calm_env demo_pton ''nonsense'' empty_excludes = Ret (RETVAL_ERR, empty_excludes)"
  by (rule exclude_add_rejects) (simp add: demo_exclude_parse demo_pton_def)

text \<open>
  The entry \<^verbatim>\<open>address/0\<close> of the IPv4 family, which passes the check of the prefix, makes \<^verbatim>\<open>exclude_add\<close>
  shift a 32 bit value by 32, which C leaves undefined.
\<close>

theorem exclude_ipv4_prefix_zero:
  assumes "exclude_nets N st" and "sys_ok e" and "CHR ''/'' \<notin> set s" and "s \<noteq> []" and "af_of s = AF_INET"
    and "pton AF_INET s = Some a"
  shows "exclude_add e pton (cidr s 0) st = Undef"
proof -
  have e: "buf_ok e = True" "lock_rv e = 0" "malloc_ok e" "realloc_ok e = True" using assms(2) by (auto simp: sys_ok_def)
  have parse: "exclude_parse_ip True (cidr s 0) = Ret (Some (s, 0, AF_INET))"
    using exclude_parse_cidr [OF assms(3,4), of 0] assms(5) by simp
  have lay: "ev.lay st" using assms(1) by (simp add: exclude_nets_def)
  obtain pos st1 where "alloc_slot exclude_find_free (exclude_vector_grow True) st = Ret (pos, st1)"
    using ev.alloc_slot_returns [OF lay] by (auto simp: returns_iff)
  with e parse assms(6) show ?thesis
    by (simp add: exclude_add_def with_mutex_def exclude_make_entry_def)
qed

theorem exclude_ipv4_prefix_zero_witness: "exclude_add calm_env demo_pton (''10.0.0.0'' @ ''/0'') empty_excludes = Undef"
proof -
  have c: "cidr ''10.0.0.0'' 0 = ''10.0.0.0'' @ ''/0''" by code_simp
  show ?thesis
    unfolding c [symmetric]
    by (rule exclude_ipv4_prefix_zero [OF empty_excludes_nets calm_env_ok(1) demo_addr(1-3), of demo_pton "[10, 0, 0, 0]"])
      (simp add: demo_pton_def)
qed

end
