(* ===== verification/Worker.thy ===== *)
theory Worker
  imports Netshared Exclude Tls
begin

section \<open>The server's worker thread (network/srv/worker.c)\<close>

text \<open>
  One connection of a remote agent, from the semaphore to the close. What the network delivers is a
  list of events per call site: the results of \<^verbatim>\<open>select\<close>, the answers of the TLS library (\<open>None\<close> in a
  build without it), the answers of the shutdown dialogue, and the results of the successive reads (\<^verbatim>\<open>SSL_read\<close>, or \<^verbatim>\<open>net_read\<close> in a build with \<^verbatim>\<open>NOSSL\<close>: \<open>net_receive\<close> turns the byte stream of
  such a connection into these results). The lemmas show which commands change the host table and
  how, that the semaphore is given back on every path that took it, and what an ill-formed command
  does.
\<close>

subsection \<open>Data\<close>

definition FD_SETSIZE :: nat where "FD_SETSIZE = 1024"

datatype select_event = SelErr int | SelTimeout | SelReady bool

datatype recv_event = RecvErr | RecvBytes "u8 list"

record worker_env =
  we_sem_rv :: int
  we_post_rv :: int
  we_select :: "select_event list"
  we_fd :: int
  we_tls :: "tls_answers option"
  we_shutdown :: "int list"
  we_recv :: "recv_event list"
  we_sys :: "nat \<Rightarrow> sysenv"
  we_pton :: inet_pton

record worker_result =
  wr_records :: records_st
  wr_posted :: bool
  wr_handled :: nat
  wr_closed :: "tls_conn option"

subsection \<open>One command\<close>

text \<open>What the worker makes of a received record before it stores it.\<close>

definition adopt_record :: "string \<Rightarrow> hostrecord \<Rightarrow> hostrecord" where
  "adopt_record host hr = hr\<lparr>hr_remove := 0, hr_processed := 0,
     hr_origin := (strncpy host IPADDR_SIZE)[IPADDR_SIZE - 1 := NUL]\<rparr>"

text \<open>
  The array \<^verbatim>\<open>host\<close>, which \<^verbatim>\<open>getnameinfo\<close> fills with the numeric name of the peer. Its result is not looked at:
  after a failure (\<open>None\<close>) the array is uninitialised, and reading it is undefined.
\<close>

definition read_host :: "string option \<Rightarrow> string outcome" where
  "read_host host = (case host of None \<Rightarrow> Undef | Some h \<Rightarrow> Ret h)"

lemma read_host_Some [simp]: "read_host (Some h) = Ret h"
  by (simp add: read_host_def)

text \<open>
  The \<^verbatim>\<open>switch\<close> on the command: the new table and whether the loop goes on. The address is used as a
  string by the exclusion test, by the search and by the messages, which name the peer as well.
\<close>

definition worker_command ::
  "sysenv \<Rightarrow> config \<Rightarrow> inet_pton \<Rightarrow> string option \<Rightarrow> exclude_st \<Rightarrow> u32 \<Rightarrow> hostrecord \<Rightarrow> records_st \<Rightarrow> (bool \<times> records_st) outcome" where
  "worker_command e CONFIG pton host ex rcommand hr st =
     (if rcommand = ADD
      then obind (if cfg_remote_authoritative CONFIG = 0
                  then obind (c_string (hr_ipaddr hr)) (\<lambda>ip.
                         obind (exclude_isexcluded e pton ip ex) (\<lambda>rv. Ret (rv = RETVAL_OK)))
                  else Ret False) (\<lambda>excluded.
             obind (read_host host) (\<lambda>peer.
             if excluded then Ret (True, st)
             else
               (let hr' = adopt_record peer hr in
                c_assert (ndebug e) (hr_action_threshold hr' <=s hr_occurrences hr')
                  (obind (records_add_record e hr' st) (\<lambda>(rv, st').
                     obind (c_string (hr_ipaddr hr')) (\<lambda>_. Ret (True, st')))))))
      else if rcommand = REMOVE then Ret (True, st)
      else if rcommand = INFORMATION then Ret (True, st)
      else Ret (False, st))"

text \<open>The read loop; no more results means the peer has closed the connection (\<^verbatim>\<open>nread == 0\<close>).\<close>

fun worker_loop ::
  "bool \<Rightarrow> (nat \<Rightarrow> sysenv) \<Rightarrow> config \<Rightarrow> inet_pton \<Rightarrow> string option \<Rightarrow> exclude_st \<Rightarrow> nat \<Rightarrow> recv_event list \<Rightarrow> records_st \<Rightarrow>
     (records_st \<times> nat) outcome" where
  "worker_loop nd es CONFIG pton host ex k [] st = Ret (st, k)"
| "worker_loop nd es CONFIG pton host ex k (RecvErr # evs) st = Ret (st, k)"
| "worker_loop nd es CONFIG pton host ex k (RecvBytes buff # evs) st =
     (if buff = [] then Ret (st, k)
      else if length buff \<noteq> REMOTE_COMMAND_SIZE then Ret (st, k)
      else obind (net_buff_to_command nd buff) (\<lambda>(n, rcommand, hr).
        obind (worker_command (es k) CONFIG pton host ex rcommand hr st) (\<lambda>(go, st').
          if go then worker_loop nd es CONFIG pton host ex (Suc k) evs st' else Ret (st', k))))"

text \<open>The \<^verbatim>\<open>select\<close> loop: the answer that ends it, \<open>None\<close> while it still waits.\<close>

fun worker_select :: "select_event list \<Rightarrow> select_event option" where
  "worker_select [] = None"
| "worker_select (SelErr e # evs) = (if e = EINTR then worker_select evs else Some (SelErr e))"
| "worker_select (SelTimeout # evs) = Some SelTimeout"
| "worker_select (SelReady isset # evs) = Some (SelReady isset)"

text \<open>
  The end of the thread: the semaphore has been posted or not, then the shutdown dialogue, whose error
  message names the peer, and \<^verbatim>\<open>close\<close>. \<open>wr_closed\<close> has the objects left, \<open>None\<close> while the dialogue goes on.
\<close>

definition worker_end :: "worker_env \<Rightarrow> string option \<Rightarrow> tls_conn \<Rightarrow> bool \<Rightarrow> records_st \<Rightarrow> nat \<Rightarrow> worker_result option outcome" where
  "worker_end e host conn posted st k =
     obind (if tc_ssl conn \<and> ssl_shutdown (we_shutdown e) = Some (- 1) then obind (read_host host) (\<lambda>_. Ret ()) else Ret ()) (\<lambda>_.
       Ret (Some \<lparr>wr_records = st, wr_posted = (posted \<and> we_post_rv e = 0), wr_handled = k,
                  wr_closed = tls_close (we_shutdown e) conn\<rparr>))"

text \<open>\<^verbatim>\<open>FD_SET\<close> of a descriptor the set cannot hold is undefined; nothing keeps the descriptor below \<^verbatim>\<open>FD_SETSIZE\<close>.\<close>

definition network_server_worker ::
  "bool \<Rightarrow> worker_env \<Rightarrow> config \<Rightarrow> string option \<Rightarrow> exclude_st \<Rightarrow> records_st \<Rightarrow> worker_result option outcome" where
  "network_server_worker nd e CONFIG host ex st =
     (if we_sem_rv e \<noteq> 0 then worker_end e host tls_null False st 0
      else if we_fd e < 0 \<or> int FD_SETSIZE \<le> we_fd e then Undef
      else (case worker_select (we_select e) of
          None \<Rightarrow> Ret None
        | Some (SelErr saverrno) \<Rightarrow> worker_end e host tls_null True st 0
        | Some SelTimeout \<Rightarrow> obind (read_host host) (\<lambda>_. worker_end e host tls_null True st 0)
        | Some (SelReady isset) \<Rightarrow>
            if \<not> isset then worker_end e host tls_null True st 0
            else obind (case we_tls e of None \<Rightarrow> Ret (RETVAL_OK, tls_null) | Some ta \<Rightarrow> netssl_server nd ta (we_fd e) tls_null) (\<lambda>(retval, conn).
                 if retval \<noteq> RETVAL_OK then obind (read_host host) (\<lambda>_. worker_end e host conn True st 0)
                 else obind (worker_loop nd (we_sys e) CONFIG (we_pton e) host ex 0 (we_recv e) st) (\<lambda>(st', k).
                   worker_end e host conn True st' k))))"

text \<open>The results of \<open>n\<close> successive \<^verbatim>\<open>net_read\<close> calls in a build without TLS.\<close>

fun net_receive :: "nat \<Rightarrow> read_event list \<Rightarrow> recv_event list option" where
  "net_receive 0 evs = Some []"
| "net_receive (Suc n) evs = (case net_read evs REMOTE_COMMAND_SIZE of
       None \<Rightarrow> None
     | Some (rv, got, err, evs') \<Rightarrow>
         if rv = RETVAL_ERR then Some [RecvErr]
         else map_option ((#) (RecvBytes got)) (net_receive n evs'))"

subsection \<open>What a session does to the table\<close>

text \<open>A command whose address the code can use, and one that has enough occurrences besides.\<close>

definition plain_remote :: "hostrecord \<Rightarrow> bool" where
  "plain_remote hr \<longleftrightarrow> wf_hostrecord hr \<and> 3 \<le> length (ip_of hr) \<and> CHR ''/'' \<notin> set (ip_of hr) \<and> last (ip_of hr) \<noteq> CHR 0x0A"

definition good_remote :: "hostrecord \<Rightarrow> bool" where
  "good_remote hr \<longleftrightarrow> wf_hostrecord hr \<and> hr_action_threshold hr <=s hr_occurrences hr
     \<and> 3 \<le> length (ip_of hr) \<and> CHR ''/'' \<notin> set (ip_of hr) \<and> last (ip_of hr) \<noteq> CHR 0x0A"

definition is_excluded :: "inet_pton \<Rightarrow> network multiset \<Rightarrow> string \<Rightarrow> bool" where
  "is_excluded pton N ip \<longleftrightarrow> (\<exists>a. pton (af_of ip) ip = Some a \<and> (\<exists>n \<in># N. net_covers n (af_of ip) a))"

definition remote_effect :: "config \<Rightarrow> inet_pton \<Rightarrow> network multiset \<Rightarrow> string \<Rightarrow> i64 \<Rightarrow> hostrecord \<Rightarrow>
    (string \<Rightarrow> hostrecord option) \<Rightarrow> string \<Rightarrow> hostrecord option" where
  "remote_effect CONFIG pton N host t hr m =
     (if cfg_remote_authoritative CONFIG = 0 \<and> is_excluded pton N (ip_of hr) then m
      else host_merge t (hr\<lparr>hr_remove := 0, hr_processed := 0, hr_origin := (strncpy host IPADDR_SIZE)[IPADDR_SIZE - 1 := NUL]\<rparr>) m)"

lemma remote_effect_adopt: "remote_effect CONFIG pton N host t hr m =
    (if cfg_remote_authoritative CONFIG = 0 \<and> is_excluded pton N (ip_of hr) then m
     else host_merge t (adopt_record host hr) m)"
  by (simp only: remote_effect_def adopt_record_def)

lemma adopt_record_wf:
  "wf_hostrecord hr \<Longrightarrow> wf_hostrecord (adopt_record host hr)" "ip_of (adopt_record host hr) = ip_of hr"
  "hr_occurrences (adopt_record host hr) = hr_occurrences hr"
  "hr_action_threshold (adopt_record host hr) = hr_action_threshold hr"
  using strncpy_terminated [of IPADDR_SIZE host]
  by (simp_all add: adopt_record_def wf_hostrecord_def ip_of_def IPADDR_SIZE_def)

lemma good_remote_plain: "good_remote hr \<longleftrightarrow> plain_remote hr \<and> hr_action_threshold hr <=s hr_occurrences hr"
  by (auto simp: good_remote_def plain_remote_def)

text \<open>The assertion on a received record is evaluated unless the build has none or the record is dropped before.\<close>

definition forged_stops :: "sysenv \<Rightarrow> config \<Rightarrow> inet_pton \<Rightarrow> network multiset \<Rightarrow> hostrecord \<Rightarrow> bool" where
  "forged_stops e CONFIG pton N hr \<longleftrightarrow> hr_occurrences hr <s hr_action_threshold hr \<and> \<not> ndebug e
     \<and> \<not> (cfg_remote_authoritative CONFIG = 0 \<and> is_excluded pton N (ip_of hr))"

lemma worker_command_add:
  assumes inv: "records_inv st" and N: "exclude_nets N ex" and pt: "pton_ok pton" and ok: "sys_ok e" and hr: "plain_remote hr"
    and go: "\<not> forged_stops e CONFIG pton N hr"
  shows "returns (worker_command e CONFIG pton (Some host) ex ADD hr st) (\<lambda>(go, st'). go \<and> records_inv st'
    \<and> records_map st' = remote_effect CONFIG pton N host (now e) hr (records_map st))"
proof -
  have wf: "wf_hostrecord hr" and t: "terminated (hr_ipaddr hr)"
    using hr by (auto simp: plain_remote_def wf_hostrecord_def)
  have ex: "exclude_isexcluded e pton (ip_of hr) ex = Ret (if is_excluded pton N (ip_of hr) then RETVAL_OK else RETVAL_ERR)"
    using hr exclude_isexcluded_spec [OF N pt ok, of "ip_of hr"] by (simp add: plain_remote_def is_excluded_def)
  have cs: "c_string (hr_ipaddr hr) = Ret (ip_of hr)" using t by (simp add: c_string_def ip_of_def)
  have adopted: "hr_ipaddr (adopt_record host hr) = hr_ipaddr hr" by (simp add: adopt_record_def)
  obtain st' where st': "records_add_record e (adopt_record host hr) st = Ret (RETVAL_OK, st')" "records_inv st'"
      "records_map st' = host_merge (now e) (adopt_record host hr) (records_map st)"
    using ht.merge_law [OF inv adopt_record_wf(1) [OF wf] ok] unfolding returns_iff by auto
  have pass: "c_assert (ndebug e) (hr_action_threshold (adopt_record host hr) <=s hr_occurrences (adopt_record host hr)) m = m"
    if "\<not> (cfg_remote_authoritative CONFIG = 0 \<and> is_excluded pton N (ip_of hr))" for m :: "(bool \<times> records_st) outcome"
    using that go by (auto simp: forged_stops_def c_assert_def adopt_record_wf word_sle_eq word_sless_alt)
  show ?thesis
    using st' inv pass by (auto simp: worker_command_def cs ex adopted Let_def remote_effect_adopt)
qed

text \<open>
  A session of well-formed \<^verbatim>\<open>ADD\<close> commands: each is merged into the table unless its address is
  excluded, in the order of arrival.
\<close>

fun remote_effects :: "config \<Rightarrow> inet_pton \<Rightarrow> network multiset \<Rightarrow> string \<Rightarrow> (nat \<Rightarrow> sysenv) \<Rightarrow> nat \<Rightarrow> hostrecord list \<Rightarrow>
    (string \<Rightarrow> hostrecord option) \<Rightarrow> string \<Rightarrow> hostrecord option" where
  "remote_effects CONFIG pton N host es k [] m = m"
| "remote_effects CONFIG pton N host es k (hr # hrs) m =
     remote_effects CONFIG pton N host es (Suc k) hrs (remote_effect CONFIG pton N host (now (es k)) hr m)"

lemma length_wire: "wf_hostrecord r \<Longrightarrow> length (wire c r) = REMOTE_COMMAND_SIZE"
  by (simp add: wire_def wf_hostrecord_def IPADDR_SIZE_def REMOTE_COMMAND_SIZE_def)

lemma wire_nonempty [simp]: "wire c r \<noteq> []"
proof -
  have "be32 c \<noteq> []" using length_be(1) [of c] by (metis list.size(3) zero_neq_numeral)
  then show ?thesis by (simp add: wire_def)
qed

lemma net_buff_to_command_ok:
  "wf_hostrecord r \<Longrightarrow> net_buff_to_command nd (wire c r) = Ret (REMOTE_COMMAND_SIZE, c, r)"
  by (simp add: net_buff_to_command_wire wf_hostrecord_def)

lemma remote_effects_append: "remote_effects CONFIG pton N host es k (hrs @ hrs') m =
    remote_effects CONFIG pton N host es (k + length hrs) hrs' (remote_effects CONFIG pton N host es k hrs m)"
  by (induction hrs arbitrary: k m) simp_all

text \<open>The commands at the head of the stream, whatever follows.\<close>

lemma worker_loop_prefix:
  assumes inv: "records_inv st" and N: "exclude_nets N ex" and pt: "pton_ok pton" and ok: "\<And>i. sys_ok (es i)"
    and hrs: "\<forall>hr \<in> set hrs. plain_remote hr" "\<forall>i < length hrs. \<not> forged_stops (es (k + i)) CONFIG pton N (hrs ! i)"
  shows "\<exists>st'. records_inv st' \<and> records_map st' = remote_effects CONFIG pton N host es k hrs (records_map st)
    \<and> (\<forall>evs. worker_loop nd es CONFIG pton (Some host) ex k (map (\<lambda>hr. RecvBytes (wire ADD hr)) hrs @ evs) st
         = worker_loop nd es CONFIG pton (Some host) ex (k + length hrs) evs st')"
  using inv hrs
proof (induction hrs arbitrary: st k)
  case Nil
  then show ?case by auto
next
  case (Cons hr hrs)
  then have hr: "plain_remote hr" "wf_hostrecord hr" "\<not> forged_stops (es k) CONFIG pton N hr"
    by (auto simp: plain_remote_def dest: spec [of _ 0])
  obtain st1 where st1: "worker_command (es k) CONFIG pton (Some host) ex ADD hr st = Ret (True, st1)" "records_inv st1"
      "records_map st1 = remote_effect CONFIG pton N host (now (es k)) hr (records_map st)"
    using worker_command_add [OF Cons.prems(1) N pt ok [of k] hr(1,3), of host] unfolding returns_iff by auto
  have "\<forall>i < length hrs. \<not> forged_stops (es (Suc k + i)) CONFIG pton N (hrs ! i)"
    using Cons.prems(3) by (auto dest: spec [of _ "Suc _"])
  from Cons.IH [OF st1(2) _ this] Cons.prems(2) st1 hr show ?case
    by (simp add: length_wire net_buff_to_command_ok)
qed

lemma worker_loop_adds:
  assumes "records_inv st" and "exclude_nets N ex" and "pton_ok pton" and "\<And>i. sys_ok (es i)"
    and "\<forall>hr \<in> set hrs. plain_remote hr" and "\<forall>i < length hrs. \<not> forged_stops (es (k + i)) CONFIG pton N (hrs ! i)"
  shows "returns (worker_loop nd es CONFIG pton (Some host) ex k (map (\<lambda>hr. RecvBytes (wire ADD hr)) hrs) st)
    (\<lambda>(st', k'). records_inv st' \<and> k' = k + length hrs
      \<and> records_map st' = remote_effects CONFIG pton N host es k hrs (records_map st))"
proof -
  obtain st' where st': "records_inv st'" "records_map st' = remote_effects CONFIG pton N host es k hrs (records_map st)"
      "\<And>evs. worker_loop nd es CONFIG pton (Some host) ex k (map (\<lambda>hr. RecvBytes (wire ADD hr)) hrs @ evs) st
         = worker_loop nd es CONFIG pton (Some host) ex (k + length hrs) evs st'"
    using worker_loop_prefix [OF assms, of host nd] by blast
  from st'(1,2) st'(3) [of "[]"] show ?thesis by simp
qed

lemma good_remote_goes: "good_remote hr \<Longrightarrow> plain_remote hr \<and> \<not> forged_stops e CONFIG pton N hr"
  by (auto simp: good_remote_plain forged_stops_def word_sle_eq word_sless_alt)

text \<open>The same for commands that are good, as other agents send them.\<close>

lemma worker_command_good:
  assumes "records_inv st" and "exclude_nets N ex" and "pton_ok pton" and "sys_ok e" and "good_remote hr"
  shows "returns (worker_command e CONFIG pton (Some host) ex ADD hr st) (\<lambda>(go, st'). go \<and> records_inv st'
    \<and> records_map st' = remote_effect CONFIG pton N host (now e) hr (records_map st))"
  using worker_command_add [OF assms(1-4)] good_remote_goes [OF assms(5)] by blast

lemma worker_loop_good:
  assumes "records_inv st" and "exclude_nets N ex" and "pton_ok pton" and "\<And>i. sys_ok (es i)" and "\<forall>hr \<in> set hrs. good_remote hr"
  shows "returns (worker_loop nd es CONFIG pton (Some host) ex k (map (\<lambda>hr. RecvBytes (wire ADD hr)) hrs) st)
    (\<lambda>(st', k'). records_inv st' \<and> k' = k + length hrs
      \<and> records_map st' = remote_effects CONFIG pton N host es k hrs (records_map st))"
  by (rule worker_loop_adds [OF assms(1-4)]) (use assms(5) good_remote_goes in auto)

text \<open>Reading a byte stream without TLS delivers the commands whatever the chunks it arrives in.\<close>

lemma net_receive_wires:
  assumes "payload evs = concat (map (wire ADD) hrs) @ rest" and "\<forall>hr \<in> set hrs. wf_hostrecord hr"
  shows "net_receive (length hrs) evs = Some (map (\<lambda>hr. RecvBytes (wire ADD hr)) hrs)"
  using assms
proof (induction hrs arbitrary: evs)
  case Nil
  then show ?case by simp
next
  case (Cons hr hrs)
  have len: "length (wire ADD hr) = REMOTE_COMMAND_SIZE" using Cons.prems by (simp add: length_wire)
  have "REMOTE_COMMAND_SIZE \<le> length (payload evs)" using Cons.prems(1) len by simp
  from net_read_full [OF this] obtain err evs' where
    r: "net_read evs REMOTE_COMMAND_SIZE = Some (int REMOTE_COMMAND_SIZE, take REMOTE_COMMAND_SIZE (payload evs), err, evs')"
    and p: "payload evs' = drop REMOTE_COMMAND_SIZE (payload evs)" by blast
  have "take REMOTE_COMMAND_SIZE (payload evs) = wire ADD hr" "payload evs' = concat (map (wire ADD) hrs) @ rest"
    using Cons.prems(1) len p by simp_all
  with Cons.IH [of evs'] Cons.prems(2) r show ?case by simp
qed

text \<open>On every path that took the semaphore it is posted, and nothing else is touched without data.\<close>

lemma network_server_worker_sem:
  "network_server_worker nd e CONFIG host ex st = Ret (Some r) \<Longrightarrow> wr_posted r \<longleftrightarrow> we_sem_rv e = 0 \<and> we_post_rv e = 0"
  by (auto simp: network_server_worker_def worker_end_def obind_eq_Ret split: if_splits option.splits select_event.splits)

text \<open>A record with fewer occurrences than its threshold that comes to the assertion, and one whose address has no end.\<close>

lemma worker_command_forged:
  assumes "exclude_nets N ex" and "pton_ok pton" and "sys_ok e" and "plain_remote hr" and "forged_stops e CONFIG pton N hr"
  shows "worker_command e CONFIG pton (Some host) ex ADD hr st = Abort"
proof -
  have "exclude_isexcluded e pton (ip_of hr) ex = Ret (if is_excluded pton N (ip_of hr) then RETVAL_OK else RETVAL_ERR)"
    using assms(4) exclude_isexcluded_spec [OF assms(1-3), of "ip_of hr"] by (simp add: plain_remote_def is_excluded_def)
  moreover have "c_string (hr_ipaddr hr) = Ret (ip_of hr)"
    using assms(4) by (simp add: plain_remote_def wf_hostrecord_def c_string_def ip_of_def)
  ultimately show ?thesis
    using assms(5) by (auto simp: forged_stops_def worker_command_def Let_def c_assert_def adopt_record_wf word_sle_eq word_sless_alt)
qed

lemma worker_command_endless:
  "\<not> terminated (hr_ipaddr hr) \<Longrightarrow> cfg_remote_authoritative CONFIG = 0 \<Longrightarrow> worker_command e CONFIG pton host ex ADD hr st = Undef"
  by (simp add: worker_command_def c_string_def)

text \<open>A connection that is accepted and ready is its read loop, and then the end of the thread.\<close>

lemma worker_session:
  assumes "we_sem_rv e = 0" and "worker_select (we_select e) = Some (SelReady True)" and "tls_ready (we_tls e) (we_fd e)"
    and "tls_ok (we_tls e)" and "we_fd e < int FD_SETSIZE"
  shows "network_server_worker nd e CONFIG host ex st =
    obind (worker_loop nd (we_sys e) CONFIG (we_pton e) host ex 0 (we_recv e) st) (\<lambda>(st', k).
      worker_end e host (tls_open (we_tls e)) True st' k)"
proof -
  obtain c where "(case we_tls e of None \<Rightarrow> Ret (RETVAL_OK, tls_null) | Some ta \<Rightarrow> netssl_server nd ta (we_fd e) tls_null)
      = Ret (if tls_ok (we_tls e) then (RETVAL_OK, tls_open (we_tls e)) else (RETVAL_ERR, c))"
    by (rule netssl_server_null [OF assms(3)])
  with assms show ?thesis unfolding network_server_worker_def by (simp add: tls_ready_def)
qed

text \<open>Without the name of the peer no \<^verbatim>\<open>ADD\<close> command is handled.\<close>

lemma worker_command_unnamed: "worker_command e CONFIG pton None ex ADD hr st \<noteq> Ret r"
  by (auto simp: worker_command_def read_host_def obind_eq_Ret)

subsection \<open>Properties\<close>

definition demo_remote :: hostrecord where
  "demo_remote = demo_host\<lparr>hr_occurrences := 5\<rparr>"

lemma demo_remote_good [simp]: "good_remote demo_remote" "wf_hostrecord demo_remote" "ip_of demo_remote = ''10.0.0.1''"
proof -
  show wf: "wf_hostrecord demo_remote" "ip_of demo_remote = ''10.0.0.1''"
    using demo_host_wf by (simp_all add: demo_remote_def wf_hostrecord_def ip_of_def)
  have "hr_action_threshold demo_remote <=s hr_occurrences demo_remote"
    by (simp add: demo_remote_def demo_host_def fresh_record_def word_sle_eq)
  with wf show "good_remote demo_remote" by (simp add: good_remote_def)
qed

text \<open>
  A session in which a remote agent sends well-formed \<^verbatim>\<open>ADD\<close> commands: all are handled, in order,
  the semaphore is posted, and the TLS objects are freed when the shutdown dialogue ends. Each
  is ignored if its address is excluded and the server does not trust its peers, and otherwise merged
  into the table as a record whose origin is the peer and which is neither processed nor marked for
  removal by what the peer claims; no other entry of the table changes.
\<close>

theorem worker_session_adds:
  assumes "records_inv st" and "exclude_nets N ex" and "pton_ok (we_pton e)" and "\<And>i. sys_ok (we_sys e i)"
    and "\<forall>hr \<in> set hrs. good_remote hr" and "we_recv e = map (\<lambda>hr. RecvBytes (wire ADD hr)) hrs"
    and "we_sem_rv e = 0" and "we_post_rv e = 0" and "worker_select (we_select e) = Some (SelReady True)" and "tls_ready (we_tls e) (we_fd e)"
    and "tls_ok (we_tls e)" and "we_fd e < int FD_SETSIZE"
  shows "returns (network_server_worker nd e CONFIG (Some host) ex st) (\<lambda>r. case r of None \<Rightarrow> False | Some wr \<Rightarrow>
    wr_handled wr = length hrs \<and> wr_posted wr \<and> (wr_closed wr = Some tls_null \<longleftrightarrow> tls_done (we_tls e) (we_shutdown e)) \<and> records_inv (wr_records wr)
    \<and> records_map (wr_records wr) = remote_effects CONFIG (we_pton e) N host (we_sys e) 0 hrs (records_map st))"
proof -
  from worker_loop_good [of st N ex "we_pton e" "we_sys e" hrs nd CONFIG host 0, OF assms(1-5)]
  have "returns (worker_loop nd (we_sys e) CONFIG (we_pton e) (Some host) ex 0 (we_recv e) st)
    (\<lambda>(st', k'). records_inv st' \<and> k' = length hrs
      \<and> records_map st' = remote_effects CONFIG (we_pton e) N host (we_sys e) 0 hrs (records_map st))"
    unfolding assms(6) by (auto elim: ospec_mono)
  then show ?thesis
    unfolding worker_session [OF assms(7,9-12)]
    using assms(8,11) by (auto simp: ospec_obind worker_end_def tls_close_open elim!: ospec_mono)
qed

definition demo_session :: worker_env where
  "demo_session = \<lparr>we_sem_rv = 0, we_post_rv = 0, we_select = [SelErr EINTR, SelReady True], we_fd = 7,
     we_tls = Some \<lparr>ta_ctx = True, ta_new = True, ta_bio = True, ta_rv = 1\<rparr>, we_shutdown = [0, 1],
     we_recv = [RecvBytes (wire ADD demo_remote)], we_sys = (\<lambda>_. calm_env), we_pton = demo_pton\<rparr>"

theorem worker_session_adds_witness:
  "returns (network_server_worker False demo_session demo_config (Some ''192.0.2.7'') empty_excludes empty_records) (\<lambda>r. case r of
     None \<Rightarrow> False | Some wr \<Rightarrow> wr_handled wr = 1
       \<and> wr_closed wr = Some tls_null \<and> records_map (wr_records wr) = [''10.0.0.1'' \<mapsto> adopt_record ''192.0.2.7'' demo_remote])"
proof -
  have "\<not> is_excluded demo_pton {#} ''10.0.0.1''" by (simp add: is_excluded_def)
  then show ?thesis
    by (intro ospec_mono [OF worker_session_adds [of empty_records "{#}" empty_excludes demo_session "[demo_remote]" False demo_config "''192.0.2.7''"]])
      (auto simp: demo_session_def FD_SETSIZE_def tls_ready_def tls_ok_def tls_done_def remote_effect_adopt host_merge_record adopt_record_wf split: option.splits)
qed

text \<open>
  C25. Without TLS, the commands one agent writes are the commands the other reads: however the kernel cuts
  the byte stream into chunks and however often it interrupts the reading, the results of
  \<^verbatim>\<open>net_read\<close> are the commands, complete and in order.
\<close>

theorem stream_delivers_commands:
  assumes "payload evs = concat (map (wire ADD) hrs) @ rest" and "\<forall>hr \<in> set hrs. wf_hostrecord hr"
  shows "net_receive (length hrs) evs = Some (map (\<lambda>hr. RecvBytes (wire ADD hr)) hrs)"
  using assms by (rule net_receive_wires)

theorem stream_delivers_commands_witness:
  "net_receive 1 [RChunk (take 100 (wire ADD demo_host)), RErr EINTR, RChunk (drop 100 (wire ADD demo_host))]
     = Some [RecvBytes (wire ADD demo_host)]"
proof -
  have len: "length (wire ADD demo_host) = 144" using length_wire [of demo_host ADD] by (simp add: REMOTE_COMMAND_SIZE_def)
  then have "payload [RChunk (take 100 (wire ADD demo_host)), RErr EINTR, RChunk (drop 100 (wire ADD demo_host))]
      = concat (map (wire ADD) [demo_host]) @ []" by simp
  from stream_delivers_commands [OF this] show ?thesis by simp
qed

text \<open>
  On every path through the worker that has taken the connection semaphore, the semaphore is posted
  again, exactly when it was taken; and a connection that never delivers data changes nothing.
\<close>

theorem worker_semaphore:
  "network_server_worker nd e CONFIG host ex st = Ret (Some r) \<Longrightarrow>
     (wr_posted r \<longleftrightarrow> we_sem_rv e = 0 \<and> we_post_rv e = 0) \<and> (worker_select (we_select e) \<in> {Some SelTimeout, Some (SelReady False)} \<longrightarrow> wr_records r = st)"
  using network_server_worker_sem [of nd e CONFIG host ex st r]
  by (auto simp: network_server_worker_def worker_end_def obind_eq_Ret split: if_splits)

theorem worker_semaphore_witness:
  "network_server_worker False (demo_session\<lparr>we_select := [SelTimeout]\<rparr>) demo_config (Some ''192.0.2.7'') empty_excludes empty_records
     = Ret (Some \<lparr>wr_records = empty_records, wr_posted = True, wr_handled = 0, wr_closed = Some tls_null\<rparr>)
   \<and> wr_posted \<lparr>wr_records = empty_records, wr_posted = True, wr_handled = 0, wr_closed = Some tls_null\<rparr>"
proof -
  let ?r = "\<lparr>wr_records = empty_records, wr_posted = True, wr_handled = 0, wr_closed = Some tls_null\<rparr>"
  have run: "network_server_worker False (demo_session\<lparr>we_select := [SelTimeout]\<rparr>) demo_config (Some ''192.0.2.7'') empty_excludes empty_records
     = Ret (Some ?r)" by (simp add: network_server_worker_def worker_end_def demo_session_def FD_SETSIZE_def tls_close_none)
  with worker_semaphore [OF run] show ?thesis by (simp add: demo_session_def)
qed

text \<open>
  C40. What a peer can do to the server. A session delivers good commands, then one whose counts or address
  the peer has made up, then more good ones. (1) If its address field has no terminator and the server does not trust its peers
  (\<^verbatim>\<open>remote_authoritative\<close> is 0), the exclusion test reads past the end of the field. (2) If the address is sound but the
  record has fewer occurrences than its own threshold, the thread aborts the process, if the build has assertions and the
  record is not dropped as excluded by a server that does not trust its peers. (3) In every other case with a sound address the session is handled
  to its end, the made-up record merged like the others.
\<close>

theorem forged_record:
  assumes "records_inv st" and "exclude_nets N ex" and "pton_ok (we_pton e)" and "\<And>i. sys_ok (we_sys e i)"
    and "\<forall>hr \<in> set (hrs @ hrs'). good_remote hr"
    and "we_recv e = map (\<lambda>hr. RecvBytes (wire ADD hr)) (hrs @ bad # hrs')"
    and "we_sem_rv e = 0" and "we_post_rv e = 0" and "worker_select (we_select e) = Some (SelReady True)" and "tls_ready (we_tls e) (we_fd e)"
    and "tls_ok (we_tls e)" and "we_fd e < int FD_SETSIZE"
    and "length (hr_ipaddr bad) = IPADDR_SIZE" and "length (hr_origin bad) = IPADDR_SIZE"
  shows "(\<not> terminated (hr_ipaddr bad) \<and> cfg_remote_authoritative CONFIG = 0 \<longrightarrow>
      network_server_worker nd e CONFIG (Some host) ex st = Undef)
    \<and> (plain_remote bad \<longrightarrow>
      (if hr_occurrences bad <s hr_action_threshold bad \<and> \<not> ndebug (we_sys e (length hrs))
          \<and> \<not> (cfg_remote_authoritative CONFIG = 0 \<and> is_excluded (we_pton e) N (ip_of bad))
       then network_server_worker nd e CONFIG (Some host) ex st = Abort
       else returns (network_server_worker nd e CONFIG (Some host) ex st) (\<lambda>r. case r of None \<Rightarrow> False | Some wr \<Rightarrow>
         wr_handled wr = Suc (length hrs + length hrs') \<and> wr_posted wr \<and> records_inv (wr_records wr)
         \<and> records_map (wr_records wr) = remote_effects CONFIG (we_pton e) N host (we_sys e) 0 (hrs @ bad # hrs') (records_map st))))"
proof -
  let ?loop = "worker_loop nd (we_sys e) CONFIG (we_pton e) (Some host) ex"
  let ?more = "map (\<lambda>hr. RecvBytes (wire ADD hr)) hrs'"
  have plain: "\<forall>hr \<in> set (hrs @ hrs'). plain_remote hr" and goes: "\<And>i hr. hr \<in> set (hrs @ hrs') \<Longrightarrow> \<not> forged_stops (we_sys e i) CONFIG (we_pton e) N hr"
    using assms(5) good_remote_goes by blast+
  obtain st1 where st1: "records_inv st1" "\<And>evs. ?loop 0 (map (\<lambda>hr. RecvBytes (wire ADD hr)) hrs @ evs) st = ?loop (length hrs) evs st1"
    using worker_loop_prefix [of st N ex "we_pton e" "we_sys e" hrs 0 CONFIG host nd, OF assms(1-4)] plain goes by auto
  have len: "length (wire ADD bad) = REMOTE_COMMAND_SIZE"
    using assms(13,14) by (simp add: wire_def IPADDR_SIZE_def REMOTE_COMMAND_SIZE_def)
  have run: "network_server_worker nd e CONFIG (Some host) ex st =
      obind (obind (worker_command (we_sys e (length hrs)) CONFIG (we_pton e) (Some host) ex ADD bad st1) (\<lambda>(go, st').
          if go then ?loop (Suc (length hrs)) ?more st' else Ret (st', length hrs)))
        (\<lambda>(st', k). worker_end e (Some host) (tls_open (we_tls e)) True st' k)"
    unfolding worker_session [OF assms(7,9-12)] assms(6) map_append list.map st1(2)
    using len net_buff_to_command_wire [OF assms(14,13), of nd ADD] by simp
  have abort: "network_server_worker nd e CONFIG (Some host) ex st = Abort"
    if "plain_remote bad" "forged_stops (we_sys e (length hrs)) CONFIG (we_pton e) N bad"
    using worker_command_forged [OF assms(2,3) assms(4) that, of host st1] by (simp add: run)
  have fine: "returns (network_server_worker nd e CONFIG (Some host) ex st) (\<lambda>r. case r of None \<Rightarrow> False | Some wr \<Rightarrow>
         wr_handled wr = Suc (length hrs + length hrs') \<and> wr_posted wr \<and> records_inv (wr_records wr)
         \<and> records_map (wr_records wr) = remote_effects CONFIG (we_pton e) N host (we_sys e) 0 (hrs @ bad # hrs') (records_map st))"
    if "plain_remote bad" "\<not> forged_stops (we_sys e (length hrs)) CONFIG (we_pton e) N bad"
  proof -
    have "\<forall>hr \<in> set (hrs @ bad # hrs'). plain_remote hr"
      "\<forall>i < length (hrs @ bad # hrs'). \<not> forged_stops (we_sys e (0 + i)) CONFIG (we_pton e) N ((hrs @ bad # hrs') ! i)"
      using plain goes that by (auto simp: nth_append nth_Cons split: nat.splits)
    from worker_loop_adds [of st N ex "we_pton e" "we_sys e" "hrs @ bad # hrs'" 0 CONFIG nd host, OF assms(1-4) this]
    show ?thesis
      unfolding worker_session [OF assms(7,9-12)] assms(6)
      using assms(8) by (auto simp: ospec_obind worker_end_def elim!: ospec_mono)
  qed
  show ?thesis
    using abort fine worker_command_endless [of bad CONFIG "we_sys e (length hrs)" "we_pton e" "Some host" ex st1]
    by (auto simp: run forged_stops_def)
qed

definition forged_session :: "hostrecord \<Rightarrow> worker_env" where
  "forged_session bad = demo_session\<lparr>we_recv := [RecvBytes (wire ADD demo_remote), RecvBytes (wire ADD bad)]\<rparr>"

theorem forged_record_witness:
  "network_server_worker False (forged_session (demo_host\<lparr>hr_ipaddr := replicate 46 (CHR ''1'')\<rparr>)) demo_config (Some ''192.0.2.7'') empty_excludes empty_records = Undef
   \<and> network_server_worker False (forged_session demo_host) demo_config (Some ''192.0.2.7'') empty_excludes empty_records = Abort"
proof -
  let ?worse = "demo_host\<lparr>hr_ipaddr := replicate 46 (CHR ''1'')\<rparr>"
  have few: "hr_occurrences demo_host <s hr_action_threshold demo_host" by (simp add: demo_host_def fresh_record_def word_sless_alt)
  have len: "length (hr_ipaddr demo_host) = IPADDR_SIZE" "length (hr_origin demo_host) = IPADDR_SIZE"
      "length (hr_ipaddr ?worse) = IPADDR_SIZE" "length (hr_origin ?worse) = IPADDR_SIZE"
    using demo_host_wf(1) by (simp_all add: wf_hostrecord_def IPADDR_SIZE_def)
  have plain: "plain_remote demo_host" by (simp add: plain_remote_def)
  have out: "\<not> is_excluded demo_pton {#} ''10.0.0.1''" by (simp add: is_excluded_def)
  have sess: "we_recv (forged_session bad) = map (\<lambda>hr. RecvBytes (wire ADD hr)) ([demo_remote] @ bad # [])"
      "we_sem_rv (forged_session bad) = 0" "we_post_rv (forged_session bad) = 0" "worker_select (we_select (forged_session bad)) = Some (SelReady True)"
      "tls_ready (we_tls (forged_session bad)) (we_fd (forged_session bad))" "tls_ok (we_tls (forged_session bad))"
      "we_fd (forged_session bad) < int FD_SETSIZE" "pton_ok (we_pton (forged_session bad))" "sys_ok (we_sys (forged_session bad) i)"
      "we_pton (forged_session bad) = demo_pton" "we_sys (forged_session bad) i = calm_env" for bad i
    by (simp_all add: forged_session_def demo_session_def tls_ready_def tls_ok_def FD_SETSIZE_def)
  have good: "\<forall>hr \<in> set ([demo_remote] @ []). good_remote hr" by simp
  note f = forged_record [OF empty_records_inv(1) _ sess(8,9) good sess(1-7), of "{#}" empty_excludes]
  from f [OF _ len(3,4), of demo_config False "''192.0.2.7''"] f [OF _ len(1,2), of demo_config False "''192.0.2.7''"]
  show ?thesis using few plain out by (simp add: terminated_def sess(10,11))
qed

end
