(* ===== verification/Follow.thy ===== *)
theory Follow
  imports Worker
begin

section \<open>Following the log (follow.c) and matching its lines (regex.c)\<close>

text \<open>
  \<open>regex_do\<close> hands the captured address to the exclusion list and the host table; the PCRE library is
  the argument \<open>pcre\<close>, the offsets of the capture or \<open>None\<close>, with \<open>pcre_ok\<close> what its documentation
  promises. \<open>readtoeof\<close> is the loop that cuts the log into lines through the static buffer; \<open>follow\<close>
  is the polling loop, one iteration per observation of the file. The lemmas show that the buffer is
  never overrun, that the lines checked are those of the text whatever the pieces it is read in, and
  how each line changes the table.
\<close>

subsection \<open>Matching a line\<close>

type_synonym pcre_exec = "string \<Rightarrow> (nat \<times> nat) option"

definition pcre_ok :: "pcre_exec \<Rightarrow> bool" where
  "pcre_ok pcre \<longleftrightarrow> (\<forall>s so eo. pcre s = Some (so, eo) \<longrightarrow> so \<le> eo \<and> eo \<le> length s)"

text \<open>What \<^verbatim>\<open>pcre_compile\<close>, \<^verbatim>\<open>pcre_study\<close> and \<^verbatim>\<open>pcre_fullinfo\<close> answer for the configured expression.\<close>

record pcre_info =
  pc_compiled :: bool
  pc_study_ok :: bool
  pc_info_rv :: int
  pc_capturecount :: int

text \<open>\<^verbatim>\<open>regex_prepare\<close> sets \<^verbatim>\<open>regexp_compiled\<close> or ends the program.\<close>

definition regex_prepare :: "pcre_info \<Rightarrow> bool outcome" where
  "regex_prepare p =
     (if \<not> pc_compiled p then Exit 2
      else if \<not> pc_study_ok p then Exit 2
      else if pc_info_rv p \<noteq> 0 then Exit 2
      else if pc_capturecount p \<noteq> 1 then Exit 2
      else Ret True)"

text \<open>
  The local array \<^verbatim>\<open>match\<close>: zeroed, then \<^verbatim>\<open>strncpy\<close> of the capture. More than \<^verbatim>\<open>BUFFSIZE\<close> bytes would
  be written outside of it.
\<close>

definition regex_match :: "string \<Rightarrow> nat \<Rightarrow> nat \<Rightarrow> char list outcome" where
  "regex_match buff so eo =
     (if eo < so then Undef else memcpy_to (replicate BUFFSIZE NUL) 0 (strncpy (drop so buff) (eo - so)))"

definition regex_do ::
  "sysenv \<Rightarrow> config \<Rightarrow> pcre_info \<Rightarrow> pcre_exec \<Rightarrow> inet_pton \<Rightarrow> exclude_st \<Rightarrow> string \<Rightarrow> bool \<times> records_st \<Rightarrow> (bool \<times> records_st) outcome" where
  "regex_do e CONFIG info pcre pton ex buff rs = (case rs of (compiled, st) \<Rightarrow>
     obind (if \<not> compiled then regex_prepare info else Ret compiled) (\<lambda>compiled.
       case pcre buff of
         None \<Rightarrow> Ret (compiled, st)
       | Some (so, eo) \<Rightarrow>
           obind (regex_match buff so eo) (\<lambda>match.
           obind (c_string match) (\<lambda>m.
           obind (exclude_isexcluded e pton m ex) (\<lambda>rv.
             if rv \<noteq> 0
             then obind (records_add_ip e CONFIG m st) (\<lambda>(rv', st'). Ret (compiled, st'))
             else Ret (compiled, st))))))"

subsection \<open>Reading to the end of the file\<close>

text \<open>What one iteration of the loop sees: a byte, a read error, or the stop flag set by a signal.
  No more events means end of file.\<close>

datatype file_event = FChar char | FErr | FStop

record reader =
  rd_BUFF :: "char list"
  rd_buffpos :: nat

definition reader_start :: reader where
  "reader_start = \<lparr>rd_BUFF = replicate BUFFSIZE NUL, rd_buffpos = 0\<rparr>"

text \<open>The string handed to \<^verbatim>\<open>regex_do\<close> after the terminator has been stored.\<close>

definition check_buffer :: "(string \<Rightarrow> 's \<Rightarrow> 's outcome) \<Rightarrow> reader \<Rightarrow> 's \<Rightarrow> (reader \<times> 's) outcome" where
  "check_buffer f rd s =
     obind (write_at (rd_BUFF rd) (rd_buffpos rd) NUL) (\<lambda>b.
     obind (c_string b) (\<lambda>line.
     obind (f line s) (\<lambda>s'. Ret (rd\<lparr>rd_BUFF := b, rd_buffpos := 0\<rparr>, s'))))"

fun readtoeof :: "(string \<Rightarrow> 's \<Rightarrow> 's outcome) \<Rightarrow> file_event list \<Rightarrow> reader \<Rightarrow> 's \<Rightarrow> (bool \<times> reader \<times> 's) outcome" where
  "readtoeof f [] rd s = Ret (False, rd, s)"
| "readtoeof f (FStop # evs) rd s = Ret (True, rd, s)"
| "readtoeof f (FErr # evs) rd s = Ret (False, rd, s)"
| "readtoeof f (FChar c # evs) rd s =
     obind (write_at (rd_BUFF rd) (rd_buffpos rd) c) (\<lambda>b.
       let rd = rd\<lparr>rd_BUFF := b, rd_buffpos := rd_buffpos rd + 1\<rparr> in
       if rd_buffpos rd = BUFFSIZE - 1
       then obind (check_buffer f rd s) (\<lambda>(rd', s'). readtoeof f evs rd' s')
       else if c = CHR 0x0A
       then obind (check_buffer f rd s) (\<lambda>(rd', s'). readtoeof f evs rd' s')
       else readtoeof f evs rd s)"

subsection \<open>The polling loop\<close>

text \<open>
  One observation: \<^verbatim>\<open>stat\<close> (size and inode, or the file is gone), whether \<^verbatim>\<open>fopen\<close> and \<^verbatim>\<open>freopen\<close>
  would succeed, and what the reader would see.
\<close>

record observation =
  ob_stat :: "(int \<times> int) option"
  ob_fopen :: bool
  ob_freopen :: bool
  ob_data :: "file_event list"

record follow_st =
  fl_open :: bool
  fl_lastpos :: int
  fl_curpos :: int
  fl_lastino :: int
  fl_curino :: int
  fl_reader :: reader
  fl_stop :: bool

text \<open>The part before the loop: any failure ends the program.\<close>

definition follow_begin :: "bool \<Rightarrow> (int \<times> int) option \<Rightarrow> bool \<Rightarrow> reader \<Rightarrow> follow_st outcome" where
  "follow_begin fopen_ok stat_rv seek_ok rd =
     (if \<not> fopen_ok then Exit 1
      else (case stat_rv of
          None \<Rightarrow> Exit 1
        | Some (st_size, st_ino) \<Rightarrow>
            if \<not> seek_ok then Exit 1
            else Ret \<lparr>fl_open = True, fl_lastpos = st_size, fl_curpos = st_size,
                      fl_lastino = st_ino, fl_curino = st_ino, fl_reader = rd, fl_stop = False\<rparr>))"

text \<open>Reading, after which the position is where the size says.\<close>

definition follow_read :: "(string \<Rightarrow> 's \<Rightarrow> 's outcome) \<Rightarrow> observation \<Rightarrow> follow_st \<times> 's \<Rightarrow> (follow_st \<times> 's) outcome" where
  "follow_read f ob fs = (case fs of (st, s) \<Rightarrow>
     obind (readtoeof f (ob_data ob) (fl_reader st) s) (\<lambda>(stopped, rd, s').
       Ret (st\<lparr>fl_reader := rd, fl_stop := fl_stop st \<or> stopped, fl_lastpos := fl_curpos st\<rparr>, s')))"

definition follow_step :: "(string \<Rightarrow> 's \<Rightarrow> 's outcome) \<Rightarrow> observation \<Rightarrow> follow_st \<times> 's \<Rightarrow> (follow_st \<times> 's) outcome" where
  "follow_step f ob fs = (case fs of (st, s) \<Rightarrow>
     (case ob_stat ob of
        None \<Rightarrow> Ret (st\<lparr>fl_open := False\<rparr>, s)
      | Some (st_size, st_ino) \<Rightarrow>
          if \<not> fl_open st \<and> \<not> ob_fopen ob then Ret (st, s)
          else if fl_open st \<and> fl_lastino st \<noteq> fl_curino st \<and> \<not> ob_freopen ob then Ret (st\<lparr>fl_open := False\<rparr>, s)
          else
            (let st = (if fl_open st \<and> fl_lastino st \<noteq> fl_curino st
                       then st\<lparr>fl_lastino := fl_curino st\<rparr> else st\<lparr>fl_open := True\<rparr>);
                 st = st\<lparr>fl_curpos := st_size\<rparr>
             in if fl_curpos st > fl_lastpos st then follow_read f ob (st, s)
                else if fl_lastpos st > fl_curpos st
                then (if \<not> ob_freopen ob then Ret (st\<lparr>fl_open := False\<rparr>, s)
                      else follow_read f ob (st\<lparr>fl_lastpos := 0\<rparr>, s))
                else Ret (st, s))))"

text \<open>\<^verbatim>\<open>while (!stop)\<close> over the observations; at the end the flag is cleared.\<close>

fun follow :: "(string \<Rightarrow> 's \<Rightarrow> 's outcome) \<Rightarrow> observation list \<Rightarrow> follow_st \<times> 's \<Rightarrow> (follow_st \<times> 's) outcome" where
  "follow f [] fs = Ret fs"
| "follow f (ob # obs) fs =
     (if fl_stop (fst fs) then Ret ((fst fs)\<lparr>fl_stop := False\<rparr>, snd fs)
      else obind (follow_step f ob fs) (follow f obs))"

definition follow_stop :: "follow_st \<Rightarrow> follow_st" where
  "follow_stop st = st\<lparr>fl_stop := True\<rparr>"

subsection \<open>The lines of the text\<close>

text \<open>The text cut after every newline and after every \<^verbatim>\<open>BUFFSIZE - 1\<close> bytes, and the unfinished rest.\<close>

fun split_lines :: "string \<Rightarrow> string \<Rightarrow> string list \<times> string" where
  "split_lines acc [] = ([], acc)"
| "split_lines acc (c # cs) =
     (if length acc + 1 = BUFFSIZE - 1 \<or> c = CHR 0x0A
      then (case split_lines [] cs of (ls, r) \<Rightarrow> ((acc @ [c]) # ls, r))
      else split_lines (acc @ [c]) cs)"

definition reader_has :: "reader \<Rightarrow> string \<Rightarrow> bool" where
  "reader_has rd acc \<longleftrightarrow> length (rd_BUFF rd) = BUFFSIZE \<and> rd_buffpos rd = length acc
     \<and> length acc < BUFFSIZE - 1 \<and> take (length acc) (rd_BUFF rd) = acc"

fun run_lines :: "(string \<Rightarrow> 's \<Rightarrow> 's outcome) \<Rightarrow> string list \<Rightarrow> 's \<Rightarrow> 's outcome" where
  "run_lines f [] s = Ret s"
| "run_lines f (l # ls) s = obind (f l s) (run_lines f ls)"

lemma check_buffer_spec:
  assumes "length (rd_BUFF rd) = BUFFSIZE" and "rd_buffpos rd < BUFFSIZE"
  shows "check_buffer f rd s = obind (f (cstr (take (rd_buffpos rd) (rd_BUFF rd))) s)
    (\<lambda>s'. Ret (rd\<lparr>rd_BUFF := (rd_BUFF rd)[rd_buffpos rd := NUL], rd_buffpos := 0\<rparr>, s'))"
proof -
  let ?b = "(rd_BUFF rd)[rd_buffpos rd := NUL]"
  have split: "?b = take (rd_buffpos rd) (rd_BUFF rd) @ NUL # drop (Suc (rd_buffpos rd)) (rd_BUFF rd)"
    using assms by (simp add: upd_conv_take_nth_drop)
  have "terminated ?b" unfolding split by (simp add: terminated_def)
  moreover have "cstr ?b = cstr (take (rd_buffpos rd) (rd_BUFF rd))"
    unfolding split cstr_def by (auto simp: takeWhile_append takeWhile_eq_all_conv [THEN iffD2])
  ultimately show ?thesis using assms by (simp add: check_buffer_def c_string_def)
qed

text \<open>
  Reading a piece of text: the buffer is never overrun, and exactly the lines completed by the piece
  are checked, in order; what is unfinished stays for the next piece.
\<close>

lemma readtoeof_spec:
  assumes "reader_has rd acc"
  shows "\<exists>rd'. readtoeof f (map FChar cs) rd s =
      obind (run_lines f (map cstr (fst (split_lines acc cs))) s) (\<lambda>s'. Ret (False, rd', s'))
    \<and> reader_has rd' (snd (split_lines acc cs))"
  using assms
proof (induction cs arbitrary: rd acc s)
  case Nil
  then show ?case by auto
next
  case (Cons c cs)
  have len: "length (rd_BUFF rd) = BUFFSIZE" "rd_buffpos rd = length acc" "length acc < BUFFSIZE - 1"
      "take (length acc) (rd_BUFF rd) = acc" using Cons.prems by (auto simp: reader_has_def)
  let ?b = "(rd_BUFF rd)[length acc := c]"
  let ?rd = "rd\<lparr>rd_BUFF := ?b, rd_buffpos := length acc + 1\<rparr>"
  have tk: "take (length acc + 1) ?b = acc @ [c]"
    using len by (simp add: take_Suc_conv_app_nth)
  show ?case
  proof (cases "length acc + 1 = BUFFSIZE - 1 \<or> c = CHR 0x0A")
    case True
    let ?rd1 = "?rd\<lparr>rd_BUFF := ?b[length acc + 1 := NUL], rd_buffpos := 0\<rparr>"
    have chk: "check_buffer f ?rd s = obind (f (cstr (acc @ [c])) s) (\<lambda>s'. Ret (?rd1, s'))"
      using check_buffer_spec [of ?rd f s] len tk by simp
    have "reader_has ?rd1 []" using len by (simp add: reader_has_def BUFFSIZE_def)
    note IH = Cons.IH [OF this]
    obtain ls r where sp: "split_lines [] cs = (ls, r)" by (cases "split_lines [] cs")
    have step: "readtoeof f (map FChar (c # cs)) rd s =
        obind (f (cstr (acc @ [c])) s) (\<lambda>s'. readtoeof f (map FChar cs) ?rd1 s')"
      using True len chk by (auto simp: Let_def obind_assoc)
    show ?thesis
    proof (cases "f (cstr (acc @ [c])) s")
      case (Ret s1)
      with step IH [of s1] sp True show ?thesis by auto
    qed (use step IH [of s] sp True in auto)
  next
    case False
    have "reader_has ?rd (acc @ [c])" using False len tk by (simp add: reader_has_def)
    from Cons.IH [OF this, of s] False len show ?thesis by (simp add: Let_def)
  qed
qed

text \<open>A read that is cut short by the stop flag has checked the lines completed before.\<close>

lemma readtoeof_append:
  "readtoeof f (map FChar cs @ evs) rd s = obind (readtoeof f (map FChar cs) rd s) (\<lambda>(b, rd', s'). readtoeof f evs rd' s')"
  by (induction cs arbitrary: rd s) (auto simp: Let_def obind_assoc split: prod.splits intro!: obind_cong)

lemma readtoeof_stop:
  assumes "reader_has rd acc"
  shows "\<exists>rd'. readtoeof f (map FChar cs @ FStop # evs) rd s =
      obind (run_lines f (map cstr (fst (split_lines acc cs))) s) (\<lambda>s'. Ret (True, rd', s'))
    \<and> reader_has rd' (snd (split_lines acc cs))"
  using readtoeof_spec [OF assms, of f cs s] by (auto simp: readtoeof_append obind_assoc)

lemma follow_step_stop:
  assumes "reader_has (fl_reader st) acc" and "fl_open st" and "fl_lastino st = fl_curino st"
    and "ob_stat ob = Some (sz, ino)" and "fl_lastpos st < sz" and "ob_data ob = map FChar cs @ FStop # evs"
  shows "\<exists>st'. follow_step f ob (st, s) = obind (run_lines f (map cstr (fst (split_lines acc cs))) s) (\<lambda>s'. Ret (st', s'))
    \<and> fl_stop st' \<and> reader_has (fl_reader st') (snd (split_lines acc cs))"
proof -
  obtain rd' where "readtoeof f (map FChar cs @ FStop # evs) (fl_reader st) s =
      obind (run_lines f (map cstr (fst (split_lines acc cs))) s) (\<lambda>s'. Ret (True, rd', s'))" "reader_has rd' (snd (split_lines acc cs))"
    using readtoeof_stop [OF assms(1), of f cs evs s] by (elim exE conjE) (rule that)
  then show ?thesis
    using assms(2-6)
    by (intro exI [of _ "st\<lparr>fl_open := True, fl_curpos := sz, fl_reader := rd', fl_stop := True, fl_lastpos := sz\<rparr>"])
      (simp add: follow_step_def follow_read_def Let_def obind_assoc)
qed

text \<open>Cutting does not depend on the pieces.\<close>

lemma split_lines_append:
  "split_lines acc (xs @ ys) =
     (case split_lines acc xs of (ls, r) \<Rightarrow> case split_lines r ys of (ls', r') \<Rightarrow> (ls @ ls', r'))"
  by (induction acc xs rule: split_lines.induct) (auto split: prod.splits)

lemma split_lines_concat: "concat (fst (split_lines acc cs)) @ snd (split_lines acc cs) = acc @ cs"
  by (induction acc cs rule: split_lines.induct) (auto split: prod.splits)

subsection \<open>What a log line does to the table\<close>

definition capture :: "pcre_exec \<Rightarrow> string \<Rightarrow> string option" where
  "capture pcre line = map_option (\<lambda>(so, eo). take (eo - so) (drop so line)) (pcre line)"

definition good_addr :: "string \<Rightarrow> bool" where
  "good_addr ip \<longleftrightarrow> valid_ip ip \<and> 3 \<le> length ip \<and> CHR ''/'' \<notin> set ip \<and> last ip \<noteq> CHR 0x0A"

definition log_effect :: "config \<Rightarrow> pcre_exec \<Rightarrow> inet_pton \<Rightarrow> network multiset \<Rightarrow> i64 \<Rightarrow> string \<Rightarrow>
    (string \<Rightarrow> hostrecord option) \<Rightarrow> string \<Rightarrow> hostrecord option" where
  "log_effect CONFIG pcre pton N t line m = (case capture pcre line of
       None \<Rightarrow> m
     | Some ip \<Rightarrow> if is_excluded pton N ip then m else host_seen CONFIG t ip m)"

lemma regex_match_spec:
  assumes "so \<le> eo" and "eo \<le> length line" and "length line < BUFFSIZE" and "is_cstring line"
  shows "obind (regex_match line so eo) c_string = Ret (take (eo - so) (drop so line))"
proof -
  let ?m = "take (eo - so) (drop so line)"
  have cp: "strncpy (drop so line) (eo - so) = ?m" using assms by (simp add: strncpy_def)
  have len: "length ?m = eo - so" using assms by simp
  then obtain k where k: "BUFFSIZE - length ?m = Suc k" using assms by (metis Suc_diff_Suc diff_le_self le_trans not_less order.strict_trans1)
  have "is_cstring ?m" using assms(4) by (auto simp: is_cstring_def dest!: in_set_takeD in_set_dropD)
  moreover have "regex_match line so eo = Ret (?m @ NUL # replicate k NUL)"
    using assms k len by (simp add: regex_match_def cp memcpy_to_def)
  ultimately show ?thesis by (simp add: c_string_def terminated_def)
qed

lemma regex_do_spec:
  assumes inv: "records_inv st" and N: "exclude_nets N ex" and pt: "pton_ok pton" and pc: "pcre_ok pcre" and ok: "sys_ok e"
    and line: "length line < BUFFSIZE" "is_cstring line" and good: "\<And>ip. capture pcre line = Some ip \<Longrightarrow> good_addr ip"
  shows "returns (regex_do e CONFIG info pcre pton ex line (True, st)) (\<lambda>(compiled, st'). compiled \<and> records_inv st'
    \<and> records_map st' = log_effect CONFIG pcre pton N (now e) line (records_map st))"
proof (cases "pcre line")
  case None
  with inv show ?thesis by (simp add: regex_do_def log_effect_def capture_def)
next
  case (Some x)
  then obtain so eo where p: "pcre line = Some (so, eo)" by (cases x) auto
  then have b: "so \<le> eo" "eo \<le> length line" using pc by (auto simp: pcre_ok_def)
  let ?m = "take (eo - so) (drop so line)"
  have cap: "capture pcre line = Some ?m" using p by (simp add: capture_def)
  then have g: "valid_ip ?m" "3 \<le> length ?m" "CHR ''/'' \<notin> set ?m" "last ?m \<noteq> CHR 0x0A"
    using good by (auto simp: good_addr_def)
  note match = regex_match_spec [OF b line]
  have ex: "exclude_isexcluded e pton ?m ex = Ret (if is_excluded pton N ?m then RETVAL_OK else RETVAL_ERR)"
    using exclude_isexcluded_spec [OF N pt ok g(2-4)] by (simp only: is_excluded_def)
  obtain st' where st': "records_add_ip e CONFIG ?m st = Ret (RETVAL_OK, st')" "records_inv st'"
      "records_map st' = host_seen CONFIG (now e) ?m (records_map st)"
    using ht.seen_law [OF inv g(1) ok, of CONFIG] unfolding returns_iff by auto
  have eq: "regex_do e CONFIG info pcre pton ex line (True, st) =
      obind (exclude_isexcluded e pton ?m ex) (\<lambda>rv.
        if rv \<noteq> 0 then obind (records_add_ip e CONFIG ?m st) (\<lambda>(rv', st'). Ret (True, st')) else Ret (True, st))"
    using match unfolding regex_do_def p by (cases "regex_match line so eo") (simp_all add: p)
  show ?thesis
    unfolding eq ex using st' inv cap by (auto simp: log_effect_def)
qed

text \<open>A whole text: the lines are counted to give each its own system answers.\<close>

definition regex_nth :: "(nat \<Rightarrow> sysenv) \<Rightarrow> config \<Rightarrow> pcre_info \<Rightarrow> pcre_exec \<Rightarrow> inet_pton \<Rightarrow> exclude_st \<Rightarrow> string \<Rightarrow>
    nat \<times> bool \<times> records_st \<Rightarrow> (nat \<times> bool \<times> records_st) outcome" where
  "regex_nth es CONFIG info pcre pton ex line ks = (case ks of (k, rs) \<Rightarrow>
     obind (regex_do (es k) CONFIG info pcre pton ex line rs) (\<lambda>rs'. Ret (Suc k, rs')))"

fun log_effects :: "config \<Rightarrow> pcre_exec \<Rightarrow> inet_pton \<Rightarrow> network multiset \<Rightarrow> (nat \<Rightarrow> sysenv) \<Rightarrow> nat \<Rightarrow> string list \<Rightarrow>
    (string \<Rightarrow> hostrecord option) \<Rightarrow> string \<Rightarrow> hostrecord option" where
  "log_effects CONFIG pcre pton N es k [] m = m"
| "log_effects CONFIG pcre pton N es k (l # ls) m =
     log_effects CONFIG pcre pton N es (Suc k) ls (log_effect CONFIG pcre pton N (now (es k)) l m)"

lemma run_regex_lines:
  assumes inv: "records_inv st" and N: "exclude_nets N ex" and pt: "pton_ok pton" and pc: "pcre_ok pcre" and ok: "\<And>i. sys_ok (es i)"
    and ls: "\<forall>l \<in> set ls. length l < BUFFSIZE \<and> is_cstring l \<and> (\<forall>ip. capture pcre l = Some ip \<longrightarrow> good_addr ip)"
  shows "returns (run_lines (regex_nth es CONFIG info pcre pton ex) ls (k, True, st)) (\<lambda>(k', compiled, st').
    compiled \<and> records_inv st' \<and> records_map st' = log_effects CONFIG pcre pton N es k ls (records_map st))"
  using inv ls
proof (induction ls arbitrary: k st)
  case Nil
  then show ?case by simp
next
  case (Cons l ls)
  obtain st1 where st1: "regex_do (es k) CONFIG info pcre pton ex l (True, st) = Ret (True, st1)" "records_inv st1"
      "records_map st1 = log_effect CONFIG pcre pton N (now (es k)) l (records_map st)"
    using regex_do_spec [OF Cons.prems(1) N pt pc ok [of k], of l CONFIG info] Cons.prems(2)
    unfolding returns_iff by auto
  from Cons.IH [OF st1(2), of "Suc k"] Cons.prems(2) st1 show ?case
    by (simp add: regex_nth_def)
qed

lemma split_lines_short: "length acc < BUFFSIZE - 1 \<Longrightarrow> \<forall>l \<in> set (fst (split_lines acc cs)). length l < BUFFSIZE"
proof (induction acc cs rule: split_lines.induct)
  case (1 acc)
  then show ?case by simp
next
  case (2 acc c cs)
  have "0 < BUFFSIZE - 1" by (simp add: BUFFSIZE_def)
  with 2 show ?case by (auto split: prod.splits)
qed

text \<open>The lines that a piece of text completes are such lines.\<close>

lemma completed_lines:
  assumes "reader_has rd acc"
    and "\<forall>l \<in> set (map cstr (fst (split_lines acc cs))). \<forall>ip. capture pcre l = Some ip \<longrightarrow> good_addr ip"
  shows "\<forall>l \<in> set (map cstr (fst (split_lines acc cs))). length l < BUFFSIZE \<and> is_cstring l \<and> (\<forall>ip. capture pcre l = Some ip \<longrightarrow> good_addr ip)"
proof -
  have acc: "length acc < BUFFSIZE - 1" using assms(1) by (simp add: reader_has_def)
  have le: "length (cstr l) \<le> length l" for l by (simp add: cstr_def length_takeWhile_le)
  have "length l < BUFFSIZE" if "l \<in> set (map cstr (fst (split_lines acc cs)))" for l
    using that split_lines_short [OF acc, of cs] le by (auto intro: order.strict_trans1)
  then show ?thesis using assms(2) by auto
qed

text \<open>The times at which lines name a host, and what they make of its entry when it is not excluded.\<close>

fun sighting_times :: "pcre_exec \<Rightarrow> (nat \<Rightarrow> sysenv) \<Rightarrow> nat \<Rightarrow> string list \<Rightarrow> string \<Rightarrow> i64 list" where
  "sighting_times pcre es k [] ip = []"
| "sighting_times pcre es k (l # ls) ip =
     (if capture pcre l = Some ip then now (es k) # sighting_times pcre es (Suc k) ls ip else sighting_times pcre es (Suc k) ls ip)"

definition seen_at :: "config \<Rightarrow> string \<Rightarrow> i64 \<Rightarrow> hostrecord option \<Rightarrow> hostrecord option" where
  "seen_at CONFIG ip t p = Some (case p of None \<Rightarrow> fresh_record CONFIG t ip | Some r \<Rightarrow> bump_record t r)"

lemma log_effects_at:
  assumes "\<not> is_excluded pton N ip"
  shows "log_effects CONFIG pcre pton N es k ls m ip = fold (seen_at CONFIG ip) (sighting_times pcre es k ls ip) (m ip)"
proof (induction ls arbitrary: k m)
  case (Cons l ls)
  have "log_effect CONFIG pcre pton N t l m ip = (if capture pcre l = Some ip then seen_at CONFIG ip t (m ip) else m ip)" for t
    using assms by (auto simp: log_effect_def host_seen_bump seen_at_def split: option.split)
  then show ?case by (simp add: Cons.IH)
qed simp

lemma seen_again:
  "\<exists>r'. fold (seen_at CONFIG ip) ts (Some r) = Some r' \<and> hr_origin r' = hr_origin r \<and> hr_processed r' = hr_processed r
    \<and> hr_action_threshold r' = hr_action_threshold r
    \<and> hr_occurrences r' = hr_occurrences r + of_nat (length (filter (\<lambda>t. t - hr_firstseen r <=s hr_time_interval r) ts))"
proof (induction ts arbitrary: r)
  case (Cons t ts)
  from Cons.IH [of "bump_record t r"] show ?case by (auto simp: seen_at_def bump_record_occurrences)
qed simp

lemma sightings_in_log:
  assumes "\<not> is_excluded pton N ip" and "m ip = None" and "sighting_times pcre es k ls ip = t # ts"
    and "\<forall>t' \<in> set ts. t' - t <=s cfg_time_interval CONFIG"
  shows "\<exists>r. log_effects CONFIG pcre pton N es k ls m ip = Some r \<and> hr_origin r = hr_origin (fresh_record CONFIG t ip)
    \<and> hr_processed r = 0 \<and> hr_action_threshold r = cfg_action_threshold CONFIG \<and> hr_occurrences r = of_nat (Suc (length ts))"
proof -
  let ?r = "fresh_record CONFIG t ip"
  have r: "hr_processed ?r = 0" "hr_action_threshold ?r = cfg_action_threshold CONFIG" "hr_occurrences ?r = 1"
    by (simp_all add: fresh_record_def)
  have "filter (\<lambda>t'. t' - hr_firstseen ?r <=s hr_time_interval ?r) ts = ts" using assms(4) by (simp add: fresh_record_def)
  with seen_again [of CONFIG ip ts ?r] assms(2,3) r show ?thesis
    by (auto simp: log_effects_at [OF assms(1)] seen_at_def)
qed

lemma sighting_times_named: "sighting_times pcre es k ls ip \<noteq> [] \<Longrightarrow> \<exists>l \<in> set ls. capture pcre l = Some ip"
  by (induction ls arbitrary: k) (auto split: if_splits)

subsection \<open>The polling loop and the inode\<close>

text \<open>\<^verbatim>\<open>curino\<close> is never assigned in the loop, so both inode variables keep their first value.\<close>

lemma follow_read_keeps:
  "follow_read f ob (st, s) = Ret (st', s') \<Longrightarrow> fl_lastino st' = fl_lastino st \<and> fl_curino st' = fl_curino st
     \<and> fl_lastpos st' = fl_curpos st \<and> fl_curpos st' = fl_curpos st \<and> fl_open st' = fl_open st"
  by (auto simp: follow_read_def obind_eq_Ret)

lemma follow_step_ino:
  assumes "fl_lastino st = fl_curino st" and "follow_step f ob (st, s) = Ret (st', s')"
  shows "fl_lastino st' = fl_lastino st \<and> fl_curino st' = fl_curino st"
  using assms
  by (auto simp: follow_step_def Let_def split: option.splits if_splits prod.splits dest!: follow_read_keeps)

text \<open>So an iteration does not depend on the inode it is told about.\<close>

lemma follow_step_blind:
  assumes "ob_stat ob = Some (sz, ino)"
  shows "follow_step f (ob\<lparr>ob_stat := Some (sz, ino')\<rparr>) fs = follow_step f ob fs"
  using assms by (cases ob; cases fs) (simp add: follow_step_def follow_read_def Let_def)

text \<open>An iteration that finds the file and is not stopped by a failed open ends at the file's size.\<close>

lemma follow_step_pos:
  assumes "fl_lastino st = fl_curino st" and "ob_stat ob = Some (sz, ino)" and "ob_fopen ob" and "ob_freopen ob"
    and "follow_step f ob (st, s) = Ret (st', s')"
  shows "fl_lastpos st' = sz \<and> fl_curpos st' = sz \<and> fl_open st'"
  using assms
  by (auto simp: follow_step_def Let_def split: if_splits dest!: follow_read_keeps)

lemma run_lines_append: "run_lines f (as @ bs) t = obind (run_lines f as t) (run_lines f bs)"
proof (induction as arbitrary: t)
  case (Cons a as)
  then show ?case by (cases "f a t") simp_all
qed simp

subsection \<open>Properties\<close>

text \<open>A pattern that captures what follows \<^verbatim>\<open>from \<close>, and a line that has it.\<close>

definition demo_pcre :: pcre_exec where
  "demo_pcre s = (if s = ''Failed from 10.1.2.3'' @ [CHR 0x0A] then Some (12, 20) else None)"

definition demo_pcre_info :: pcre_info where
  "demo_pcre_info = \<lparr>pc_compiled = True, pc_study_ok = True, pc_info_rv = 0, pc_capturecount = 1\<rparr>"

definition demo_log :: string where
  "demo_log = ''Failed from 10.1.2.3'' @ [CHR 0x0A] @ ''session ope''"

lemma demo_pcre_ok [simp]: "pcre_ok demo_pcre"
  by (auto simp: pcre_ok_def demo_pcre_def split: if_splits)

lemma reader_start_has [simp]: "reader_has reader_start []"
  by (simp add: reader_has_def reader_start_def BUFFSIZE_def)

lemma demo_log_lines [simp]: "split_lines [] demo_log = ([''Failed from 10.1.2.3'' @ [CHR 0x0A]], ''session ope'')"
  by (simp add: demo_log_def BUFFSIZE_def)

lemma demo_capture [simp]: "capture demo_pcre (''Failed from 10.1.2.3'' @ [CHR 0x0A]) = Some ''10.1.2.3''"
  by (simp add: capture_def demo_pcre_def)

lemma demo_line_cstr: "cstr (''Failed from 10.1.2.3'' @ [CHR 0x0A]) = ''Failed from 10.1.2.3'' @ [CHR 0x0A]"
    "is_cstring (''Failed from 10.1.2.3'' @ [CHR 0x0A])" "good_addr ''10.1.2.3''"
  by (simp_all add: cstr_def is_cstring_def good_addr_def valid_ip_def IPADDR_SIZE_def)

text \<open>
  C11. From the log to the table: reading a piece of the log changes the host table exactly as its completed
  lines say, in order. A line the pattern does not match changes nothing; a captured address that is
  excluded changes nothing; any other captured address is counted as a sighting. The unfinished rest of
  the text stays in the buffer for the next piece, and no access leaves the buffers.
\<close>

theorem log_text_to_table:
  assumes "records_inv st" and "exclude_nets N ex" and "pton_ok pton" and "pcre_ok pcre" and "\<And>i. sys_ok (es i)"
    and "reader_has rd acc"
    and "\<forall>l \<in> set (map cstr (fst (split_lines acc cs))). \<forall>ip. capture pcre l = Some ip \<longrightarrow> good_addr ip"
  shows "returns (readtoeof (regex_nth es CONFIG info pcre pton ex) (map FChar cs) rd (k, True, st)) (\<lambda>(stopped, rd', k', c, st').
    \<not> stopped \<and> reader_has rd' (snd (split_lines acc cs)) \<and> records_inv st'
    \<and> records_map st' = log_effects CONFIG pcre pton N es k (map cstr (fst (split_lines acc cs))) (records_map st))"
proof -
  let ?ls = "map cstr (fst (split_lines acc cs))"
  obtain rd' where rd: "readtoeof (regex_nth es CONFIG info pcre pton ex) (map FChar cs) rd (k, True, st) =
      obind (run_lines (regex_nth es CONFIG info pcre pton ex) ?ls (k, True, st)) (\<lambda>s'. Ret (False, rd', s'))"
      "reader_has rd' (snd (split_lines acc cs))"
    using readtoeof_spec [OF assms(6), of "regex_nth es CONFIG info pcre pton ex" cs "(k, True, st)"] by blast
  note ls = completed_lines [OF assms(6,7)]
  show ?thesis
    unfolding rd(1) ospec_obind
    by (rule ospec_mono [OF run_regex_lines [of st N ex pton pcre es ?ls CONFIG info k, OF assms(1-5) ls]])
      (use rd(2) in auto)
qed

theorem log_text_to_table_witness:
  "returns (readtoeof (regex_nth (\<lambda>_. calm_env) demo_config demo_pcre_info demo_pcre demo_pton empty_excludes)
      (map FChar demo_log) reader_start (0, True, empty_records)) (\<lambda>(stopped, rd', k', c, st').
    reader_has rd' ''session ope'' \<and> records_map st' = [''10.1.2.3'' \<mapsto> fresh_record demo_config 1000 ''10.1.2.3''])"
proof -
  have g: "\<forall>l \<in> set (map cstr (fst (split_lines [] demo_log))). \<forall>ip. capture demo_pcre l = Some ip \<longrightarrow> good_addr ip"
    using demo_line_cstr by (simp del: append_Cons append_Nil)
  have ef: "log_effects demo_config demo_pcre demo_pton {#} (\<lambda>_. calm_env) 0 (map cstr (fst (split_lines [] demo_log))) (\<lambda>_. None) =
      [''10.1.2.3'' \<mapsto> fresh_record demo_config 1000 ''10.1.2.3'']"
    using demo_line_cstr(1) by (simp add: log_effect_def is_excluded_def host_seen_bump del: append_Cons append_Nil)
  show ?thesis
    by (rule ospec_mono [OF log_text_to_table [of empty_records "{#}" empty_excludes demo_pton demo_pcre "\<lambda>_. calm_env"
            reader_start "[]" demo_log demo_config demo_pcre_info 0]])
      (use g ef in auto)
qed

text \<open>
  C31. The lines handed to the matcher do not depend on how the text is cut into reads: reading one piece and
  then another is the same, for the matcher and for what remains in the buffer, as cutting the whole text
  after each newline and after each \<^verbatim>\<open>BUFFSIZE - 1\<close> bytes, and those lines are the whole text.
\<close>

theorem reading_in_pieces:
  assumes "reader_has rd acc"
  shows "\<exists>rd'. obind (readtoeof f (map FChar xs) rd s) (\<lambda>(stopped, rd1, s1). readtoeof f (map FChar ys) rd1 s1) =
      obind (run_lines f (map cstr (fst (split_lines acc (xs @ ys)))) s) (\<lambda>s'. Ret (False, rd', s'))
    \<and> reader_has rd' (snd (split_lines acc (xs @ ys)))
    \<and> concat (fst (split_lines acc (xs @ ys))) @ snd (split_lines acc (xs @ ys)) = acc @ xs @ ys"
proof -
  obtain ls r where sx: "split_lines acc xs = (ls, r)" by (cases "split_lines acc xs")
  obtain ls' r' where sy: "split_lines r ys = (ls', r')" by (cases "split_lines r ys")
  obtain rd1 where r1: "readtoeof f (map FChar xs) rd s = obind (run_lines f (map cstr ls) s) (\<lambda>s'. Ret (False, rd1, s'))"
      "reader_has rd1 r"
    using readtoeof_spec [OF assms, of f xs s] sx by auto
  note run = run_lines_append [of f]
  have det: "\<exists>rd2. (\<forall>t. readtoeof f (map FChar ys) rd1 t = obind (run_lines f (map cstr ls') t) (\<lambda>s'. Ret (False, rd2 t, s')) \<and> reader_has (rd2 t) r')"
    using readtoeof_spec [OF r1(2), of f ys] sy by (auto intro: choice)
  then obtain rd2 where r2: "\<And>t. readtoeof f (map FChar ys) rd1 t = obind (run_lines f (map cstr ls') t) (\<lambda>s'. Ret (False, rd2 t, s'))"
      "\<And>t. reader_has (rd2 t) r'" by blast
  have sp: "split_lines acc (xs @ ys) = (ls @ ls', r')" using sx sy by (simp add: split_lines_append)
  show ?thesis
  proof (cases "run_lines f (map cstr ls) s")
    case (Ret s1)
    with r1 r2 sp run split_lines_concat [of acc "xs @ ys"] show ?thesis
      by (intro exI [of _ "rd2 s1"]) simp
  qed (use r1 r2 sp run split_lines_concat [of acc "xs @ ys"] in \<open>auto intro!: exI [of _ "rd2 s"]\<close>)
qed

theorem reading_in_pieces_witness:
  "\<exists>rd'. obind (readtoeof (\<lambda>l s. Ret (s @ [l])) (map FChar ''ab'') reader_start [])
      (\<lambda>(stopped, rd1, s1). readtoeof (\<lambda>l s. Ret (s @ [l])) (map FChar (''c'' @ [CHR 0x0A])) rd1 s1)
    = Ret (False, rd', [''abc'' @ [CHR 0x0A]])"
  using reading_in_pieces [OF reader_start_has, of "\<lambda>l s. Ret (s @ [l])" "''ab''" "[]" "''c'' @ [CHR 0x0A]"]
  by (auto simp: BUFFSIZE_def cstr_def)

text \<open>
  The test for a replaced file is dead: no iteration of the loop assigns the variable that should hold
  the current inode, so the two inode numbers stay equal, and the loop behaves the same whatever inode
  \<^verbatim>\<open>stat\<close> reports. A log that is replaced by a file at least as long is not reopened.
\<close>

theorem follow_ignores_inode:
  assumes "fl_lastino st = fl_curino st" and "ob_stat ob = Some (sz, ino)"
  shows "follow_step f (ob\<lparr>ob_stat := Some (sz, ino')\<rparr>) (st, s) = follow_step f ob (st, s)
    \<and> (\<forall>st' s'. follow_step f ob (st, s) = Ret (st', s') \<longrightarrow> fl_lastino st' = fl_curino st' \<and> fl_curino st' = fl_curino st)"
  using follow_step_blind [OF assms(2)] follow_step_ino [OF assms(1)] assms(1) by metis

definition demo_follow :: follow_st where
  "demo_follow = \<lparr>fl_open = True, fl_lastpos = 10, fl_curpos = 10, fl_lastino = 1, fl_curino = 1, fl_reader = reader_start, fl_stop = False\<rparr>"

theorem follow_ignores_inode_witness:
  "follow_step (\<lambda>l s. Ret s) \<lparr>ob_stat = Some (10, 2), ob_fopen = True, ob_freopen = True, ob_data = []\<rparr> (demo_follow, ()) = Ret (demo_follow, ())
   \<and> fl_lastino demo_follow = fl_curino demo_follow"
proof -
  let ?ob = "\<lparr>ob_stat = Some (10, 2), ob_fopen = True, ob_freopen = True, ob_data = []\<rparr>"
  have run: "follow_step (\<lambda>l s. Ret s) ?ob (demo_follow, ()) = Ret (demo_follow, ())"
    by (simp add: follow_step_def demo_follow_def)
  with follow_ignores_inode [of demo_follow ?ob 10 2 "\<lambda>l s. Ret s" 3 "()"] show ?thesis
    by (simp add: demo_follow_def)
qed

end
