(* ===== verification/Daemon.thy ===== *)
theory Daemon
  imports Actions Follow
begin

section \<open>The running program\<close>

text \<open>
  The threads of the daemon share the host table and the exclusion list; every access is a critical
  section, so a run is a sequence of such sections in any order. \<open>daemon_step\<close> has one rule per
  section, each with the definition of the component that runs in it: a log line (main thread), a
  command of a remote agent (worker thread), a pass of the action, maintenance or sending thread, and
  the threads behind \<^verbatim>\<open>SIGUSR2\<close> and \<^verbatim>\<open>SIGHUP\<close>, the latter one section for the clearing and one per line
  of the file, so that others see the list while it is being read, and the starting and stopping of the client,
  which \<^verbatim>\<open>main\<close> does while the other threads run. A log line and a remote command take
  the lock of the exclusion list and then that of the table; nothing in between reads what the second
  section writes, so the two are one step. The rules ask that the system calls of the section succeed
  and that addresses are addresses; nothing is asked of the order. The invariant of the
  reachable states has the books of the action script: per address, the \<^verbatim>\<open>new\<close> commands exceed the
  \<^verbatim>\<open>remove\<close> commands by one exactly while a processed record of the address is in the table.
\<close>

subsection \<open>Steps\<close>

record daemon =
  d_records :: records_st
  d_exclude :: exclude_st
  d_action :: action_st

record daemon_ext =
  dx_config :: config
  dx_pton :: inet_pton
  dx_pcre :: pcre_exec
  dx_pcre_info :: pcre_info

definition set_queue :: "nat \<Rightarrow> client_queue \<Rightarrow> action_st \<Rightarrow> action_st" where
  "set_queue i q s = s\<lparr>as_client := (as_client s)\<lparr>cl_queues := (cl_queues (as_client s))[i := Some q]\<rparr>\<rparr>"

inductive daemon_step :: "daemon_ext \<Rightarrow> daemon \<Rightarrow> daemon \<Rightarrow> bool" for x where
  log_line: "sys_ok e \<Longrightarrow> length line < BUFFSIZE \<Longrightarrow> is_cstring line \<Longrightarrow>
     (\<And>ip. capture (dx_pcre x) line = Some ip \<Longrightarrow> good_addr ip) \<Longrightarrow>
     regex_do e (dx_config x) (dx_pcre_info x) (dx_pcre x) (dx_pton x) (d_exclude d) line (True, d_records d) = Ret (c, st) \<Longrightarrow>
     daemon_step x d (d\<lparr>d_records := st\<rparr>)"
| remote_add: "sys_ok e \<Longrightarrow> good_remote hr \<Longrightarrow>
     worker_command e (dx_config x) (dx_pton x) (Some host) (d_exclude d) ADD hr (d_records d) = Ret (go, st) \<Longrightarrow>
     daemon_step x d (d\<lparr>d_records := st\<rparr>)"
| action_pass: "action_ok e (dx_config x) \<Longrightarrow>
     action_thread_pass e (dx_config x) (d_records d, d_action d) = Ret (st, s) \<Longrightarrow>
     daemon_step x d (d\<lparr>d_records := st, d_action := s\<rparr>)"
| maintenance_pass: "action_ok e (dx_config x) \<Longrightarrow>
     maintenance_thread_pass e (dx_config x) (d_records d, d_action d) = Ret (st, s) \<Longrightarrow>
     daemon_step x d (d\<lparr>d_records := st, d_action := s\<rparr>)"
| remove_all: "sys_ok e \<Longrightarrow>
     records_enumerate_thread e records_callback_remove_all (d_records d, ()) = Ret (st, u) \<Longrightarrow>
     daemon_step x d (d\<lparr>d_records := st\<rparr>)"
| reread_clear: "sys_ok e \<Longrightarrow> exclude_clear e (d_exclude d) = Ret (rv, ex) \<Longrightarrow>
     daemon_step x d (d\<lparr>d_exclude := ex\<rparr>)"
| reread_line: "sys_ok e \<Longrightarrow> line_safe (dx_pton x) l \<Longrightarrow> exclude_read_line e (dx_pton x) l (d_exclude d) = Ret ex \<Longrightarrow>
     daemon_step x d (d\<lparr>d_exclude := ex\<rparr>)"
| send: "i < MAXCLIENTQUEUES \<Longrightarrow> cl_queues (as_client (d_action d)) ! i = Some q \<Longrightarrow>
     client_queue_worker nd (dx_config x) tr buff conn q = Ret (lg, q') \<Longrightarrow>
     daemon_step x d (d\<lparr>d_action := set_queue i q' (d_action d)\<rparr>)"

| client_up: "cfg_inform (dx_config x) = 1 \<Longrightarrow> cfg_inform_agents (dx_config x) \<noteq> [] \<Longrightarrow>
     agents_ok (cfg_inform_agents (dx_config x)) \<Longrightarrow> (\<And>i. sys_ok (es i)) \<Longrightarrow>
     client_start nd es (\<lambda>_. 0) (cfg_inform_agents (dx_config x)) (as_client (d_action d)) = Ret (rv, cl) \<Longrightarrow>
     daemon_step x d (d\<lparr>d_action := (d_action d)\<lparr>as_client := cl\<rparr>\<rparr>)"
| client_down: "client_stop (as_client (d_action d)) = Ret (rv, cl) \<Longrightarrow>
     daemon_step x d (d\<lparr>d_action := (d_action d)\<lparr>as_client := cl\<rparr>\<rparr>)"

inductive daemon_reach :: "daemon_ext \<Rightarrow> daemon \<Rightarrow> daemon \<Rightarrow> bool" for x d0 where
  start: "daemon_reach x d0 d0"
| step: "daemon_reach x d0 d \<Longrightarrow> daemon_step x d d' \<Longrightarrow> daemon_reach x d0 d'"

inductive_cases daemon_stepE: "daemon_step x d d'"

subsection \<open>The books of the action script\<close>

definition runs :: "ac_type \<Rightarrow> string \<Rightarrow> action_event list \<Rightarrow> nat" where
  "runs t ip evs = length (filter (\<lambda>ev. ev_type ev = t \<and> ev_ip ev = ip) evs)"

definition in_effect :: "hostrecord option \<Rightarrow> nat" where
  "in_effect p = (case p of None \<Rightarrow> 0 | Some r \<Rightarrow> if hr_processed r \<noteq> 0 then 1 else 0)"

definition balanced :: "records_st \<Rightarrow> action_st \<Rightarrow> bool" where
  "balanced st s \<longleftrightarrow> (\<forall>ip. runs AC_NEW ip (as_log s) = runs AC_REMOVE ip (as_log s) + in_effect (records_map st ip))"

text \<open>Because addresses are unique, a pass runs a command at most once per address.\<close>

lemma count_unique_keys:
  assumes "distinct (map key xs)"
  shows "length (filter (\<lambda>r. key r = k \<and> P r) xs) =
    (case map_of (map (\<lambda>r. (key r, r)) xs) k of None \<Rightarrow> 0 | Some r \<Rightarrow> if P r then 1 else 0)"
  using assms
proof (induction xs)
  case Nil
  then show ?case by simp
next
  case (Cons r xs)
  show ?case
  proof (cases "key r = k")
    case True
    then have "filter (\<lambda>r. key r = k \<and> P r) xs = []"
      using Cons.prems by (auto simp: filter_empty_conv image_iff)
    with True show ?thesis by simp
  next
    case False
    with Cons show ?thesis by simp
  qed
qed

lemma runs_append [simp]: "runs t ip (xs @ ys) = runs t ip xs + runs t ip ys"
  by (simp add: runs_def)

lemma runs_events: "runs t ip (map (event_of CONFIG t') rs) = (if t = t' then length (filter (\<lambda>r. ip_of r = ip) rs) else 0)"
  by (induction rs) (auto simp: runs_def event_of_def)

lemma runs_other: "t \<noteq> t' \<Longrightarrow> runs t ip (map (event_of CONFIG t') rs) = 0"
  by (simp add: runs_events)

lemma runs_pass:
  assumes "records_inv st"
  shows "runs t ip (map (event_of CONFIG t) (filter P (somes (hr_vector st)))) =
    (case records_map st ip of None \<Rightarrow> 0 | Some r \<Rightarrow> if P r then 1 else 0)"
proof -
  have d: "distinct (map ip_of (somes (hr_vector st)))"
    using records_invD(6) [OF assms] by (simp add: keys_unique_def)
  have "filter (\<lambda>r. ip_of r = ip) (filter P xs) = filter (\<lambda>r. ip_of r = ip \<and> P r) xs" for xs
    by (simp add: conj_commute)
  then show ?thesis
    by (simp only: runs_events simp_thms if_True count_unique_keys [OF d] records_map_def slot_map_def)
qed

subsection \<open>The invariant\<close>

definition daemon_wf :: "daemon \<Rightarrow> bool" where
  "daemon_wf d \<longleftrightarrow> records_inv (d_records d) \<and> (\<exists>N. exclude_nets N (d_exclude d))
     \<and> action_inv (d_action d)
     \<and> (\<forall>ip r. records_map (d_records d) ip = Some r \<longrightarrow> length ip > 2)"

definition daemon_inv :: "daemon \<Rightarrow> bool" where
  "daemon_inv d \<longleftrightarrow> daemon_wf d \<and> balanced (d_records d) (d_action d)"

lemma daemon_inv_iff:
  "daemon_inv d \<longleftrightarrow> records_inv (d_records d) \<and> (\<exists>N. exclude_nets N (d_exclude d)) \<and> action_inv (d_action d)
     \<and> (\<forall>ip r. records_map (d_records d) ip = Some r \<longrightarrow> length ip > 2) \<and> balanced (d_records d) (d_action d)"
  by (simp add: daemon_inv_def daemon_wf_def)

text \<open>A step that neither changes the table nor runs the script keeps the books as they are.\<close>

lemma quiet_step:
  "daemon_inv d \<Longrightarrow> daemon_wf d' \<Longrightarrow> d_records d' = d_records d \<Longrightarrow> as_log (d_action d') = as_log (d_action d) \<Longrightarrow> daemon_inv d'"
  by (simp add: daemon_inv_def balanced_def)

definition ext_ok :: "daemon_ext \<Rightarrow> bool" where
  "ext_ok x \<longleftrightarrow> pton_ok (dx_pton x) \<and> pcre_ok (dx_pcre x)"

text \<open>A table that is as before except that one address has a new record of the same status.\<close>

lemma balanced_upd:
  assumes "balanced st s" and "records_map st' = (records_map st)(ip \<mapsto> r)" and "in_effect (Some r) = in_effect (records_map st ip)"
  shows "balanced st' s"
  using assms by (simp add: balanced_def)

lemma in_effect_seen:
  "in_effect (Some (case m ip of None \<Rightarrow> fresh_record CONFIG t ip | Some r \<Rightarrow> bump_record t r)) = in_effect (m ip)"
  by (auto simp: in_effect_def fresh_record_def split: option.splits)

lemma in_effect_merge:
  "hr_processed hr = 0 \<Longrightarrow>
    in_effect (Some (case m ip of None \<Rightarrow> hr | Some r \<Rightarrow> merge_record t hr r)) = in_effect (m ip)"
  by (auto simp: in_effect_def merge_record_def split: option.splits)

lemma table_step:
  assumes "daemon_inv d" and "records_inv st" and "records_map st = (records_map (d_records d))(ip \<mapsto> r)"
    and "length ip > 2" and "in_effect (Some r) = in_effect (records_map (d_records d) ip)"
  shows "daemon_inv (d\<lparr>d_records := st\<rparr>)"
  using assms balanced_upd [of "d_records d" "d_action d" st ip r] by (auto simp: daemon_inv_iff)

lemma table_same:
  assumes "daemon_inv d" and "records_inv st" and "records_map st = records_map (d_records d)"
  shows "daemon_inv (d\<lparr>d_records := st\<rparr>)"
  using assms by (auto simp: daemon_inv_iff balanced_def)

lemma log_line_inv:
  assumes d: "daemon_inv d" and x: "ext_ok x" and e: "sys_ok e" and line: "length line < BUFFSIZE" "is_cstring line"
    "\<And>ip. capture (dx_pcre x) line = Some ip \<Longrightarrow> good_addr ip"
    and r: "regex_do e (dx_config x) (dx_pcre_info x) (dx_pcre x) (dx_pton x) (d_exclude d) line (True, d_records d) = Ret (c, st)"
  shows "daemon_inv (d\<lparr>d_records := st\<rparr>)"
proof -
  obtain N where N: "exclude_nets N (d_exclude d)" and inv: "records_inv (d_records d)"
    using d by (auto simp: daemon_inv_iff)
  have pt: "pton_ok (dx_pton x)" and pc: "pcre_ok (dx_pcre x)" using x by (auto simp: ext_ok_def)
  have st: "records_inv st"
      "records_map st = log_effect (dx_config x) (dx_pcre x) (dx_pton x) N (now e) line (records_map (d_records d))"
    using regex_do_spec [OF inv N pt pc e line, of "dx_config x" "dx_pcre_info x"] r by auto
  show ?thesis
  proof (cases "capture (dx_pcre x) line")
    case None
    with st show ?thesis by (intro table_same [OF d]) (auto simp: log_effect_def)
  next
    case (Some ip)
    then have "length ip > 2" using line(3) by (auto simp: good_addr_def)
    with Some st show ?thesis
      using table_same [OF d st(1)] table_step [OF d st(1), of ip] in_effect_seen
      by (auto simp: log_effect_def host_seen_bump split: if_splits)
  qed
qed

lemma remote_add_inv:
  assumes d: "daemon_inv d" and x: "ext_ok x" and e: "sys_ok e" and hr: "good_remote hr"
    and r: "worker_command e (dx_config x) (dx_pton x) (Some host) (d_exclude d) ADD hr (d_records d) = Ret (go, st)"
  shows "daemon_inv (d\<lparr>d_records := st\<rparr>)"
proof -
  obtain N where N: "exclude_nets N (d_exclude d)" and inv: "records_inv (d_records d)"
    using d by (auto simp: daemon_inv_iff)
  have st: "records_inv st"
      "records_map st = remote_effect (dx_config x) (dx_pton x) N host (now e) hr (records_map (d_records d))"
    using worker_command_good [OF inv N _ e hr, of "dx_pton x" "dx_config x" host] x r by (auto simp: ext_ok_def)
  have p: "hr_processed (adopt_record host hr) = 0" by (simp add: adopt_record_def)
  have ip: "length (ip_of hr) > 2" "ip_of (adopt_record host hr) = ip_of hr"
    using hr by (auto simp: good_remote_def adopt_record_wf)
  show ?thesis
  proof (cases "cfg_remote_authoritative (dx_config x) = 0 \<and> is_excluded (dx_pton x) N (ip_of hr)")
    case True
    with st show ?thesis by (intro table_same [OF d]) (auto simp: remote_effect_adopt)
  next
    case False
    with st ip show ?thesis
      by (intro table_step [OF d st(1) _ ip(1) in_effect_merge [OF p, where m = "records_map (d_records d)" and ip = "ip_of hr" and t = "now e"]]) (auto simp: remote_effect_adopt host_merge_record)
  qed
qed

lemma in_effect_acted:
  "in_effect (map_option (acted t) p) = in_effect p + (case p of None \<Rightarrow> 0 | Some r \<Rightarrow> if due r then 1 else 0)"
  by (auto simp: in_effect_def acted_def due_def split: option.splits)

lemma daemon_wf_actionable:
  assumes "daemon_wf d" and "Some r \<in> set (hr_vector (d_records d))"
  shows "actionable c r"
proof -
  have "records_inv (d_records d)" using assms(1) by (simp add: daemon_wf_def)
  with assms(2) have "records_map (d_records d) (ip_of r) = Some r" by (simp add: records_map_Some)
  then show ?thesis using assms(1) by (auto simp: daemon_wf_def actionable_def)
qed

lemma daemon_actionable: "daemon_inv d \<Longrightarrow> Some r \<in> set (hr_vector (d_records d)) \<Longrightarrow> actionable c r"
  by (auto simp: daemon_inv_def intro: daemon_wf_actionable)

lemma action_pass_inv:
  assumes d: "daemon_inv d" and e: "action_ok e (dx_config x)"
    and r: "action_thread_pass e (dx_config x) (d_records d, d_action d) = Ret (st, s)"
  shows "daemon_inv (d\<lparr>d_records := st, d_action := s\<rparr>)"
proof -
  have inv: "records_inv (d_records d)" and ai: "action_inv (d_action d)"
    using d by (auto simp: daemon_inv_iff)
  note act = daemon_actionable [OF d]
  let ?t = "now (act_sys e)"
  note p = action_thread_pass_spec [OF inv e ai act, unfolded r, simplified]
  have "balanced st s"
    unfolding balanced_def
  proof
    fix ip
    have "runs AC_NEW ip (as_log (d_action d)) =
        runs AC_REMOVE ip (as_log (d_action d)) + in_effect (records_map (d_records d) ip)"
      using d by (auto simp: daemon_inv_iff balanced_def)
    with p show "runs AC_NEW ip (as_log s) = runs AC_REMOVE ip (as_log s) + in_effect (records_map st ip)"
      by (simp add: runs_pass [OF inv] runs_other in_effect_acted)
  qed
  with p d show ?thesis by (auto simp: daemon_inv_iff)
qed

lemma in_effect_kept:
  "in_effect p = in_effect (keep_record p) + (case p of None \<Rightarrow> 0 | Some r \<Rightarrow> if hr_remove r \<noteq> 0 \<and> hr_processed r \<noteq> 0 then 1 else 0)"
  by (auto simp: in_effect_def keep_record_def split: option.splits)

lemma maintenance_pass_inv:
  assumes d: "daemon_inv d" and e: "action_ok e (dx_config x)"
    and r: "maintenance_thread_pass e (dx_config x) (d_records d, d_action d) = Ret (st, s)"
  shows "daemon_inv (d\<lparr>d_records := st, d_action := s\<rparr>)"
proof -
  have inv: "records_inv (d_records d)" using d by (auto simp: daemon_inv_iff)
  note p = maintenance_thread_pass_spec [OF inv e, of "d_action d", unfolded r, simplified]
  have m: "records_inv st" "records_map st = (\<lambda>ip. keep_record (records_map (d_records d) ip))"
    using p by (auto simp: maintained_def)
  have "balanced st s"
    unfolding balanced_def
  proof
    fix ip
    have "runs AC_NEW ip (as_log (d_action d)) =
        runs AC_REMOVE ip (as_log (d_action d)) + in_effect (records_map (d_records d) ip)"
      using d by (auto simp: daemon_inv_iff balanced_def)
    with p m show "runs AC_NEW ip (as_log s) = runs AC_REMOVE ip (as_log s) + in_effect (records_map st ip)"
      using in_effect_kept [of "records_map (d_records d) ip"]
      by (simp add: runs_pass [OF inv] runs_other)
  qed
  with p m d show ?thesis by (auto simp: daemon_inv_iff action_inv_def dest: keep_record_SomeD)
qed

lemma remove_all_inv:
  assumes d: "daemon_inv d" and e: "sys_ok e"
    and r: "records_enumerate_thread e records_callback_remove_all (d_records d, ()) = Ret (st, u)"
  shows "daemon_inv (d\<lparr>d_records := st\<rparr>)"
proof -
  have inv: "records_inv (d_records d)" using d by (auto simp: daemon_inv_iff)
  have st: "records_inv st" "records_map st = (\<lambda>ip. map_option (\<lambda>r. r\<lparr>hr_remove := 1\<rparr>) (records_map (d_records d) ip))"
    using remove_all_spec [OF inv e, of "()"] r by auto
  have "in_effect (map_option (\<lambda>r. r\<lparr>hr_remove := 1\<rparr>) p) = in_effect p" for p
    by (auto simp: in_effect_def split: option.splits)
  with st d show ?thesis by (auto simp: daemon_inv_iff balanced_def)
qed

subsection \<open>Sending\<close>

lemma send_wf:
  assumes d: "daemon_wf d" and i: "i < MAXCLIENTQUEUES" "cl_queues (as_client (d_action d)) ! i = Some q"
    and r: "client_queue_worker nd (dx_config x) tr buff conn q = Ret (lg, q')"
  shows "daemon_wf (d\<lparr>d_action := set_queue i q' (d_action d)\<rparr>)"
proof -
  let ?cl = "as_client (d_action d)"
  have ci: "client_inv ?cl" and len: "length (cl_queues ?cl) = MAXCLIENTQUEUES"
    using d by (auto simp: daemon_wf_def action_inv_def client_inv_def)
  have q': "q' = q \<or> q' = q\<lparr>cq_head := []\<rparr>"
    using client_queue_worker_head [OF r] .
  let ?cl' = "?cl\<lparr>cl_queues := (cl_queues ?cl)[i := Some q']\<rparr>"
  have act: "active ?cl' = (active ?cl)[i := q']"
    unfolding active_def using i len by (simp add: takeWhile_upd_Some map_update del: not_None_eq)
  have "\<exists>q0 \<in> set (active ?cl). cq_freed q'' = cq_freed q0 \<and> (q'' = q0 \<or> cq_head q'' = [])" if "q'' \<in> set (active ?cl')" for q''
  proof (cases "i < length (active ?cl)")
    case True
    then have "active ?cl ! i = q"
      using i(2) by (simp add: active_def takeWhile_nth)
    with True have "q \<in> set (active ?cl)" by (metis nth_mem)
    moreover have "q'' = q' \<or> q'' \<in> set (active ?cl)"
      using that act set_update_subset_insert [of "active ?cl" i q'] by auto
    ultimately show ?thesis using q' by auto
  next
    case False
    then show ?thesis using that act by (auto simp: list_update_beyond)
  qed
  then have "client_inv ?cl'" using ci unfolding client_inv_def by fastforce
  then have "action_inv (set_queue i q' (d_action d))"
    using d by (simp add: daemon_wf_def action_inv_def set_queue_def)
  with d show ?thesis by (simp add: daemon_wf_def set_queue_def)
qed

subsection \<open>Every reachable state\<close>

lemma reread_clear_wf:
  assumes d: "daemon_wf d" and e: "sys_ok e" and r: "exclude_clear e (d_exclude d) = Ret (rv, ex)"
  shows "daemon_wf (d\<lparr>d_exclude := ex\<rparr>)"
proof -
  obtain N where N: "exclude_nets N (d_exclude d)" using d by (auto simp: daemon_wf_def)
  have "\<exists>N. exclude_nets N ex" using exclude_clear_spec [OF N, of e] e r by (auto simp: sys_ok_def)
  with d show ?thesis by (simp add: daemon_wf_def)
qed

lemma reread_line_wf:
  assumes d: "daemon_wf d" and x: "ext_ok x" and e: "sys_ok e" and l: "line_safe (dx_pton x) l"
    and r: "exclude_read_line e (dx_pton x) l (d_exclude d) = Ret ex"
  shows "daemon_wf (d\<lparr>d_exclude := ex\<rparr>)"
proof -
  obtain N where N: "exclude_nets N (d_exclude d)" using d by (auto simp: daemon_wf_def)
  have "\<exists>N. exclude_nets N ex" using exclude_read_line_spec [OF N _ e l] x r by (auto simp: ext_ok_def)
  with d show ?thesis by (simp add: daemon_wf_def)
qed

lemma client_step_wf:
  assumes "daemon_wf d" and "client_inv cl"
  shows "daemon_wf (d\<lparr>d_action := (d_action d)\<lparr>as_client := cl\<rparr>\<rparr>)"
  using assms by (simp add: daemon_wf_def action_inv_def)

lemma client_up_wf:
  assumes "daemon_wf d" and "agents_ok aglist" and "aglist \<noteq> []" and "\<And>i. sys_ok (es i)"
    and "client_start nd es (\<lambda>_. 0) aglist (as_client (d_action d)) = Ret (rv, cl)"
  shows "daemon_wf (d\<lparr>d_action := (d_action d)\<lparr>as_client := cl\<rparr>\<rparr>)"
  using client_start_spec [of aglist es nd "as_client (d_action d)", OF assms(2-4)] assms(5)
  by (intro client_step_wf [OF assms(1)]) simp

lemma client_down_wf:
  assumes "daemon_wf d" and "client_stop (as_client (d_action d)) = Ret (rv, cl)"
  shows "daemon_wf (d\<lparr>d_action := (d_action d)\<lparr>as_client := cl\<rparr>\<rparr>)"
proof -
  have "client_inv (as_client (d_action d))" using assms(1) by (simp add: daemon_wf_def action_inv_def)
  from client_stop_spec [OF this client_stop_live [OF assms(2) this]] assms(2) show ?thesis by (intro client_step_wf [OF assms(1)]) simp
qed

lemma daemon_step_inv:
  assumes "daemon_step x d d'" and "ext_ok x" and "daemon_inv d"
  shows "daemon_inv d'"
  using assms
proof (induction rule: daemon_step.induct)
  case (log_line e line d c st)
  then show ?case using log_line_inv by blast
next
  case (remote_add e hr host d go st)
  then show ?case using remote_add_inv by blast
next
  case (action_pass e d st s)
  then show ?case using action_pass_inv by blast
next
  case (maintenance_pass e d st s)
  then show ?case using maintenance_pass_inv by blast
next
  case (remove_all e d st u)
  then show ?case using remove_all_inv by blast
next
  case (reread_clear e d rv ex)
  then show ?case by (intro quiet_step [OF _ reread_clear_wf]) (auto simp: daemon_inv_def)
next
  case (reread_line e l d ex)
  then show ?case by (intro quiet_step [OF _ reread_line_wf]) (auto simp: daemon_inv_def)
next
  case (send i d q nd tr buff conn lg q')
  then show ?case by (intro quiet_step [OF _ send_wf]) (auto simp: daemon_inv_def set_queue_def)
next
  case (client_up es nd d rv cl)
  then show ?case by (intro quiet_step [OF _ client_up_wf [OF _ client_up(3,2,4,5)]]) (auto simp: daemon_inv_def)
next
  case (client_down d rv cl)
  then show ?case by (intro quiet_step [OF _ client_down_wf]) (auto simp: daemon_inv_def)
qed

text \<open>A step beside the table keeps the rest of the invariant even while the books are open.\<close>

lemma daemon_side_wf:
  assumes "daemon_step x d d'" and "ext_ok x" and "daemon_wf d" and "d_records d' = d_records d"
  shows "daemon_wf d'"
  using assms
proof (induction rule: daemon_step.induct)
  case (action_pass e d st s)
  from action_pass(4) have "records_inv (d_records d)" "action_inv (d_action d)" by (auto simp: daemon_wf_def)
  from action_thread_pass_spec [OF this(1) action_pass(1) this(2) daemon_wf_actionable [OF action_pass(4)]] action_pass
  show ?case by (auto simp: daemon_wf_def)
next
  case (maintenance_pass e d st s)
  from maintenance_pass(4) have "records_inv (d_records d)" by (auto simp: daemon_wf_def)
  from maintenance_thread_pass_spec [OF this maintenance_pass(1), of "d_action d"] maintenance_pass
  show ?case by (auto simp: daemon_wf_def action_inv_def)
next
  case (client_up es nd d rv cl)
  then show ?case by (intro client_up_wf [OF _ client_up(3,2,4,5)])
next
  case (send i d q nd tr buff conn lg q')
  then show ?case by (intro send_wf)
next
  case (reread_clear e d rv ex)
  then show ?case by (intro reread_clear_wf)
next
  case (reread_line e l d ex)
  then show ?case by (intro reread_line_wf)
next
  case (client_down d rv cl)
  then show ?case by (intro client_down_wf)
qed (simp_all add: daemon_wf_def)

lemma daemon_reach_inv:
  assumes "daemon_reach x d0 d" and "ext_ok x" and "daemon_inv d0"
  shows "daemon_inv d"
  using assms by (induction rule: daemon_reach.induct) (auto intro: daemon_step_inv)

text \<open>
  The state \<^verbatim>\<open>main\<close> has built when it starts the threads: empty table, empty list, and a client that has not
  been started.
\<close>

definition daemon_start :: "daemon_ext \<Rightarrow> daemon \<Rightarrow> bool" where
  "daemon_start x d \<longleftrightarrow> (\<exists>e. sys_ok e \<and> records_init e records_start = Ret (d_records d))
     \<and> (\<exists>e. sys_ok e \<and> exclude_init e exclude_start = Ret (d_exclude d))
     \<and> d_action d = \<lparr>as_client = client_init_st, as_log = []\<rparr>"

lemma daemon_start_inv:
  assumes "daemon_start x d"
  shows "daemon_inv d"
proof -
  obtain e e' where e: "sys_ok e" "records_init e records_start = Ret (d_records d)"
      "sys_ok e'" "exclude_init e' exclude_start = Ret (d_exclude d)"
    and a: "d_action d = \<lparr>as_client = client_init_st, as_log = []\<rparr>"
    using assms by (auto simp: daemon_start_def)
  have r: "records_inv (d_records d)" "records_map (d_records d) = (\<lambda>_. None)"
    using records_init_spec [of records_start e] e by (auto simp: records_start_def hr_vector_chunksize_def)
  have ex: "exclude_nets {#} (d_exclude d)"
    using exclude_init_spec [of exclude_start e'] e by (auto simp: exclude_start_def er_vector_chunksize_def)
  show ?thesis
    using r ex a client_init_inv by (auto simp: daemon_inv_iff action_inv_def balanced_def runs_def in_effect_def)
qed

subsection \<open>Shutdown\<close>

text \<open>\<^verbatim>\<open>main\<close> ends with \<^verbatim>\<open>records_destroy\<close> and the removal callback: every \<^verbatim>\<open>new\<close> gets its \<^verbatim>\<open>remove\<close>.\<close>

lemma daemon_shutdown:
  assumes d: "daemon_inv d" and e: "action_ok e (dx_config x)"
  shows "returns (records_destroy (act_sys e) (Some (threads_records_callback_action_removal e (dx_config x))) (d_records d, d_action d))
    (\<lambda>(st, s). \<forall>ip. runs AC_NEW ip (as_log s) = runs AC_REMOVE ip (as_log s))"
proof -
  have inv: "records_inv (d_records d)" using d by (auto simp: daemon_inv_iff)
  have eq: "in_effect p = (case p of None \<Rightarrow> 0 | Some r \<Rightarrow> if hr_processed r \<noteq> 0 then 1 else 0)" for p
    by (simp add: in_effect_def)
  have "balanced (d_records d) (d_action d)" using d by (simp add: daemon_inv_iff)
  then show ?thesis
    unfolding records_destroy_spec [OF inv removal_rm_ok [OF e] TrueI]
    by (simp add: removal_fold balanced_def runs_pass [OF inv] runs_other eq)
qed


text \<open>Every section returns in every state that satisfies the invariant.\<close>

lemma daemon_sections_return:
  assumes d: "daemon_inv d" and x: "ext_ok x"
  shows "sys_ok e \<Longrightarrow> length line < BUFFSIZE \<Longrightarrow> is_cstring line \<Longrightarrow> (\<And>ip. capture (dx_pcre x) line = Some ip \<Longrightarrow> good_addr ip) \<Longrightarrow>
      \<exists>r. regex_do e (dx_config x) (dx_pcre_info x) (dx_pcre x) (dx_pton x) (d_exclude d) line (True, d_records d) = Ret (True, r)"
    and "sys_ok e \<Longrightarrow> good_remote hr \<Longrightarrow>
      \<exists>r. worker_command e (dx_config x) (dx_pton x) (Some host) (d_exclude d) ADD hr (d_records d) = Ret (True, r)"
    and "action_ok ae (dx_config x) \<Longrightarrow> \<exists>r. action_thread_pass ae (dx_config x) (d_records d, d_action d) = Ret r"
    and "action_ok ae (dx_config x) \<Longrightarrow> \<exists>r. maintenance_thread_pass ae (dx_config x) (d_records d, d_action d) = Ret r"
    and "sys_ok e \<Longrightarrow> \<exists>r. records_enumerate_thread e records_callback_remove_all (d_records d, ()) = Ret r"
    and "sys_ok e \<Longrightarrow> \<exists>r. exclude_clear e (d_exclude d) = Ret (RETVAL_OK, r)"
    and "sys_ok e \<Longrightarrow> line_safe (dx_pton x) l \<Longrightarrow> \<exists>r. exclude_read_line e (dx_pton x) l (d_exclude d) = Ret r"
proof -
  obtain N where N: "exclude_nets N (d_exclude d)" and inv: "records_inv (d_records d)"
    and ai: "action_inv (d_action d)"
    using d by (auto simp: daemon_inv_iff)
  have pt: "pton_ok (dx_pton x)" and pc: "pcre_ok (dx_pcre x)" using x by (auto simp: ext_ok_def)
  note act = daemon_actionable [OF d]
  {
    assume "sys_ok e" "length line < BUFFSIZE" "is_cstring line" "\<And>ip. capture (dx_pcre x) line = Some ip \<Longrightarrow> good_addr ip"
    from regex_do_spec [OF inv N pt pc this, of "dx_config x" "dx_pcre_info x"]
    show "\<exists>r. regex_do e (dx_config x) (dx_pcre_info x) (dx_pcre x) (dx_pton x) (d_exclude d) line (True, d_records d) = Ret (True, r)"
      unfolding returns_iff by auto
  next
    assume "sys_ok e" "good_remote hr"
    from worker_command_good [OF inv N pt this, of "dx_config x" host]
    show "\<exists>r. worker_command e (dx_config x) (dx_pton x) (Some host) (d_exclude d) ADD hr (d_records d) = Ret (True, r)"
      unfolding returns_iff by auto
  next
    assume "action_ok ae (dx_config x)"
    from action_thread_pass_spec [OF inv this ai act]
    show "\<exists>r. action_thread_pass ae (dx_config x) (d_records d, d_action d) = Ret r"
      unfolding returns_iff by blast
  next
    assume "action_ok ae (dx_config x)"
    from maintenance_thread_pass_spec [OF inv this, of "d_action d"]
    show "\<exists>r. maintenance_thread_pass ae (dx_config x) (d_records d, d_action d) = Ret r"
      unfolding returns_iff by blast
  next
    assume "sys_ok e"
    from remove_all_spec [OF inv this, of "()"]
    show "\<exists>r. records_enumerate_thread e records_callback_remove_all (d_records d, ()) = Ret r"
      unfolding returns_iff by blast
  next
    assume "sys_ok e"
    with exclude_clear_spec [OF N, of e] show "\<exists>r. exclude_clear e (d_exclude d) = Ret (RETVAL_OK, r)"
      by (cases "exclude_clear e (d_exclude d)") (auto simp: sys_ok_def)
  next
    assume "sys_ok e" "line_safe (dx_pton x) l"
    from exclude_read_line_spec [OF N pt this] show "\<exists>r. exclude_read_line e (dx_pton x) l (d_exclude d) = Ret r"
      unfolding returns_iff by blast
  }
qed

text \<open>The sending thread, and the two calls \<^verbatim>\<open>main\<close> makes for the client.\<close>

lemma client_sections_return:
  assumes d: "daemon_inv d"
  shows "q \<in> set (active (as_client (d_action d))) \<Longrightarrow> tls_ready (tr_tls tr) (tr_fd tr) \<Longrightarrow> length buff = REMOTE_COMMAND_SIZE \<Longrightarrow>
      \<exists>r. client_queue_worker nd CONFIG tr buff tls_null q = Ret r"
    and "agents_ok agents \<Longrightarrow> agents \<noteq> [] \<Longrightarrow> (\<And>i. sys_ok (es i)) \<Longrightarrow>
      \<exists>cl. client_start nd es (\<lambda>_. 0) agents (as_client (d_action d)) = Ret (RETVAL_OK, cl)"
    and "cl_started (as_client (d_action d)) \<Longrightarrow> \<exists>cl. client_stop (as_client (d_action d)) = Ret (RETVAL_OK, cl)"
proof -
  have ci: "client_inv (as_client (d_action d))" using d by (simp add: daemon_inv_iff action_inv_def)
  show "\<exists>r. client_queue_worker nd CONFIG tr buff tls_null q = Ret r"
    if "q \<in> set (active (as_client (d_action d)))" "tls_ready (tr_tls tr) (tr_fd tr)" "length buff = REMOTE_COMMAND_SIZE"
  proof (cases "cq_head q = []")
    case True
    then show ?thesis by (simp add: client_queue_worker_def)
  next
    case False
    have "\<forall>r \<in> set (cq_head q). sendable r" using ci that(1) by (simp add: client_inv_def)
    from client_queue_worker_spec [OF False this that(3,2), of nd CONFIG] show ?thesis unfolding returns_iff by blast
  qed
  show "\<exists>cl. client_start nd es (\<lambda>_. 0) agents (as_client (d_action d)) = Ret (RETVAL_OK, cl)"
    if "agents_ok agents" "agents \<noteq> []" "\<And>i. sys_ok (es i)"
    using client_start_spec [of agents es nd "as_client (d_action d)", OF that] unfolding returns_iff by auto
  show "\<exists>cl. client_stop (as_client (d_action d)) = Ret (RETVAL_OK, cl)" if "cl_started (as_client (d_action d))"
    using client_stop_spec [OF ci client_inv_live [OF ci that]] unfolding returns_iff by auto
qed

subsection \<open>Properties\<close>

text \<open>
  A run for the witnesses: a daemon that acts at the first sighting starts, sees one line of the log, and
  the action thread makes a pass.
\<close>

definition demo_ext :: daemon_ext where
  "demo_ext = \<lparr>dx_config = demo_config\<lparr>cfg_action_threshold := 1\<rparr>, dx_pton = demo_pton, dx_pcre = demo_pcre, dx_pcre_info = demo_pcre_info\<rparr>"

definition demo_daemon :: daemon where
  "demo_daemon = \<lparr>d_records = empty_records, d_exclude = empty_excludes, d_action = idle_action\<rparr>"

lemma demo_ext_ok [simp]: "ext_ok demo_ext" "action_ok calm_action (dx_config demo_ext)"
  using calm_action_ok(1) by (simp_all add: ext_ok_def demo_ext_def action_ok_def)

lemma demo_daemon_start [simp]: "daemon_start demo_ext demo_daemon"
  unfolding daemon_start_def
  by (intro conjI exI [of _ calm_env])
    (simp_all add: demo_daemon_def demo_ext_def idle_action_def records_init_def exclude_init_def empty_records_def
      empty_excludes_def records_start_def exclude_start_def c_assert_def calm_env_def sys_ok_def)

lemma demo_seen:
  "\<exists>st. daemon_reach (demo_ext\<lparr>dx_config := c\<rparr>) demo_daemon (demo_daemon\<lparr>d_records := st\<rparr>) \<and> records_inv st
    \<and> records_map st ''10.1.2.3'' = Some (fresh_record c 1000 ''10.1.2.3'')"
proof -
  let ?x = "demo_ext\<lparr>dx_config := c\<rparr>"
  let ?line = "''Failed from 10.1.2.3'' @ [CHR 0x0A]"
  let ?d = demo_daemon
  have line: "length ?line < BUFFSIZE" "is_cstring ?line" "\<And>ip. capture demo_pcre ?line = Some ip \<Longrightarrow> good_addr ip"
    using demo_line_cstr(2,3) by (simp add: BUFFSIZE_def, blast, simp only: demo_capture option.inject)
  have dd: "d_records ?d = empty_records" "d_exclude ?d = empty_excludes" "dx_pcre ?x = demo_pcre" "dx_pton ?x = demo_pton"
      "dx_pcre_info ?x = demo_pcre_info"
    by (simp_all add: demo_daemon_def demo_ext_def)
  obtain st where st: "regex_do calm_env c demo_pcre_info demo_pcre demo_pton empty_excludes ?line (True, empty_records) = Ret (True, st)"
      "records_inv st" "records_map st = log_effect c demo_pcre demo_pton {#} 1000 ?line (records_map empty_records)"
    using regex_do_spec [of empty_records "{#}" empty_excludes demo_pton demo_pcre calm_env ?line c demo_pcre_info] line
    unfolding returns_iff by auto
  have "daemon_reach ?x ?d (?d\<lparr>d_records := st\<rparr>)"
    by (rule daemon_reach.step [OF daemon_reach.start daemon_step.log_line [of calm_env ?line]])
      (use st(1) line dd in auto)
  moreover have "records_map st ''10.1.2.3'' = Some (fresh_record c 1000 ''10.1.2.3'')"
    using st(3) by (simp add: log_effect_def is_excluded_def host_seen_bump del: append_Cons append_Nil)
  ultimately show ?thesis using st(2) by blast
qed

lemma demo_run_record:
  assumes c: "cfg_action_threshold c = 1" "cfg_inform c = 0" "terminated (cfg_action c)"
  shows "\<exists>d. daemon_reach (demo_ext\<lparr>dx_config := c\<rparr>) demo_daemon d \<and> runs AC_NEW ''10.1.2.3'' (as_log (d_action d)) = 1
    \<and> records_map (d_records d) ''10.1.2.3'' = Some ((fresh_record c 1000 ''10.1.2.3'')\<lparr>hr_processed := 1\<rparr>)"
proof -
  let ?x = "demo_ext\<lparr>dx_config := c\<rparr>" and ?d = demo_daemon and ?r = "fresh_record c 1000 ''10.1.2.3''"
  obtain st where st: "daemon_reach ?x ?d (?d\<lparr>d_records := st\<rparr>)" "records_inv st" "records_map st ''10.1.2.3'' = Some ?r"
    using demo_seen by blast
  have ok: "action_ok calm_action c" using c(3) calm_action_ok(1) by (simp add: action_ok_def)
  have due: "due ?r" using c(1) by (simp add: due_def fresh_record_def word_sle_eq)
  have act: "actionable c r" for r using c(2) by (simp add: actionable_def relayed_def)
  obtain st' s' where p: "action_thread_pass calm_action c (st, idle_action) = Ret (st', s')"
      "as_log s' = map (event_of c AC_NEW) (filter due (somes (hr_vector st)))"
      "records_map st' ''10.1.2.3'' = map_option (acted 1000) (records_map st ''10.1.2.3'')"
    using action_thread_pass_spec [OF st(2) ok idle_action_inv(1) act] unfolding returns_iff by auto
  have "daemon_reach ?x ?d (?d\<lparr>d_records := st\<rparr>\<lparr>d_records := st', d_action := s'\<rparr>)"
    by (rule daemon_reach.step [OF st(1) daemon_step.action_pass [of calm_action]])
      (use ok p(1) in \<open>simp_all add: demo_daemon_def\<close>)
  moreover have "runs AC_NEW ''10.1.2.3'' (as_log s') = 1"
    using p(2) st(3) due by (simp add: runs_pass [OF st(2)])
  moreover have "records_map st' ''10.1.2.3'' = Some (?r\<lparr>hr_processed := 1\<rparr>)"
    using p(3) st(3) due by (simp add: acted_def)
  ultimately show ?thesis by (intro exI conjI) auto
qed

lemma demo_run_config:
  assumes "cfg_action_threshold c = 1" and "cfg_inform c = 0" and "terminated (cfg_action c)"
  shows "\<exists>d. daemon_reach (demo_ext\<lparr>dx_config := c\<rparr>) demo_daemon d \<and> runs AC_NEW ''10.1.2.3'' (as_log (d_action d)) = 1"
  using demo_run_record [OF assms] by blast

lemma demo_run: "\<exists>d. daemon_reach demo_ext demo_daemon d \<and> runs AC_NEW ''10.1.2.3'' (as_log (d_action d)) = 1"
proof -
  have "demo_ext\<lparr>dx_config := demo_config\<lparr>cfg_action_threshold := 1\<rparr>\<rparr> = demo_ext" by (simp add: demo_ext_def)
  with demo_run_config [of "demo_config\<lparr>cfg_action_threshold := 1\<rparr>"] show ?thesis by simp
qed

text \<open>
  C1. The books of the action script, in every state the daemon can reach, whatever the order in which its
  threads take their turns: the host table satisfies its invariant, and for every address the script has been
  run with \<^verbatim>\<open>new\<close> once more than with \<^verbatim>\<open>remove\<close> if a processed record of the address is in the table, and
  equally often if not. So no address is acted upon twice without being released, and none is released
  that was not acted upon.
\<close>

theorem daemon_balance:
  assumes "daemon_start x d0" and "ext_ok x" and "daemon_reach x d0 d"
  shows "records_inv (d_records d) \<and> runs AC_NEW ip (as_log (d_action d)) =
    runs AC_REMOVE ip (as_log (d_action d)) +
      (case records_map (d_records d) ip of None \<Rightarrow> 0 | Some r \<Rightarrow> if hr_processed r \<noteq> 0 then 1 else 0)"
  using daemon_reach_inv [OF assms(3,2) daemon_start_inv [OF assms(1)]]
  by (simp add: daemon_inv_iff balanced_def in_effect_def)

theorem daemon_balance_witness:
  "\<exists>d. daemon_reach demo_ext demo_daemon d \<and> runs AC_NEW ''10.1.2.3'' (as_log (d_action d)) = 1
     \<and> runs AC_REMOVE ''10.1.2.3'' (as_log (d_action d)) + (case records_map (d_records d) ''10.1.2.3'' of
         None \<Rightarrow> 0 | Some r \<Rightarrow> if hr_processed r \<noteq> 0 then 1 else 0) = (1 :: nat)"
  using demo_run daemon_balance [OF demo_daemon_start demo_ext_ok(1), of _ "''10.1.2.3''"] by metis

text \<open>
  An orderly shutdown leaves nothing behind: from every state the daemon can reach, \<^verbatim>\<open>records_destroy\<close> with
  the removal callback returns, and afterwards the script has been run with \<^verbatim>\<open>remove\<close> exactly as often as
  with \<^verbatim>\<open>new\<close> for every address.
\<close>

theorem daemon_shutdown_matched:
  assumes "daemon_start x d0" and "ext_ok x" and "daemon_reach x d0 d" and "action_ok e (dx_config x)"
  shows "returns (records_destroy (act_sys e) (Some (threads_records_callback_action_removal e (dx_config x))) (d_records d, d_action d))
    (\<lambda>(st, s). \<forall>ip. runs AC_NEW ip (as_log s) = runs AC_REMOVE ip (as_log s))"
  by (rule daemon_shutdown [OF daemon_reach_inv [OF assms(3,2) daemon_start_inv [OF assms(1)]] assms(4)])

theorem daemon_shutdown_matched_witness:
  "\<exists>d. daemon_reach demo_ext demo_daemon d \<and> runs AC_NEW ''10.1.2.3'' (as_log (d_action d)) = 1
     \<and> returns (records_destroy calm_env (Some (threads_records_callback_action_removal calm_action (dx_config demo_ext))) (d_records d, d_action d))
         (\<lambda>(st, s). runs AC_NEW ''10.1.2.3'' (as_log s) = runs AC_REMOVE ''10.1.2.3'' (as_log s))"
proof -
  obtain d where d: "daemon_reach demo_ext demo_daemon d" "runs AC_NEW ''10.1.2.3'' (as_log (d_action d)) = 1"
    using demo_run by blast
  have "act_sys calm_action = calm_env" by (simp add: calm_action_def)
  with daemon_shutdown_matched [OF demo_daemon_start demo_ext_ok(1) d(1) demo_ext_ok(2)]
  have "returns (records_destroy calm_env (Some (threads_records_callback_action_removal calm_action (dx_config demo_ext))) (d_records d, d_action d))
      (\<lambda>(st, s). \<forall>ip. runs AC_NEW ip (as_log s) = runs AC_REMOVE ip (as_log s))" by simp
  then show ?thesis using d by (intro exI [of _ d] conjI) (auto elim!: ospec_mono)
qed

end
