(* ===== verification/Output.thy ===== *)
theory Output
  imports Prelude
begin

section \<open>Messages (output.c)\<close>

text \<open>
  The two static variables of \<^verbatim>\<open>output.c\<close> and what reaches the outside: \<open>ot_trace\<close> lists the calls of
  \<^verbatim>\<open>openlog\<close>, \<^verbatim>\<open>closelog\<close> and \<^verbatim>\<open>syslog\<close> and the lines printed. A message is the text its format and arguments
  stand for; \<^verbatim>\<open>vsnprintf\<close> keeps what fits into the buffer. The lemmas show that the log is opened and
  closed in turn, that no message is longer than the buffer, and where a message goes.
\<close>

subsection \<open>Data\<close>

datatype outtype = SYSLOG | CONSOLE

datatype priority = LOG_ERR | LOG_INFO | LOG_DEBUG

datatype out_event = Openlog | Closelog | To_stdout string | To_stderr string | To_syslog priority string

record output_st =
  ot_OTYPE :: outtype
  ot_SYSLOG_INIT :: bool
  ot_trace :: "out_event list"

definition output_start :: output_st where
  "output_start = \<lparr>ot_OTYPE = CONSOLE, ot_SYSLOG_INIT = False, ot_trace = []\<rparr>"

definition emit :: "out_event \<Rightarrow> output_st \<Rightarrow> output_st" where
  "emit ev st = st\<lparr>ot_trace := ot_trace st @ [ev]\<rparr>"

text \<open>\<^verbatim>\<open>vsnprintf(buff, BUFFSIZE, ...)\<close>: the string in the buffer afterwards.\<close>

definition out_buffer :: "string \<Rightarrow> string" where
  "out_buffer msg = take (BUFFSIZE - 1) msg"

subsection \<open>Operations\<close>

definition out_done :: "output_st \<Rightarrow> output_st" where
  "out_done st = (if ot_SYSLOG_INIT st then (emit Closelog st)\<lparr>ot_SYSLOG_INIT := False\<rparr> else st)"

definition out_settype :: "outtype \<Rightarrow> output_st \<Rightarrow> output_st" where
  "out_settype type st =
     (case type of
        SYSLOG \<Rightarrow> if \<not> ot_SYSLOG_INIT st then (emit Openlog st)\<lparr>ot_SYSLOG_INIT := True\<rparr> else st
      | CONSOLE \<Rightarrow> if ot_SYSLOG_INIT st then (emit Closelog st)\<lparr>ot_SYSLOG_INIT := False\<rparr> else st)
     \<lparr>ot_OTYPE := type\<rparr>"

definition out_gettype :: "output_st \<Rightarrow> outtype" where
  "out_gettype st = ot_OTYPE st"

text \<open>Lines printed on the console end with a newline, which is left out.\<close>

definition out_err :: "string \<Rightarrow> output_st \<Rightarrow> output_st" where
  "out_err msg st = (case ot_OTYPE st of
     CONSOLE \<Rightarrow> emit (To_stderr (out_buffer msg)) st | SYSLOG \<Rightarrow> emit (To_syslog LOG_ERR (out_buffer msg)) st)"

text \<open>\<open>strerr\<close> is what \<^verbatim>\<open>strerror_r\<close> or \<^verbatim>\<open>strerror\<close> delivers for the number.\<close>

definition out_syserr :: "(i32 \<Rightarrow> string) \<Rightarrow> i32 \<Rightarrow> string \<Rightarrow> output_st \<Rightarrow> output_st" where
  "out_syserr strerr no msg st =
     (let buff = out_buffer msg;
          buff2 = out_buffer (buff @ '' (errval '' @ show_i32 no @ '': '' @ strerr no @ '')'')
      in case ot_OTYPE st of
           CONSOLE \<Rightarrow> emit (To_stderr buff2) st | SYSLOG \<Rightarrow> emit (To_syslog LOG_ERR buff2) st)"

definition out_msg :: "string \<Rightarrow> output_st \<Rightarrow> output_st" where
  "out_msg msg st = (case ot_OTYPE st of
     CONSOLE \<Rightarrow> emit (To_stdout (out_buffer msg)) st | SYSLOG \<Rightarrow> emit (To_syslog LOG_INFO (out_buffer msg)) st)"

text \<open>Only in a build with \<^verbatim>\<open>DEBUG\<close>; otherwise \<^verbatim>\<open>out_dbg\<close> is an empty macro.\<close>

definition out_dbg :: "string \<Rightarrow> output_st \<Rightarrow> output_st" where
  "out_dbg msg st = (case ot_OTYPE st of
     CONSOLE \<Rightarrow> emit (To_stdout (''DEBUG: '' @ out_buffer msg)) st | SYSLOG \<Rightarrow> emit (To_syslog LOG_DEBUG (out_buffer msg)) st)"

subsection \<open>Sequences of calls\<close>

datatype out_request = Settype outtype | Done | Err string | Syserr i32 string | Msg string | Dbg string

fun out_call :: "(i32 \<Rightarrow> string) \<Rightarrow> out_request \<Rightarrow> output_st \<Rightarrow> output_st" where
  "out_call strerr (Settype t) = out_settype t"
| "out_call strerr Done = out_done"
| "out_call strerr (Err m) = out_err m"
| "out_call strerr (Syserr n m) = out_syserr strerr n m"
| "out_call strerr (Msg m) = out_msg m"
| "out_call strerr (Dbg m) = out_dbg m"

text \<open>
  The trace as the system sees it: \<open>Some b\<close> if \<^verbatim>\<open>openlog\<close> and \<^verbatim>\<open>closelog\<close> alternate, starting with the
  former, and \<open>b\<close> says whether the log is open at the end.
\<close>

fun log_state :: "bool \<Rightarrow> out_event list \<Rightarrow> bool option" where
  "log_state b [] = Some b"
| "log_state b (Openlog # evs) = (if b then None else log_state True evs)"
| "log_state b (Closelog # evs) = (if b then log_state False evs else None)"
| "log_state b (To_stdout s # evs) = log_state b evs"
| "log_state b (To_stderr s # evs) = log_state b evs"
| "log_state b (To_syslog p s # evs) = log_state b evs"

fun event_text :: "out_event \<Rightarrow> string" where
  "event_text (To_stdout s) = s"
| "event_text (To_stderr s) = s"
| "event_text (To_syslog p s) = s"
| "event_text Openlog = []"
| "event_text Closelog = []"

text \<open>The type stays what the last \<^verbatim>\<open>out_settype\<close> made it.\<close>

fun last_type :: "outtype \<Rightarrow> out_request list \<Rightarrow> outtype" where
  "last_type t [] = t"
| "last_type t (Settype t' # cs) = last_type t' cs"
| "last_type t (c # cs) = last_type t cs"

text \<open>
  The messages a sequence of requests should deliver, given the channel chosen before: each once and in order, an
  error with the meaning of its number, cut once to what fits into the buffer.
\<close>

fun delivered :: "(i32 \<Rightarrow> string) \<Rightarrow> outtype \<Rightarrow> out_request list \<Rightarrow> out_event list" where
  "delivered strerr t [] = []"
| "delivered strerr t (Settype t' # cs) = delivered strerr t' cs"
| "delivered strerr t (Done # cs) = delivered strerr t cs"
| "delivered strerr t (Err m # cs) =
     (if t = CONSOLE then To_stderr (out_buffer m) else To_syslog LOG_ERR (out_buffer m)) # delivered strerr t cs"
| "delivered strerr t (Syserr n m # cs) =
     (let text = out_buffer (m @ '' (errval '' @ show_i32 n @ '': '' @ strerr n @ '')'')
      in if t = CONSOLE then To_stderr text else To_syslog LOG_ERR text) # delivered strerr t cs"
| "delivered strerr t (Msg m # cs) =
     (if t = CONSOLE then To_stdout (out_buffer m) else To_syslog LOG_INFO (out_buffer m)) # delivered strerr t cs"
| "delivered strerr t (Dbg m # cs) =
     (if t = CONSOLE then To_stdout (''DEBUG: '' @ out_buffer m) else To_syslog LOG_DEBUG (out_buffer m)) # delivered strerr t cs"

fun is_message :: "out_event \<Rightarrow> bool" where
  "is_message Openlog = False"
| "is_message Closelog = False"
| "is_message _ = True"

definition out_inv :: "output_st \<Rightarrow> bool" where
  "out_inv st \<longleftrightarrow> log_state False (ot_trace st) = Some (ot_SYSLOG_INIT st)
     \<and> (\<forall>ev \<in> set (ot_trace st). length (event_text ev) \<le> BUFFSIZE + 6)"

lemma log_state_append: "log_state b (xs @ ys) = Option.bind (log_state b xs) (\<lambda>b'. log_state b' ys)"
  by (induction b xs rule: log_state.induct) auto

lemma length_out_buffer: "length (out_buffer m) < BUFFSIZE"
  by (auto simp: out_buffer_def BUFFSIZE_def)

lemmas out_defs = out_settype_def out_done_def out_err_def out_syserr_def out_msg_def out_dbg_def emit_def Let_def

lemma out_call_inv: "out_inv st \<Longrightarrow> out_inv (out_call strerr c st)"
  using length_out_buffer
  by (cases c) (auto simp: out_inv_def out_defs log_state_append less_imp_le Suc_le_eq intro!: trans_le_add1 split: outtype.splits)

lemma out_calls_inv: "out_inv st \<Longrightarrow> out_inv (fold (out_call strerr) cs st)"
  by (induction cs arbitrary: st) (auto intro: out_call_inv)

lemma out_call_type: "ot_OTYPE (out_call strerr c st) = last_type (ot_OTYPE st) [c]"
  by (cases c) (auto simp: out_defs split: outtype.splits)

lemma out_calls_type: "ot_OTYPE (fold (out_call strerr) cs st) = last_type (ot_OTYPE st) cs"
proof (induction cs arbitrary: st)
  case (Cons c cs)
  have "last_type t (c # cs) = last_type (last_type t [c]) cs" for t by (cases c) auto
  with Cons show ?case by (simp only: fold.simps comp_def out_call_type)
qed simp

lemma out_buffer_append: "out_buffer (out_buffer m @ s) = out_buffer (m @ s)"
  by (cases "length m \<le> BUFFSIZE - 1") (simp_all add: out_buffer_def)

lemma out_call_delivers:
  "filter is_message (ot_trace (out_call strerr c st)) = filter is_message (ot_trace st) @ delivered strerr (ot_OTYPE st) [c]"
  by (cases c) (auto simp: out_defs out_buffer_append split: outtype.splits)

lemma out_calls_deliver:
  "filter is_message (ot_trace (fold (out_call strerr) cs st)) = filter is_message (ot_trace st) @ delivered strerr (ot_OTYPE st) cs"
proof (induction cs arbitrary: st)
  case (Cons c cs)
  have "delivered strerr t (c # cs) = delivered strerr t [c] @ delivered strerr (last_type t [c]) cs" for t by (cases c) auto
  with Cons show ?case by (simp only: fold.simps comp_def out_call_type out_call_delivers append_assoc)
qed simp

lemma output_start_inv: "out_inv output_start"
  by (simp add: out_inv_def output_start_def)

subsection \<open>Properties\<close>

text \<open>
  Whatever messages the program sends and however often it changes or closes the channel: each message
  arrives once and in order on the channel chosen last, cut to the buffer; \<^verbatim>\<open>openlog\<close> and \<^verbatim>\<open>closelog\<close> are called in
  turn, and \<^verbatim>\<open>SYSLOG_INIT\<close> tells which was last.
\<close>

theorem output_discipline:
  "\<exists>st. fold (out_call strerr) cs output_start = st \<and> filter is_message (ot_trace st) = delivered strerr CONSOLE cs
     \<and> log_state False (ot_trace st) = Some (ot_SYSLOG_INIT st)
     \<and> list_all (\<lambda>ev. length (event_text ev) \<le> BUFFSIZE - 1 + length ''DEBUG: '') (ot_trace st)
     \<and> out_gettype st = last_type CONSOLE cs"
  using out_calls_inv [OF output_start_inv, of strerr cs] out_calls_type [of strerr cs output_start]
    out_calls_deliver [of strerr cs output_start]
  by (auto simp: out_inv_def list_all_iff out_gettype_def output_start_def BUFFSIZE_def)

end
