(* ===== verification/Signals.thy ===== *)
theory Signals
  imports Actions Follow Output
begin

section \<open>Signals (sighandler.c)\<close>

text \<open>
  \<open>signalhandler_setup\<close> fills the table of handlers, from signal numbers to actions; which numbers the
  platform gives to the signals is an argument, \<open>None\<close> for one it does not have. A handler works on
  \<open>handler_st\<close>: the message channel, the state of the follower it may stop, and the detached threads that
  have been started. What those threads do is \<open>records_enumerate_thread\<close> with the callbacks, and
  \<open>exclude_readfile_thread\<close>. The lemmas give the table, the reaction to every signal, and the dump.
\<close>

subsection \<open>Data\<close>

datatype signal = SIGALRM | SIGCONT | SIGTSTP | SIGINFO | SIGIO | SIGPIPE | SIGPOLL | SIGPROF | SIGTTIN | SIGTTOU
  | SIGURG | SIGVTALRM | SIGWINCH | SIGABRT | SIGBUS | SIGEMT | SIGFPE | SIGILL | SIGIOT | SIGSEGV | SIGSYS | SIGTRAP
  | SIGXCPU | SIGXFSZ | SIGQUIT | SIGTERM | SIGINT | SIGUSR1 | SIGUSR2 | SIGHUP

datatype sighandler = Handler_unhandled | Handler_fatal | Handler_termination | Handler_usr1 | Handler_usr2 | Handler_hup

record sigaction =
  sa_handler :: sighandler
  sa_restart :: bool

record sig_env =
  signo :: "signal \<Rightarrow> int option"
  sigprocmask_rv :: int
  sigaction_rv :: "signal \<Rightarrow> int"
  has_SA_RESTART :: bool

datatype sig_thread = Dump_records | Purge_records | Reread_exclude

record handler_st =
  hs_out :: output_st
  hs_follow :: follow_st
  hs_threads :: "sig_thread list"

subsection \<open>Callbacks\<close>

text \<open>
  \<^verbatim>\<open>ctime_r\<close> with a buffer of 128 bytes, then the newline at the end is cut off. The function may fail, and
  leaves the buffer as it was. The build without \<^verbatim>\<open>ctime_r\<close> passes a time where a pointer to one is expected,
  and has no argument for the origin.
\<close>

definition TIMEBUFSIZE :: nat where "TIMEBUFSIZE = 128"

definition time_string :: "(i64 \<Rightarrow> string option) \<Rightarrow> i64 \<Rightarrow> string outcome" where
  "time_string ctime_r t =
     (case ctime_r t of
        None \<Rightarrow> Undef
      | Some s \<Rightarrow> if length s \<ge> TIMEBUFSIZE \<or> s = [] then Undef else Ret (butlast s))"

definition records_callback_output :: "bool \<Rightarrow> (i64 \<Rightarrow> string option) \<Rightarrow> output_st records_enum_callback" where
  "records_callback_output have_ctime_r ctime_r ptr out =
     (if \<not> have_ctime_r then Undef
      else
        obind (time_string ctime_r (hr_firstseen ptr)) (\<lambda>timebuff1.
        obind (time_string ctime_r (hr_lastseen ptr)) (\<lambda>timebuff2.
        obind (c_string (hr_ipaddr ptr)) (\<lambda>ipaddr.
        obind (c_string (hr_origin ptr)) (\<lambda>origin.
          Ret (0, ptr, out_msg (''IP Addr '' @ ipaddr @ '' origin '' @ origin @ '' first seen '' @ timebuff1 @
            '', last seen '' @ timebuff2 @ '', occurrences '' @ show_i32 (hr_occurrences ptr) @
            '', to be removed '' @ show_i32 (hr_remove ptr) @ '', processed '' @ show_i32 (hr_processed ptr)) out))))))"

text \<open>The callback behind \<^verbatim>\<open>SIGUSR2\<close> is \<open>records_callback_remove_all\<close>.\<close>

subsection \<open>Handlers\<close>

definition sighandler_unhandled :: "int \<Rightarrow> handler_st \<Rightarrow> handler_st" where
  "sighandler_unhandled no st =
     st\<lparr>hs_out := out_msg (''Received unhandled signal '' @ show_i32 (word_of_int no) @ ''. Ignoring'') (hs_out st)\<rparr>"

definition signalhandler_fatal :: "int \<Rightarrow> handler_st \<Rightarrow> handler_st outcome" where
  "signalhandler_fatal no st = Exit 2"

definition signalhandler_termination :: "int \<Rightarrow> handler_st \<Rightarrow> handler_st" where
  "signalhandler_termination no st =
     st\<lparr>hs_out := out_err (''Received termination signal '' @ show_i32 (word_of_int no) @ ''. Going down now'') (hs_out st),
        hs_follow := follow_stop (hs_follow st)\<rparr>"

definition signalhandler_usr1 ::
  "sig_env \<Rightarrow> sysenv \<Rightarrow> bool \<Rightarrow> (i64 \<Rightarrow> string option) \<Rightarrow> records_st \<Rightarrow> int \<Rightarrow> handler_st \<Rightarrow> handler_st outcome" where
  "signalhandler_usr1 g e have_ctime_r ctime_r rs no st =
     c_assert (ndebug e) (signo g SIGUSR1 = Some no)
       (let out = out_msg ''Received signal USR1. Output of host records follows...'' (hs_out st) in
        obind (records_enumerate e (records_callback_output have_ctime_r ctime_r) ASYNC (rs, out)) (\<lambda>(retval, started, rs', out').
          Ret (st\<lparr>hs_out := (if retval \<noteq> 0 then out_err ''Error enumerating records for output'' out' else out'),
                  hs_threads := hs_threads st @ (if started then [Dump_records] else [])\<rparr>)))"

definition signalhandler_usr2 :: "sig_env \<Rightarrow> sysenv \<Rightarrow> records_st \<Rightarrow> int \<Rightarrow> handler_st \<Rightarrow> handler_st outcome" where
  "signalhandler_usr2 g e rs no st =
     c_assert (ndebug e) (signo g SIGUSR2 = Some no)
       (let out = out_msg ''Received signal USR2. Host records will be purged upon the next run of the maintenance thread'' (hs_out st) in
        obind (records_enumerate e records_callback_remove_all ASYNC (rs, ())) (\<lambda>(retval, started, rs', u).
          Ret (st\<lparr>hs_out := (if retval \<noteq> 0 then out_err ''Error enumerating records for purging'' out else out),
                  hs_threads := hs_threads st @ (if started then [Purge_records] else [])\<rparr>)))"

text \<open>\<open>errno\<close> and \<open>strerr\<close> are what the failed call left.\<close>

definition signalhandler_hup ::
  "sig_env \<Rightarrow> sysenv \<Rightarrow> config \<Rightarrow> (i32 \<Rightarrow> string) \<Rightarrow> i32 \<Rightarrow> int \<Rightarrow> handler_st \<Rightarrow> handler_st outcome" where
  "signalhandler_hup g e CONFIG strerr errno no st =
     c_assert (ndebug e) (signo g SIGHUP = Some no)
       (let out = out_msg ''Received signal HUP. Re-read exclude file'' (hs_out st); (retval, started) = exclude_readfile e in
        obind (if retval \<noteq> 0
               then obind (c_string (cfg_exclude CONFIG)) (\<lambda>f. Ret (out_syserr strerr errno (''Error re-reading exclude file '' @ f) out))
               else Ret out) (\<lambda>out.
          Ret (st\<lparr>hs_out := out, hs_threads := hs_threads st @ (if started then [Reread_exclude] else [])\<rparr>)))"

subsection \<open>Installing the handlers\<close>

text \<open>\<^verbatim>\<open>sigaction\<close> for one signal after the other; an error is the end, by \<^verbatim>\<open>abort\<close>.\<close>

fun install :: "sig_env \<Rightarrow> sigaction \<Rightarrow> signal list \<Rightarrow> (int \<Rightarrow> sigaction option) \<Rightarrow> (int \<Rightarrow> sigaction option) outcome" where
  "install g sa [] t = Ret t"
| "install g sa (s # ss) t =
     (case signo g s of
        None \<Rightarrow> install g sa ss t
      | Some n \<Rightarrow> if sigaction_rv g s = -1 then Abort else install g sa ss (t(n \<mapsto> sa)))"

definition ignored_signals :: "signal list" where
  "ignored_signals = [SIGALRM, SIGCONT, SIGTSTP, SIGINFO, SIGIO, SIGPIPE, SIGPOLL, SIGPROF, SIGTTIN, SIGTTOU, SIGURG,
     SIGVTALRM, SIGWINCH]"

definition fatal_signals :: "signal list" where
  "fatal_signals = [SIGABRT, SIGBUS, SIGEMT, SIGFPE, SIGILL, SIGIOT, SIGSEGV, SIGSYS, SIGTRAP, SIGXCPU, SIGXFSZ]"

definition termination_signals :: "signal list" where
  "termination_signals = [SIGQUIT, SIGTERM, SIGINT]"

definition signalhandler_setup :: "sig_env \<Rightarrow> (int \<Rightarrow> sigaction option) \<Rightarrow> (int \<Rightarrow> sigaction option) outcome" where
  "signalhandler_setup g t =
     (if sigprocmask_rv g = -1 then Abort
      else
        obind (install g \<lparr>sa_handler = Handler_unhandled, sa_restart = has_SA_RESTART g\<rparr> ignored_signals t) (\<lambda>t.
        obind (install g \<lparr>sa_handler = Handler_fatal, sa_restart = False\<rparr> fatal_signals t) (\<lambda>t.
        obind (install g \<lparr>sa_handler = Handler_termination, sa_restart = False\<rparr> termination_signals t) (\<lambda>t.
        obind (install g \<lparr>sa_handler = Handler_usr1, sa_restart = False\<rparr> [SIGUSR1] t) (\<lambda>t.
        obind (install g \<lparr>sa_handler = Handler_usr2, sa_restart = False\<rparr> [SIGUSR2] t) (\<lambda>t.
          install g \<lparr>sa_handler = Handler_hup, sa_restart = False\<rparr> [SIGHUP] t))))))"

text \<open>What the handlers need besides their own state, and the call of a handler by the system.\<close>

record sig_world =
  sw_env :: sig_env
  sw_sys :: sysenv
  sw_config :: config
  sw_records :: records_st
  sw_have_ctime_r :: bool
  sw_ctime_r :: "i64 \<Rightarrow> string option"
  sw_strerr :: "i32 \<Rightarrow> string"
  sw_errno :: i32

fun call_handler :: "sig_world \<Rightarrow> sighandler \<Rightarrow> int \<Rightarrow> handler_st \<Rightarrow> handler_st outcome" where
  "call_handler w Handler_unhandled no st = Ret (sighandler_unhandled no st)"
| "call_handler w Handler_fatal no st = signalhandler_fatal no st"
| "call_handler w Handler_termination no st = Ret (signalhandler_termination no st)"
| "call_handler w Handler_usr1 no st =
     signalhandler_usr1 (sw_env w) (sw_sys w) (sw_have_ctime_r w) (sw_ctime_r w) (sw_records w) no st"
| "call_handler w Handler_usr2 no st = signalhandler_usr2 (sw_env w) (sw_sys w) (sw_records w) no st"
| "call_handler w Handler_hup no st = signalhandler_hup (sw_env w) (sw_sys w) (sw_config w) (sw_strerr w) (sw_errno w) no st"

subsection \<open>The table\<close>

text \<open>The reaction each signal is meant to have.\<close>

fun handler_of :: "signal \<Rightarrow> sighandler" where
  "handler_of SIGABRT = Handler_fatal"
| "handler_of SIGBUS = Handler_fatal"
| "handler_of SIGEMT = Handler_fatal"
| "handler_of SIGFPE = Handler_fatal"
| "handler_of SIGILL = Handler_fatal"
| "handler_of SIGIOT = Handler_fatal"
| "handler_of SIGSEGV = Handler_fatal"
| "handler_of SIGSYS = Handler_fatal"
| "handler_of SIGTRAP = Handler_fatal"
| "handler_of SIGXCPU = Handler_fatal"
| "handler_of SIGXFSZ = Handler_fatal"
| "handler_of SIGQUIT = Handler_termination"
| "handler_of SIGTERM = Handler_termination"
| "handler_of SIGINT = Handler_termination"
| "handler_of SIGUSR1 = Handler_usr1"
| "handler_of SIGUSR2 = Handler_usr2"
| "handler_of SIGHUP = Handler_hup"
| "handler_of _ = Handler_unhandled"

text \<open>
  What the platform documents: signals of the same number have the same meaning (\<^verbatim>\<open>SIGIO\<close> may be
  \<^verbatim>\<open>SIGPOLL\<close>, \<^verbatim>\<open>SIGIOT\<close> may be \<^verbatim>\<open>SIGABRT\<close>).
\<close>

definition signo_ok :: "sig_env \<Rightarrow> bool" where
  "signo_ok g \<longleftrightarrow> (\<forall>s s' n. signo g s = Some n \<longrightarrow> signo g s' = Some n \<longrightarrow> handler_of s = handler_of s')"

definition put_all :: "sig_env \<Rightarrow> sigaction \<Rightarrow> signal set \<Rightarrow> (int \<Rightarrow> sigaction option) \<Rightarrow> int \<Rightarrow> sigaction option" where
  "put_all g sa S t n = (if \<exists>s \<in> S. signo g s = Some n then Some sa else t n)"

lemma install_spec:
  assumes "sigaction_rv g = (\<lambda>_. 0)"
  shows "install g sa ss t = Ret (put_all g sa (set ss) t)"
  by (induction ss arbitrary: t) (auto simp: assms put_all_def fun_eq_iff split: option.splits)

lemma signal_classes:
  "set ignored_signals = {s. handler_of s = Handler_unhandled}" "set fatal_signals = {s. handler_of s = Handler_fatal}"
  "set termination_signals = {s. handler_of s = Handler_termination}" "{SIGUSR1} = {s. handler_of s = Handler_usr1}"
  "{SIGUSR2} = {s. handler_of s = Handler_usr2}" "{SIGHUP} = {s. handler_of s = Handler_hup}"
proof -
  have "s \<in> set ignored_signals \<longleftrightarrow> handler_of s = Handler_unhandled" "s \<in> set fatal_signals \<longleftrightarrow> handler_of s = Handler_fatal"
    "s \<in> set termination_signals \<longleftrightarrow> handler_of s = Handler_termination" "s = SIGUSR1 \<longleftrightarrow> handler_of s = Handler_usr1"
    "s = SIGUSR2 \<longleftrightarrow> handler_of s = Handler_usr2" "s = SIGHUP \<longleftrightarrow> handler_of s = Handler_hup" for s
    by (cases s; simp add: ignored_signals_def fatal_signals_def termination_signals_def)+
  then show "set ignored_signals = {s. handler_of s = Handler_unhandled}" "set fatal_signals = {s. handler_of s = Handler_fatal}"
      "set termination_signals = {s. handler_of s = Handler_termination}" "{SIGUSR1} = {s. handler_of s = Handler_usr1}"
      "{SIGUSR2} = {s. handler_of s = Handler_usr2}" "{SIGHUP} = {s. handler_of s = Handler_hup}"
    by blast+
qed

text \<open>One number belongs to one class.\<close>

lemma put_all_class:
  assumes "signo_ok g" and "signo g s = Some n"
  shows "put_all g sa {s. handler_of s = h} t n = (if handler_of s = h then Some sa else t n)"
proof -
  have "(\<exists>s' \<in> {s. handler_of s = h}. signo g s' = Some n) \<longleftrightarrow> handler_of s = h"
    using assms unfolding signo_ok_def by blast
  then show ?thesis by (simp only: put_all_def)
qed

text \<open>A failing call of \<^verbatim>\<open>sigaction\<close> is not passed over.\<close>

lemma install_Ret: "install g sa ss t = Ret t' \<Longrightarrow> s \<in> set ss \<Longrightarrow> signo g s \<noteq> None \<Longrightarrow> sigaction_rv g s \<noteq> -1"
  by (induction ss arbitrary: t) (auto split: option.splits if_splits)

lemma setup_table:
  assumes g: "signo_ok g" "sigaction_rv g = (\<lambda>_. 0)" "sigprocmask_rv g \<noteq> -1"
  obtains t' where "signalhandler_setup g t = Ret t'"
    and "\<And>s n. signo g s = Some n \<Longrightarrow> t' n = Some \<lparr>sa_handler = handler_of s,
          sa_restart = (handler_of s = Handler_unhandled \<and> has_SA_RESTART g)\<rparr>"
    and "\<And>n. (\<And>s. signo g s \<noteq> Some n) \<Longrightarrow> t' n = t n"
proof -
  define t' where "t' = put_all g \<lparr>sa_handler = Handler_hup, sa_restart = False\<rparr> {SIGHUP}
    (put_all g \<lparr>sa_handler = Handler_usr2, sa_restart = False\<rparr> {SIGUSR2}
    (put_all g \<lparr>sa_handler = Handler_usr1, sa_restart = False\<rparr> {SIGUSR1}
    (put_all g \<lparr>sa_handler = Handler_termination, sa_restart = False\<rparr> (set termination_signals)
    (put_all g \<lparr>sa_handler = Handler_fatal, sa_restart = False\<rparr> (set fatal_signals)
    (put_all g \<lparr>sa_handler = Handler_unhandled, sa_restart = has_SA_RESTART g\<rparr> (set ignored_signals) t)))))"
  have 1: "signalhandler_setup g t = Ret t'"
    using g(3) by (simp add: signalhandler_setup_def install_spec [OF g(2)] t'_def del: install.simps)
  have "t' n = Some \<lparr>sa_handler = handler_of s, sa_restart = (handler_of s = Handler_unhandled \<and> has_SA_RESTART g)\<rparr>"
    if s: "signo g s = Some n" for s n
    unfolding t'_def signal_classes put_all_class [OF g(1) s] by (cases "handler_of s") simp_all
  moreover have "t' n = t n" if "\<And>s. signo g s \<noteq> Some n" for n
    using that by (simp add: t'_def put_all_def)
  ultimately show thesis using that 1 by blast
qed

subsection \<open>The dump of the table\<close>

definition record_line :: "(i64 \<Rightarrow> string option) \<Rightarrow> hostrecord \<Rightarrow> string" where
  "record_line ctime_r r = ''IP Addr '' @ ip_of r @ '' origin '' @ cstr (hr_origin r) @ '' first seen '' @
     butlast (the (ctime_r (hr_firstseen r))) @ '', last seen '' @ butlast (the (ctime_r (hr_lastseen r))) @
     '', occurrences '' @ show_i32 (hr_occurrences r) @ '', to be removed '' @ show_i32 (hr_remove r) @
     '', processed '' @ show_i32 (hr_processed r)"

text \<open>\<^verbatim>\<open>ctime_r\<close> delivers a line of 26 bytes with its terminator for the times of a record.\<close>

definition ctime_ok :: "(i64 \<Rightarrow> string option) \<Rightarrow> hostrecord \<Rightarrow> bool" where
  "ctime_ok ctime_r r \<longleftrightarrow> (\<forall>t \<in> {hr_firstseen r, hr_lastseen r}. \<exists>s. ctime_r t = Some s \<and> length s = 25)"

lemma callback_output_ok:
  "ctime_ok ctime_r r \<Longrightarrow> wf_hostrecord r \<Longrightarrow> records_callback_output True ctime_r r out = Ret (0, r, out_msg (record_line ctime_r r) out)"
  by (auto simp: ctime_ok_def records_callback_output_def time_string_def TIMEBUFSIZE_def c_string_def wf_hostrecord_def
      record_line_def ip_of_def)

lemma dump_spec:
  assumes inv: "records_inv st" and ok: "sys_ok e" and ct: "\<And>r. Some r \<in> set (hr_vector st) \<Longrightarrow> ctime_ok ctime_r r"
  shows "returns (records_enumerate_thread e (records_callback_output True ctime_r) (st, out)) (\<lambda>(st', out').
    records_inv st' \<and> records_map st' = records_map st \<and> somes (hr_vector st') = somes (hr_vector st)
    \<and> out' = fold out_msg (map (record_line ctime_r) (somes (hr_vector st))) out)"
proof -
  have cb: "cb_ok (ctime_ok ctime_r) (\<lambda>_. True) (records_callback_output True ctime_r) id (\<lambda>r. out_msg (record_line ctime_r r))"
    by (simp add: cb_ok_def callback_output_ok)
  have "map_option id p = p" for p :: "hostrecord option" by (cases p) auto
  with records_enumerate_sync_spec [OF inv cb ct _ ok, of out] show ?thesis
    by (auto simp: records_enumerate_thread_def fold_map comp_def)
qed

subsection \<open>Reactions\<close>

text \<open>What is to happen when a signal arrives, by its class.\<close>

definition reaction :: "sighandler \<Rightarrow> handler_st \<Rightarrow> handler_st outcome \<Rightarrow> bool" where
  "reaction h st r \<longleftrightarrow> (case h of
       Handler_fatal \<Rightarrow> r = Exit 2
     | Handler_unhandled \<Rightarrow> \<exists>m. r = Ret (st\<lparr>hs_out := out_msg m (hs_out st)\<rparr>)
     | Handler_termination \<Rightarrow> \<exists>m. r = Ret (st\<lparr>hs_out := out_err m (hs_out st), hs_follow := (hs_follow st)\<lparr>fl_stop := True\<rparr>\<rparr>)
     | Handler_usr1 \<Rightarrow> \<exists>m. r = Ret (st\<lparr>hs_out := out_msg m (hs_out st), hs_threads := hs_threads st @ [Dump_records]\<rparr>)
     | Handler_usr2 \<Rightarrow> \<exists>m. r = Ret (st\<lparr>hs_out := out_msg m (hs_out st), hs_threads := hs_threads st @ [Purge_records]\<rparr>)
     | Handler_hup \<Rightarrow> \<exists>m. r = Ret (st\<lparr>hs_out := out_msg m (hs_out st), hs_threads := hs_threads st @ [Reread_exclude]\<rparr>))"

lemma call_handler_reaction:
  assumes "signo (sw_env w) s = Some no" and "sys_ok (sw_sys w)" and "hr_initialized (sw_records w)"
  shows "reaction (handler_of s) st (call_handler w (handler_of s) no st)"
proof (cases "handler_of s")
  case Handler_unhandled
  then show ?thesis by (auto simp: reaction_def sighandler_unhandled_def)
next
  case Handler_fatal
  then show ?thesis by (simp add: reaction_def signalhandler_fatal_def)
next
  case Handler_termination
  then show ?thesis by (auto simp: reaction_def signalhandler_termination_def follow_stop_def)
next
  case Handler_usr1
  then have "s = SIGUSR1" by (cases s) auto
  with assms show ?thesis
    by (auto simp: reaction_def signalhandler_usr1_def records_enumerate_def sys_ok_def Let_def c_assert_def)
next
  case Handler_usr2
  then have "s = SIGUSR2" by (cases s) auto
  with assms show ?thesis
    by (auto simp: reaction_def signalhandler_usr2_def records_enumerate_def sys_ok_def Let_def c_assert_def)
next
  case Handler_hup
  then have "s = SIGHUP" by (cases s) auto
  with assms show ?thesis
    by (auto simp: reaction_def signalhandler_hup_def exclude_readfile_def sys_ok_def Let_def c_assert_def)
qed

subsection \<open>Properties\<close>

text \<open>The signal numbers of Linux, and the calls succeed.\<close>

fun linux_signo :: "signal \<Rightarrow> int option" where
  "linux_signo SIGHUP = Some 1"
| "linux_signo SIGINT = Some 2"
| "linux_signo SIGQUIT = Some 3"
| "linux_signo SIGILL = Some 4"
| "linux_signo SIGTRAP = Some 5"
| "linux_signo SIGABRT = Some 6"
| "linux_signo SIGIOT = Some 6"
| "linux_signo SIGBUS = Some 7"
| "linux_signo SIGFPE = Some 8"
| "linux_signo SIGUSR1 = Some 10"
| "linux_signo SIGSEGV = Some 11"
| "linux_signo SIGUSR2 = Some 12"
| "linux_signo SIGPIPE = Some 13"
| "linux_signo SIGALRM = Some 14"
| "linux_signo SIGTERM = Some 15"
| "linux_signo SIGCONT = Some 18"
| "linux_signo SIGTSTP = Some 20"
| "linux_signo SIGTTIN = Some 21"
| "linux_signo SIGTTOU = Some 22"
| "linux_signo SIGURG = Some 23"
| "linux_signo SIGXCPU = Some 24"
| "linux_signo SIGXFSZ = Some 25"
| "linux_signo SIGVTALRM = Some 26"
| "linux_signo SIGPROF = Some 27"
| "linux_signo SIGWINCH = Some 28"
| "linux_signo SIGIO = Some 29"
| "linux_signo SIGPOLL = Some 29"
| "linux_signo SIGSYS = Some 31"
| "linux_signo SIGINFO = None"
| "linux_signo SIGEMT = None"

definition linux_env :: sig_env where
  "linux_env = \<lparr>signo = linux_signo, sigprocmask_rv = 0, sigaction_rv = (\<lambda>_. 0), has_SA_RESTART = True\<rparr>"

definition linux_class :: "int \<Rightarrow> sighandler" where
  "linux_class n = (if n \<in> {2, 3, 15} then Handler_termination
     else if n \<in> {4, 5, 6, 7, 8, 11, 24, 25, 31} then Handler_fatal
     else if n = 10 then Handler_usr1 else if n = 12 then Handler_usr2 else if n = 1 then Handler_hup else Handler_unhandled)"

lemma linux_env_ok: "signo_ok linux_env"
proof -
  have "handler_of s = linux_class n" if "linux_signo s = Some n" for s n
    using that by (cases s) (auto simp: linux_class_def)
  then show ?thesis unfolding signo_ok_def linux_env_def by (metis sig_env.select_convs(1))
qed

text \<open>
  C29. After \<^verbatim>\<open>signalhandler_setup\<close>, every signal the program knows leads to the handler of its class and has
  the reaction of that class: a fatal one ends the program with status 2, a termination signal sets the stop
  flag of the follower, \<^verbatim>\<open>SIGUSR1\<close>, \<^verbatim>\<open>SIGUSR2\<close> and \<^verbatim>\<open>SIGHUP\<close> start the thread that prints the table, marks all
  records, or reads the exclusion file again, and the others leave a message only. System calls are
  restarted after the latter and interrupted by the former.
\<close>

theorem signal_reactions:
  assumes "signo_ok (sw_env w)" and "sigaction_rv (sw_env w) = (\<lambda>_. 0)" and "sigprocmask_rv (sw_env w) \<noteq> -1"
    and "has_SA_RESTART (sw_env w)" and "signo (sw_env w) s = Some no" and "sys_ok (sw_sys w)" and "hr_initialized (sw_records w)"
  shows "\<exists>t' sa. signalhandler_setup (sw_env w) t = Ret t' \<and> t' no = Some sa \<and> sa_handler sa = handler_of s
    \<and> (sa_restart sa \<longleftrightarrow> handler_of s = Handler_unhandled) \<and> reaction (handler_of s) st (call_handler w (sa_handler sa) no st)"
proof -
  obtain t' where "signalhandler_setup (sw_env w) t = Ret t'"
      "t' no = Some \<lparr>sa_handler = handler_of s, sa_restart = (handler_of s = Handler_unhandled \<and> has_SA_RESTART (sw_env w))\<rparr>"
    using setup_table [OF assms(1-3)] assms(5) by metis
  with assms(4) call_handler_reaction [OF assms(5-7), of st] show ?thesis by simp
qed

definition demo_world :: sig_world where
  "demo_world = \<lparr>sw_env = linux_env, sw_sys = calm_env, sw_config = demo_config, sw_records = empty_records,
     sw_have_ctime_r = True, sw_ctime_r = (\<lambda>_. Some (replicate 24 CHR ''x'' @ [CHR 0x0A])), sw_strerr = (\<lambda>_. ''error''), sw_errno = 0\<rparr>"

definition demo_handler_st :: handler_st where
  "demo_handler_st = \<lparr>hs_out = output_start, hs_follow = demo_follow, hs_threads = []\<rparr>"

theorem signal_reactions_witness:
  "\<exists>t' sa. signalhandler_setup linux_env (\<lambda>_. None) = Ret t' \<and> t' 15 = Some sa
     \<and> (\<exists>st. call_handler demo_world (sa_handler sa) 15 demo_handler_st = Ret st \<and> fl_stop (hs_follow st))"
proof -
  have "sw_env demo_world = linux_env" "sigaction_rv linux_env = (\<lambda>_. 0)" "sigprocmask_rv linux_env \<noteq> -1" "has_SA_RESTART linux_env"
      "signo linux_env SIGTERM = Some 15" "sys_ok (sw_sys demo_world)" "hr_initialized (sw_records demo_world)"
    by (simp_all add: demo_world_def linux_env_def empty_records_def)
  with signal_reactions [of demo_world SIGTERM 15 "\<lambda>_. None" demo_handler_st] linux_env_ok
  show ?thesis by (fastforce simp: reaction_def)
qed

text \<open>
  C30. A termination signal ends the main loop, whatever there is left to read. If it arrives between two
  rounds, the next test of the loop leaves it at once; if it arrives while text is being read, the lines
  completed before are still checked, in order, nothing else is read, and the loop returns with the flag clear.
\<close>

theorem termination_leaves_follow:
  assumes "handler_of s = Handler_termination" and "call_handler w (handler_of s) no st = Ret st'"
    and "reader_has (fl_reader fl) acc" and "fl_open fl" and "fl_lastino fl = fl_curino fl" and "\<not> fl_stop fl"
    and "ob_stat ob = Some (sz, ino)" and "fl_lastpos fl < sz" and "ob_data ob = map FChar cs @ FStop # evs"
  shows "follow f (ob' # obs) (hs_follow st', x) = Ret ((hs_follow st)\<lparr>fl_stop := False\<rparr>, x)
    \<and> (\<exists>fl'. \<not> fl_stop fl' \<and> follow f (ob # ob' # obs) (fl, x) =
          obind (run_lines f (map cstr (fst (split_lines acc cs))) x) (\<lambda>x'. Ret (fl', x')))"
proof -
  have "follow f (ob' # obs) (hs_follow st', x) = Ret ((hs_follow st)\<lparr>fl_stop := False\<rparr>, x)"
    using assms(1,2) by (auto simp: signalhandler_termination_def follow_stop_def)
  moreover obtain fl' where "follow_step f ob (fl, x) = obind (run_lines f (map cstr (fst (split_lines acc cs))) x) (\<lambda>x'. Ret (fl', x'))"
      "fl_stop fl'"
    using follow_step_stop [OF assms(3-5,7-9), of f x] by (elim exE conjE) (rule that)
  ultimately show ?thesis
    using assms(6) by (intro conjI exI [of _ "fl'\<lparr>fl_stop := False\<rparr>"]) (simp_all add: obind_assoc)
qed

theorem termination_leaves_follow_witness:
  "\<exists>st'. call_handler demo_world (handler_of SIGTERM) 15 demo_handler_st = Ret st'
     \<and> (\<exists>fl'. \<not> fl_stop fl' \<and> follow (\<lambda>l ls. Ret (ls @ [l]))
           [\<lparr>ob_stat = Some (20, 1), ob_fopen = True, ob_freopen = True,
              ob_data = [FChar CHR ''a'', FChar CHR 0x0A, FChar CHR ''b'', FStop, FChar CHR ''c'']\<rparr>,
            \<lparr>ob_stat = None, ob_fopen = True, ob_freopen = True, ob_data = []\<rparr>]
         (demo_follow, []) = Ret (fl', [''a'' @ [CHR 0x0A]]))"
proof -
  let ?ob = "\<lparr>ob_stat = Some (20, 1), ob_fopen = True, ob_freopen = True,
    ob_data = [FChar CHR ''a'', FChar CHR 0x0A, FChar CHR ''b'', FStop, FChar CHR ''c'']\<rparr>"
  let ?cs = "[CHR ''a'', CHR 0x0A, CHR ''b'']"
  have st': "call_handler demo_world (handler_of SIGTERM) 15 demo_handler_st = Ret (signalhandler_termination 15 demo_handler_st)" by simp
  have rd: "reader_has (fl_reader demo_follow) []" by (simp add: demo_follow_def reader_start_def reader_has_def BUFFSIZE_def)
  have "split_lines [] ?cs = ([''a'' @ [CHR 0x0A]], ''b'')" by (simp add: BUFFSIZE_def)
  moreover have "cstr (''a'' @ [CHR 0x0A]) = ''a'' @ [CHR 0x0A]" by (simp add: cstr_def)
  ultimately show ?thesis
    using st' termination_leaves_follow [OF _ st' rd, of ?ob 20 1 ?cs "[FChar CHR ''c'']" "\<lambda>l ls. Ret (ls @ [l])"
        "\<lparr>ob_stat = None, ob_fopen = True, ob_freopen = True, ob_data = []\<rparr>" "[]" "[]"]
    by (simp add: demo_follow_def del: follow.simps)
qed

text \<open>
  The thread behind \<^verbatim>\<open>SIGUSR1\<close> prints one line per host of the table, in the order of the table, with its
  address, origin, times and counters, and leaves the table as it was.
\<close>

theorem dump_prints_table:
  assumes "records_inv st" and "sys_ok e" and "\<And>r. Some r \<in> set (hr_vector st) \<Longrightarrow> ctime_ok ctime_r r"
  shows "returns (records_enumerate_thread e (records_callback_output True ctime_r) (st, out)) (\<lambda>(st', out').
    records_inv st' \<and> records_map st' = records_map st
    \<and> out' = fold out_msg (map (record_line ctime_r) (somes (hr_vector st))) out)"
  by (rule ospec_mono [OF dump_spec [OF assms]]) auto

lemma demo_world_ctime: "ctime_ok (sw_ctime_r demo_world) r"
  by (simp add: ctime_ok_def demo_world_def)

theorem dump_prints_table_witness:
  "returns (records_enumerate_thread calm_env (records_callback_output True (sw_ctime_r demo_world)) (one_record, output_start)) (\<lambda>(st', out').
     records_map st' = records_map one_record \<and> out' = out_msg (record_line (sw_ctime_r demo_world) demo_host) output_start)"
  by (rule ospec_mono [OF dump_prints_table [of one_record calm_env "sw_ctime_r demo_world" output_start]])
    (simp_all add: demo_world_ctime, auto simp: one_record_def)

end
