(* ===== verification/Server.thy ===== *)
theory Server
  imports Worker
begin

section \<open>The server thread (network/srv/server.c)\<close>

text \<open>
  Opening the listening sockets, the loop that accepts connections and starts a worker thread for each,
  and the cleanup. What \<^verbatim>\<open>socket\<close>, \<^verbatim>\<open>bind\<close> and \<^verbatim>\<open>listen\<close> make of an address, what \<^verbatim>\<open>select\<close>, \<^verbatim>\<open>accept\<close>
  and \<^verbatim>\<open>sem_getvalue\<close> answer are arguments. \<open>server_step\<close> interleaves the accepting thread with the
  workers it has started, whose sessions are the \<open>network_server_worker\<close> of the theory Worker. The
  lemmas show that the semaphore bounds the sessions that run at once, that no wait of the accepting
  thread is longer than \<^verbatim>\<open>MAXWAITWORKER\<close> rounds, and which sockets the server listens on.
\<close>

subsection \<open>Data\<close>

definition MAXWAITWORKER :: nat where "MAXWAITWORKER = 10"

text \<open>
  \<open>sv_listen_fds\<close> is the used part of \<^verbatim>\<open>listen_fds\<close>, so \<^verbatim>\<open>used_fds\<close> is its length. The workers are the
  connections of the threads that have been started: those that wait for the semaphore and those that
  hold it. \<open>sv_orphans\<close> are connections that were accepted and that no thread owns, \<open>sv_leaked\<close> counts the
  address buffers nobody frees, \<open>sv_slept\<close> the seconds the accepting thread has waited.
\<close>

record server_st =
  sv_initialized :: bool
  sv_listen_fds :: "int list"
  sv_sem :: int
  sv_waiting :: "int list"
  sv_active :: "int list"
  sv_orphans :: "int list"
  sv_leaked :: nat
  sv_slept :: nat

definition server_init_st :: server_st where
  "server_init_st = \<lparr>sv_initialized = False, sv_listen_fds = [], sv_sem = 0, sv_waiting = [], sv_active = [],
     sv_orphans = [], sv_leaked = 0, sv_slept = 0\<rparr>"

subsection \<open>Listening\<close>

datatype listen_result = NoSocket | NoBind | NoListen | Listening int

text \<open>
  The inner loop, over the addresses of one name. Only the outer loop compares \<^verbatim>\<open>used_fds\<close> with
  \<^verbatim>\<open>FD_SETSIZE\<close>; a store behind the array, and \<^verbatim>\<open>FD_SET\<close> of a descriptor the set cannot hold, are undefined.
\<close>

fun listen_chain :: "(nat \<Rightarrow> addrinfo \<Rightarrow> listen_result) \<Rightarrow> nat \<Rightarrow> addrinfo list \<Rightarrow> int list \<Rightarrow> (nat \<times> int list) outcome" where
  "listen_chain op k [] fds = Ret (k, fds)"
| "listen_chain op k (ai # ais) fds = (case op k ai of
       Listening sockfd \<Rightarrow>
         if length fds < FD_SETSIZE \<and> 0 \<le> sockfd \<and> sockfd < int FD_SETSIZE
         then listen_chain op (Suc k) ais (fds @ [sockfd]) else Undef
     | _ \<Rightarrow> listen_chain op (Suc k) ais fds)"

fun listen_all :: "(nat \<Rightarrow> addrinfo \<Rightarrow> listen_result) \<Rightarrow> nat \<Rightarrow> addrinfo_list \<Rightarrow> int list \<Rightarrow> int list outcome" where
  "listen_all op k [] fds = Ret fds"
| "listen_all op k (ais # ptr) fds =
     (if length fds < FD_SETSIZE
      then obind (listen_chain op k ais fds) (\<lambda>(k', fds'). listen_all op k' ptr fds')
      else Ret fds)"

definition network_start_listening ::
  "(nat \<Rightarrow> addrinfo \<Rightarrow> listen_result) \<Rightarrow> config \<Rightarrow> server_st \<Rightarrow> (int \<times> server_st) outcome" where
  "network_start_listening op CONFIG st =
     obind (listen_all op 0 (cfg_listen CONFIG) []) (\<lambda>fds.
       Ret (RETVAL_OK, st\<lparr>sv_listen_fds := fds, sv_initialized := True\<rparr>))"

subsection \<open>Waiting for the semaphore\<close>

text \<open>
  Both polling loops: \<open>g n\<close> is the answer of \<^verbatim>\<open>sem_getvalue\<close> in round \<open>n\<close>, its code and the value. A failed
  call leaves the variable alone. The result is the number of one second sleeps.
\<close>

function sem_poll :: "(nat \<Rightarrow> int \<times> int) \<Rightarrow> int \<Rightarrow> int \<Rightarrow> nat \<Rightarrow> nat" where
  "sem_poll g bound v n =
     (let (retval, x) = g n; v' = (if retval = 0 then x else v) in
      if v' < bound
      then (if retval \<noteq> 0 then n - 1
            else if n \<ge> MAXWAITWORKER then n
            else sem_poll g bound v' (Suc n))
      else n - 1)"
  by pat_completeness auto
termination
  by (relation "measure (\<lambda>(g, bound, v, n). MAXWAITWORKER - n)") auto

declare sem_poll.simps [simp del]

subsection \<open>Accepting\<close>

datatype accept_result = AcceptErr | Accepted int

text \<open>
  \<open>ac_name\<close> is what the arrays \<^verbatim>\<open>host\<close> and \<^verbatim>\<open>serv\<close> of the thread hold when the message is written: nothing (\<open>None\<close>)
  as long as no call of \<^verbatim>\<open>getnameinfo\<close>, whose result is not looked at, has filled them.
\<close>

record accept_env =
  ac_addr_ok :: bool
  ac_sem :: "nat \<Rightarrow> int \<times> int"
  ac_accept :: accept_result
  ac_name :: "string option"
  ac_args_ok :: bool
  ac_create_rv :: int

text \<open>The body of the loop over the listening sockets, for one that is ready.\<close>

definition server_accept :: "accept_env \<Rightarrow> server_st \<Rightarrow> server_st outcome" where
  "server_accept e st =
     (if \<not> ac_addr_ok e then Exit 1
      else let st = st\<lparr>sv_slept := sv_slept st + sem_poll (ac_sem e) 1 0 1\<rparr> in
       (case ac_accept e of
          AcceptErr \<Rightarrow> Ret (st\<lparr>sv_leaked := sv_leaked st + 1\<rparr>)
        | Accepted connfd \<Rightarrow>
            obind (read_host (ac_name e)) (\<lambda>peer.
            if \<not> ac_args_ok e then Exit 1
            else if ac_create_rv e \<noteq> 0
            then Ret (st\<lparr>sv_orphans := sv_orphans st @ [connfd], sv_leaked := sv_leaked st + 1\<rparr>)
            else Ret (st\<lparr>sv_waiting := sv_waiting st @ [connfd]\<rparr>))))"

fun server_accept_ready :: "(int \<Rightarrow> bool) \<Rightarrow> (int \<Rightarrow> accept_env) \<Rightarrow> int list \<Rightarrow> server_st \<Rightarrow> server_st outcome" where
  "server_accept_ready rset es [] st = Ret st"
| "server_accept_ready rset es (fd # fds) st =
     obind (if rset fd then server_accept (es fd) st else Ret st) (server_accept_ready rset es fds)"

datatype server_select = SrvErr int | SrvReady "int \<Rightarrow> bool"

text \<open>One round of the endless loop; the answer is whether the thread goes on.\<close>

definition server_round :: "server_select \<Rightarrow> (int \<Rightarrow> accept_env) \<Rightarrow> server_st \<Rightarrow> (bool \<times> server_st) outcome" where
  "server_round ev es st = (case ev of
       SrvErr errnobak \<Rightarrow> if errnobak = EINTR then Ret (True, st) else Ret (False, st)
     | SrvReady rset \<Rightarrow>
         obind (server_accept_ready rset es (sv_listen_fds st) st) (\<lambda>st'. Ret (True, st')))"

text \<open>\<^verbatim>\<open>network_start_server\<close> up to its loop.\<close>

record server_env =
  se_attr_init_rv :: int
  se_attr_detach_rv :: int
  se_sem_init_rv :: int
  se_open :: "nat \<Rightarrow> addrinfo \<Rightarrow> listen_result"

definition network_start_server :: "server_env \<Rightarrow> config \<Rightarrow> server_st \<Rightarrow> (int \<times> server_st) outcome" where
  "network_start_server e CONFIG st =
     (if sv_initialized st then Ret (RETVAL_ERR, st)
      else if se_attr_init_rv e \<noteq> 0 then Ret (RETVAL_ERR, st)
      else if se_attr_detach_rv e \<noteq> 0 then Ret (RETVAL_ERR, st)
      else if se_sem_init_rv e \<noteq> 0 then Ret (RETVAL_ERR, st)
      else network_start_listening (se_open e) CONFIG (st\<lparr>sv_sem := sint (cfg_maxinconnections CONFIG)\<rparr>))"

text \<open>
  The cleanup handler: closes the sockets, polls until all sessions have ended or the patience is used
  up, and destroys the semaphore. The poll starts with \<^verbatim>\<open>i\<close> as the closing loop left it.
\<close>

definition network_server_shutdown_and_cleanup ::
  "(nat \<Rightarrow> int \<times> int) \<Rightarrow> int \<Rightarrow> config \<Rightarrow> server_st \<Rightarrow> server_st \<times> int list \<times> nat" where
  "network_server_shutdown_and_cleanup g sem_destroy_rv CONFIG st =
     (if \<not> sv_initialized st then (st, [], 0)
      else
        let sleeps = sem_poll g (sint (cfg_maxinconnections CONFIG)) (int (length (sv_listen_fds st))) 1;
            st' = st\<lparr>sv_listen_fds := replicate (length (sv_listen_fds st)) 0\<rparr>
        in (if sem_destroy_rv \<noteq> 0 then st' else st'\<lparr>sv_initialized := False\<rparr>, sv_listen_fds st, sleeps))"


subsection \<open>The accepting thread and its workers\<close>

definition drop_nth :: "nat \<Rightarrow> 'a list \<Rightarrow> 'a list" where
  "drop_nth i xs = take i xs @ drop (Suc i) xs"

text \<open>
  A worker thread takes the semaphore when it is positive, fails to take it, or ends its session and
  posts it; the accepting thread makes a round of its loop in between.
\<close>

inductive server_step :: "config \<Rightarrow> server_st \<Rightarrow> server_st \<Rightarrow> bool" for CONFIG where
  round: "server_round ev es st = Ret (True, st') \<Longrightarrow> server_step CONFIG st st'"
| take_sem: "i < length (sv_waiting st) \<Longrightarrow> 0 < sv_sem st \<Longrightarrow>
     server_step CONFIG st (st\<lparr>sv_sem := sv_sem st - 1, sv_active := sv_active st @ [sv_waiting st ! i],
       sv_waiting := drop_nth i (sv_waiting st)\<rparr>)"
| fail_sem: "i < length (sv_waiting st) \<Longrightarrow> we_sem_rv e \<noteq> 0 \<Longrightarrow>
     network_server_worker nd e CONFIG host ex rs = Ret (Some r) \<Longrightarrow>
     server_step CONFIG st (st\<lparr>sv_waiting := drop_nth i (sv_waiting st), sv_sem := sv_sem st + (if wr_posted r then 1 else 0)\<rparr>)"
| session: "i < length (sv_active st) \<Longrightarrow> we_sem_rv e = 0 \<Longrightarrow> we_post_rv e = 0 \<Longrightarrow>
     network_server_worker nd e CONFIG host ex rs = Ret (Some r) \<Longrightarrow>
     server_step CONFIG st (st\<lparr>sv_active := drop_nth i (sv_active st), sv_sem := sv_sem st + (if wr_posted r then 1 else 0)\<rparr>)"

inductive server_reach :: "config \<Rightarrow> server_st \<Rightarrow> server_st \<Rightarrow> bool" for CONFIG st0 where
  start: "server_reach CONFIG st0 st0"
| step: "server_reach CONFIG st0 st \<Longrightarrow> server_step CONFIG st st' \<Longrightarrow> server_reach CONFIG st0 st'"

definition server_inv :: "config \<Rightarrow> server_st \<Rightarrow> bool" where
  "server_inv CONFIG st \<longleftrightarrow> 0 \<le> sv_sem st
     \<and> sv_sem st + int (length (sv_active st)) = sint (cfg_maxinconnections CONFIG)
     \<and> length (sv_listen_fds st) \<le> FD_SETSIZE"

lemma length_drop_nth: "i < length xs \<Longrightarrow> length (drop_nth i xs) = length xs - 1"
  by (simp add: drop_nth_def)

lemma sem_poll_bound: "1 \<le> n \<Longrightarrow> n \<le> MAXWAITWORKER \<Longrightarrow> sem_poll g bound v n \<le> MAXWAITWORKER"
  by (induction g bound v n rule: sem_poll.induct)
    (subst sem_poll.simps, auto simp: Let_def split: prod.splits)

lemma sem_poll_free: "g n = (0, x) \<Longrightarrow> bound \<le> x \<Longrightarrow> sem_poll g bound v n = n - 1"
  by (subst sem_poll.simps) simp

text \<open>A round touches neither the semaphore nor the sessions, and waits a bounded time per socket.\<close>

lemma server_accept_keeps:
  assumes "server_accept e st = Ret st'"
  shows "sv_sem st' = sv_sem st \<and> sv_active st' = sv_active st \<and> sv_listen_fds st' = sv_listen_fds st
    \<and> sv_initialized st' = sv_initialized st \<and> sv_slept st' \<le> sv_slept st + MAXWAITWORKER"
  using assms sem_poll_bound [of 1 "ac_sem e" 1 0]
  by (auto simp: server_accept_def Let_def MAXWAITWORKER_def obind_eq_Ret split: if_splits accept_result.splits)

lemma server_accept_ready_keeps:
  assumes "server_accept_ready rset es fds st = Ret st'"
  shows "sv_sem st' = sv_sem st \<and> sv_active st' = sv_active st \<and> sv_listen_fds st' = sv_listen_fds st
    \<and> sv_initialized st' = sv_initialized st \<and> sv_slept st' \<le> sv_slept st + MAXWAITWORKER * length (filter rset fds)"
  using assms
proof (induction fds arbitrary: st)
  case Nil
  then show ?case by simp
next
  case (Cons fd fds)
  show ?case
  proof (cases "rset fd")
    case True
    with Cons.prems obtain st1 where "server_accept (es fd) st = Ret st1" "server_accept_ready rset es fds st1 = Ret st'"
      by (auto simp: obind_eq_Ret)
    with server_accept_keeps Cons.IH [of st1] True show ?thesis by fastforce
  next
    case False
    with Cons show ?thesis by auto
  qed
qed

lemma server_round_keeps:
  assumes "server_round ev es st = Ret (go, st')"
  shows "sv_sem st' = sv_sem st \<and> sv_active st' = sv_active st \<and> sv_listen_fds st' = sv_listen_fds st
    \<and> sv_slept st' \<le> sv_slept st + MAXWAITWORKER * length (sv_listen_fds st)"
proof (cases ev)
  case (SrvErr e)
  with assms show ?thesis by (auto simp: server_round_def split: if_splits)
next
  case (SrvReady rset)
  with assms have r: "server_accept_ready rset es (sv_listen_fds st) st = Ret st'"
    by (auto simp: server_round_def obind_eq_Ret)
  have "MAXWAITWORKER * length (filter rset (sv_listen_fds st)) \<le> MAXWAITWORKER * length (sv_listen_fds st)"
    by simp
  with server_accept_ready_keeps [OF r] show ?thesis by linarith
qed

lemma server_step_inv:
  assumes "server_step CONFIG st st'" and "server_inv CONFIG st"
  shows "server_inv CONFIG st'"
  using assms
proof (induction rule: server_step.induct)
  case (round ev es st st')
  then show ?case using server_round_keeps [OF round(1)] by (simp add: server_inv_def)
next
  case (take_sem i st)
  then show ?case by (simp add: server_inv_def)
next
  case (fail_sem i st e nd host ex rs r)
  then show ?case using network_server_worker_sem [OF fail_sem(3)] by (simp add: server_inv_def)
next
  case (session i st e nd host ex rs r)
  then show ?case using network_server_worker_sem [OF session(4)] by (simp add: server_inv_def length_drop_nth)
qed

lemma server_reach_inv:
  assumes "server_reach CONFIG st0 st" and "server_inv CONFIG st0"
  shows "server_inv CONFIG st"
  using assms by (induction rule: server_reach.induct) (auto intro: server_step_inv)

subsection \<open>Which sockets are opened\<close>

text \<open>The descriptors of the addresses that could be opened, in order, with the number of attempts.\<close>

fun opened :: "(nat \<Rightarrow> addrinfo \<Rightarrow> listen_result) \<Rightarrow> nat \<Rightarrow> addrinfo list \<Rightarrow> int list" where
  "opened op k [] = []"
| "opened op k (ai # ais) = (case op k ai of Listening fd \<Rightarrow> [fd] | _ \<Rightarrow> []) @ opened op (Suc k) ais"

lemma opened_append: "opened op k (xs @ ys) = opened op k xs @ opened op (k + length xs) ys"
  by (induction op k xs rule: opened.induct) simp_all

lemma length_opened: "length (opened op k ais) \<le> length ais"
  by (induction op k ais rule: opened.induct) (auto split: listen_result.splits)

definition open_ok :: "(nat \<Rightarrow> addrinfo \<Rightarrow> listen_result) \<Rightarrow> bool" where
  "open_ok op \<longleftrightarrow> (\<forall>k ai fd. op k ai = Listening fd \<longrightarrow> 0 \<le> fd \<and> fd < int FD_SETSIZE)"

lemma listen_chain_spec:
  assumes "open_ok op" and "length fds \<le> FD_SETSIZE"
  shows "listen_chain op k ais fds = (if length fds + length (opened op k ais) \<le> FD_SETSIZE
    then Ret (k + length ais, fds @ opened op k ais) else Undef)"
  using assms(2)
proof (induction ais arbitrary: k fds)
  case Nil
  then show ?case by simp
next
  case (Cons ai ais)
  show ?case
  proof (cases "op k ai")
    case (Listening fd)
    then have fd: "0 \<le> fd \<and> fd < int FD_SETSIZE" using assms(1) by (auto simp: open_ok_def)
    show ?thesis
    proof (cases "length fds < FD_SETSIZE")
      case True
      with Cons.IH [of "fds @ [fd]" "Suc k"] Listening fd show ?thesis by simp
    next
      case False
      with Listening show ?thesis by simp
    qed
  qed (use Cons in simp_all)
qed

lemma listen_all_spec:
  assumes "open_ok op" and "length fds + length (opened op k (concat ptr)) \<le> FD_SETSIZE"
  shows "listen_all op k ptr fds = Ret (fds @ opened op k (concat ptr))"
  using assms(2)
proof (induction ptr arbitrary: k fds)
  case Nil
  then show ?case by simp
next
  case (Cons ais ptr)
  then have le: "length fds + length (opened op k ais) + length (opened op (k + length ais) (concat ptr)) \<le> FD_SETSIZE"
    by (simp add: opened_append)
  show ?case
  proof (cases "length fds < FD_SETSIZE")
    case True
    with le Cons.IH [of "fds @ opened op k ais" "k + length ais"] show ?thesis
      by (simp add: listen_chain_spec [OF assms(1)] opened_append)
  next
    case False
    with le have "length (opened op k ais) = 0 \<and> length (opened op (k + length ais) (concat ptr)) = 0" by linarith
    with False show ?thesis by (simp add: opened_append)
  qed
qed

lemma opened_short: "length (concat (cfg_listen CONFIG)) \<le> FD_SETSIZE \<Longrightarrow>
    length (opened op k (concat (cfg_listen CONFIG))) \<le> FD_SETSIZE"
  using length_opened [of op k "concat (cfg_listen CONFIG)"] by (rule order_trans)

definition server_env_ok :: "server_env \<Rightarrow> bool" where
  "server_env_ok e \<longleftrightarrow> se_attr_init_rv e = 0 \<and> se_attr_detach_rv e = 0 \<and> se_sem_init_rv e = 0 \<and> open_ok (se_open e)"

lemma network_start_server_spec:
  assumes "server_env_ok e" and "length (concat (cfg_listen CONFIG)) \<le> FD_SETSIZE"
  shows "network_start_server e CONFIG server_init_st = Ret (RETVAL_OK, server_init_st
    \<lparr>sv_initialized := True, sv_sem := sint (cfg_maxinconnections CONFIG), sv_listen_fds := opened (se_open e) 0 (concat (cfg_listen CONFIG))\<rparr>)"
  using assms opened_short [OF assms(2), of "se_open e" 0]
  by (simp add: network_start_server_def server_init_st_def server_env_ok_def network_start_listening_def listen_all_spec)

lemma server_start_inv:
  assumes "network_start_server e CONFIG server_init_st = Ret (RETVAL_OK, st)" and "server_env_ok e"
    and "length (concat (cfg_listen CONFIG)) \<le> FD_SETSIZE" and "0 \<le> sint (cfg_maxinconnections CONFIG)"
  shows "server_inv CONFIG st"
proof -
  have "st = server_init_st\<lparr>sv_initialized := True, sv_sem := sint (cfg_maxinconnections CONFIG),
      sv_listen_fds := opened (se_open e) 0 (concat (cfg_listen CONFIG))\<rparr>"
    using assms(1) network_start_server_spec [OF assms(2,3)] by simp
  then show ?thesis
    using assms(4) opened_short [OF assms(3), of "se_open e" 0] by (simp add: server_inv_def server_init_st_def)
qed

subsection \<open>Properties\<close>

definition demo_addr_any :: addrinfo where
  "demo_addr_any = \<lparr>ai_family = 2, ai_socktype = 1, ai_addr = ''0.0.0.0''\<rparr>"

definition demo_server_config :: config where
  "demo_server_config = demo_config\<lparr>cfg_listen := [[demo_addr_any]]\<rparr>"

definition demo_server_env :: server_env where
  "demo_server_env = \<lparr>se_attr_init_rv = 0, se_attr_detach_rv = 0, se_sem_init_rv = 0, se_open = (\<lambda>_ _. Listening 4)\<rparr>"

definition demo_accept :: accept_env where
  "demo_accept = \<lparr>ac_addr_ok = True, ac_sem = (\<lambda>_. (0, 5)), ac_accept = Accepted 7, ac_name = Some ''10.0.0.1'', ac_args_ok = True, ac_create_rv = 0\<rparr>"

definition demo_server :: server_st where
  "demo_server = server_init_st\<lparr>sv_initialized := True, sv_sem := 5, sv_listen_fds := [4]\<rparr>"

lemma demo_server_start: "server_env_ok demo_server_env" "length (concat (cfg_listen demo_server_config)) \<le> FD_SETSIZE"
    "sint (cfg_maxinconnections demo_server_config) = 5"
    "network_start_server demo_server_env demo_server_config server_init_st = Ret (RETVAL_OK, demo_server)"
proof -
  show e: "server_env_ok demo_server_env"
    by (simp add: server_env_ok_def demo_server_env_def open_ok_def FD_SETSIZE_def)
  show l: "length (concat (cfg_listen demo_server_config)) \<le> FD_SETSIZE"
    by (simp add: demo_server_config_def FD_SETSIZE_def)
  show m: "sint (cfg_maxinconnections demo_server_config) = 5"
    by (simp add: demo_server_config_def demo_config_def init_config_def config_defaults)
  show "network_start_server demo_server_env demo_server_config server_init_st = Ret (RETVAL_OK, demo_server)"
    using network_start_server_spec [OF e l] m
    by (simp add: demo_server_def demo_server_env_def demo_server_config_def)
qed

text \<open>One connection comes in, and its worker takes the semaphore.\<close>

definition demo_busy :: server_st where
  "demo_busy = demo_server\<lparr>sv_active := [7], sv_sem := 4\<rparr>"

lemma demo_server_run: "server_reach demo_server_config demo_server demo_busy"
proof -
  let ?st = "demo_server\<lparr>sv_waiting := [7]\<rparr>"
  have p: "sem_poll (\<lambda>_. (0, 5)) 1 0 1 = 0" by (simp add: sem_poll_free [where x = 5])
  have "server_round (SrvReady (\<lambda>fd. fd = 4)) (\<lambda>_. demo_accept) demo_server = Ret (True, ?st)"
    using p by (simp add: server_round_def server_accept_def demo_accept_def demo_server_def server_init_st_def Let_def)
  then have r: "server_reach demo_server_config demo_server ?st"
    by (rule server_reach.step [OF server_reach.start server_step.round])
  have "server_step demo_server_config ?st (?st\<lparr>sv_sem := sv_sem ?st - 1, sv_active := sv_active ?st @ [sv_waiting ?st ! 0],
       sv_waiting := drop_nth 0 (sv_waiting ?st)\<rparr>)"
    by (rule server_step.take_sem) (simp_all add: demo_server_def)
  from server_reach.step [OF r this] show ?thesis
    by (simp add: demo_busy_def demo_server_def server_init_st_def drop_nth_def)
qed

text \<open>
  C26. The semaphore bounds the load: whatever the order in which connections arrive, workers take the semaphore,
  fail to take it, and end their sessions, the number of sessions that run at once and the value of the semaphore
  add up to \<^verbatim>\<open>maxinconnections\<close>. So there are never more sessions than that, none of the semaphore's units is
  lost however a session ends, and whenever fewer sessions run, a waiting worker can start.
\<close>

theorem server_sessions_bounded:
  assumes "network_start_server e CONFIG server_init_st = Ret (RETVAL_OK, st0)" and "server_env_ok e"
    and "length (concat (cfg_listen CONFIG)) \<le> FD_SETSIZE" and "0 \<le> sint (cfg_maxinconnections CONFIG)"
    and "server_reach CONFIG st0 st"
  shows "sv_sem st + int (length (sv_active st)) = sint (cfg_maxinconnections CONFIG)
    \<and> int (length (sv_active st)) \<le> sint (cfg_maxinconnections CONFIG)
    \<and> (int (length (sv_active st)) < sint (cfg_maxinconnections CONFIG) \<and> sv_waiting st \<noteq> [] \<longrightarrow>
        server_step CONFIG st (st\<lparr>sv_sem := sv_sem st - 1, sv_active := sv_active st @ [sv_waiting st ! 0],
          sv_waiting := drop_nth 0 (sv_waiting st)\<rparr>))"
proof -
  have "server_inv CONFIG st" by (rule server_reach_inv [OF assms(5) server_start_inv [OF assms(1-4)]])
  then show ?thesis using server_step.take_sem [of 0 st CONFIG] by (auto simp: server_inv_def)
qed

theorem server_sessions_bounded_witness:
  "server_reach demo_server_config demo_server demo_busy \<and> sv_active demo_busy = [7]
   \<and> sv_sem demo_busy + int (length (sv_active demo_busy)) = 5"
  using server_sessions_bounded [OF demo_server_start(4,1,2) _ demo_server_run] demo_server_run demo_server_start(3)
  by (simp add: demo_busy_def)

text \<open>
  Starting and running the server: with no more addresses than the set of descriptors can hold, the server
  listens on exactly the addresses that could be opened, in the order of the configuration; a round of its
  loop leaves these sockets and the semaphore alone and waits at most \<^verbatim>\<open>MAXWAITWORKER\<close> seconds per socket;
  and the wait at shutdown is as long at most.
\<close>

theorem server_listens_and_waits:
  assumes "server_env_ok e" and "length (concat (cfg_listen CONFIG)) \<le> FD_SETSIZE"
  shows "\<exists>st. network_start_server e CONFIG server_init_st = Ret (RETVAL_OK, st)
    \<and> sv_listen_fds st = opened (se_open e) 0 (concat (cfg_listen CONFIG)) \<and> sv_sem st = sint (cfg_maxinconnections CONFIG)
    \<and> (\<forall>ev es go st'. server_round ev es st = Ret (go, st') \<longrightarrow>
        sv_listen_fds st' = sv_listen_fds st \<and> sv_sem st' = sv_sem st
        \<and> sv_slept st' \<le> sv_slept st + MAXWAITWORKER * length (sv_listen_fds st))
    \<and> (\<forall>g rv. snd (snd (network_server_shutdown_and_cleanup g rv CONFIG st)) \<le> MAXWAITWORKER)"
proof -
  have "snd (snd (network_server_shutdown_and_cleanup g rv CONFIG st)) \<le> MAXWAITWORKER" for g rv st
    using sem_poll_bound [of 1] by (simp add: network_server_shutdown_and_cleanup_def Let_def MAXWAITWORKER_def)
  with network_start_server_spec [OF assms] server_round_keeps show ?thesis by auto
qed

theorem server_listens_and_waits_witness:
  "\<exists>st. network_start_server demo_server_env demo_server_config server_init_st = Ret (RETVAL_OK, st) \<and> sv_listen_fds st = [4]"
  using server_listens_and_waits [OF demo_server_start(1,2)]
  by (auto simp: demo_server_env_def demo_server_config_def)

end
