(* ===== verification/Config_File.thy ===== *)
theory Config_File
  imports Config
begin

section \<open>Reading the configuration file (cfg.c)\<close>

text \<open>
  The option table \<open>cfgcfg\<close>, the conversion of values, the splitting of addresses for \<^verbatim>\<open>listen\<close> and
  \<^verbatim>\<open>inform_agent\<close>, and the loop over the lines of the file. \<^verbatim>\<open>getaddrinfo\<close> is the argument \<open>gai\<close>. The
  lemmas show how an option reaches its field, that every field with a range is within it after an
  option has been set, and what the end-of-file test of the loop does to the last line.
\<close>

subsection \<open>Numbers\<close>

text \<open>
  \<^verbatim>\<open>sscanf(value, ''%i'', p)\<close> and \<^verbatim>\<open>''%li''\<close>: blanks, a sign, \<^verbatim>\<open>0x\<close>, \<^verbatim>\<open>0\<close> or decimal digits. \<open>None\<close> is a
  failed conversion, which leaves \<^verbatim>\<open>*p\<close> alone; a value that does not fit is undefined behaviour.
\<close>

definition digit_of :: "char \<Rightarrow> nat option" where
  "digit_of c = (let n = of_char c in
     if 48 \<le> n \<and> n \<le> 57 then Some (n - 48)
     else if 97 \<le> n \<and> n \<le> 102 then Some (n - 87)
     else if 65 \<le> n \<and> n \<le> 70 then Some (n - 55)
     else None)"

definition is_digit :: "nat \<Rightarrow> char \<Rightarrow> bool" where
  "is_digit base c = (case digit_of c of None \<Rightarrow> False | Some d \<Rightarrow> d < base)"

definition base_value :: "nat \<Rightarrow> string \<Rightarrow> int" where
  "base_value base ds = foldl (\<lambda>n c. int base * n + int (the (digit_of c))) 0 ds"

definition scan_unsigned :: "string \<Rightarrow> int option" where
  "scan_unsigned s =
     (if length s \<ge> 2 \<and> s ! 0 = CHR ''0'' \<and> (s ! 1 = CHR ''x'' \<or> s ! 1 = CHR ''X'')
      then (let ds = takeWhile (is_digit 16) (drop 2 s) in if ds = [] then None else Some (base_value 16 ds))
      else if s \<noteq> [] \<and> s ! 0 = CHR ''0''
      then Some (base_value 8 (takeWhile (is_digit 8) s))
      else (let ds = takeWhile (is_digit 10) s in if ds = [] then None else Some (base_value 10 ds)))"

definition scan_int :: "string \<Rightarrow> int option" where
  "scan_int str =
     (let s = dropWhile isspace str;
          neg = (s \<noteq> [] \<and> hd s = CHR ''-'');
          s = (if s \<noteq> [] \<and> (hd s = CHR ''-'' \<or> hd s = CHR ''+'') then tl s else s)
      in map_option (\<lambda>n. if neg then - n else n) (scan_unsigned s))"

definition sscanf_i :: "nat \<Rightarrow> string \<Rightarrow> int option outcome" where
  "sscanf_i w value = (case scan_int value of
       None \<Rightarrow> Ret None
     | Some n \<Rightarrow> if - (2 ^ (w - 1)) \<le> n \<and> n < 2 ^ (w - 1) then Ret (Some n) else Undef)"

subsection \<open>Addresses\<close>

type_synonym getaddrinfo = "string \<Rightarrow> string \<Rightarrow> addrinfo list option"

text \<open>\<^verbatim>\<open>strtok(copy, '' '')\<close>, called until it answers null.\<close>

function strtok_all :: "string \<Rightarrow> string list" where
  "strtok_all s = (let s' = dropWhile (\<lambda>c. c = CHR '' '') s in
     if s' = [] then [] else takeWhile (\<lambda>c. c \<noteq> CHR '' '') s' # strtok_all (dropWhile (\<lambda>c. c \<noteq> CHR '' '') s'))"
  by pat_completeness auto
termination
proof (relation "measure length", simp)
  fix s s' :: string
  assume s': "s' = dropWhile (\<lambda>c. c = CHR '' '') s" "s' \<noteq> []"
  then have "hd s' \<noteq> CHR '' ''" by (metis (mono_tags, lifting) hd_dropWhile)
  with s'(2) have "length (dropWhile (\<lambda>c. c \<noteq> CHR '' '') s') < length s'"
    by (cases s') (auto simp: length_dropWhile_le le_imp_less_Suc)
  with s'(1) show "(dropWhile (\<lambda>c. c \<noteq> CHR '' '') s', s) \<in> measure length"
    by (simp add: order_less_le_trans [OF _ length_dropWhile_le])
qed

declare strtok_all.simps [simp del]

text \<open>
  The split of one token into host and port; \<open>None\<close> for an IPv6 address without its bracket. The two
  arrays have \<^verbatim>\<open>BUFFSIZE\<close> bytes.
\<close>

definition fits_buffer :: "string \<Rightarrow> string \<Rightarrow> (string \<times> string) option outcome" where
  "fits_buffer host port =
     (if length host < BUFFSIZE \<and> length port < BUFFSIZE then Ret (Some (host, port)) else Undef)"

definition split_hostport :: "string \<Rightarrow> (string \<times> string) option outcome" where
  "split_hostport ptr =
     (if ptr \<noteq> [] \<and> ptr ! 0 = CHR ''[''
      then (case strchr ptr (CHR '']'') of
          None \<Rightarrow> Ret None
        | Some closing \<Rightarrow> (case strchr (drop closing ptr) (CHR '':'') of
            None \<Rightarrow> fits_buffer (take (length ptr - 2) (drop 1 ptr)) DEFAULT_LISTEN_PORT
          | Some k \<Rightarrow> (let colon = closing + k in
              fits_buffer (take (colon - 2) (drop 1 ptr)) (drop (colon + 1) ptr))))
      else (case strchr ptr (CHR '':'') of
          None \<Rightarrow> fits_buffer ptr DEFAULT_LISTEN_PORT
        | Some colon \<Rightarrow> fits_buffer (take colon ptr) (drop (colon + 1) ptr)))"

text \<open>
  The loop both callbacks share: the list built so far, whether \<^verbatim>\<open>lastitem\<close> points to its end, and how
  many items there are. With \<open>limit\<close> the loop stops at \<^verbatim>\<open>MAX_LISTEN\<close> items. Appending with a null
  \<^verbatim>\<open>lastitem\<close> to a list that is not empty dereferences the null pointer.
\<close>

fun add_addresses :: "getaddrinfo \<Rightarrow> bool \<Rightarrow> nat option \<Rightarrow> string list \<Rightarrow> addrinfo_list \<Rightarrow> bool \<Rightarrow> nat \<Rightarrow> addrinfo_list outcome" where
  "add_addresses gai mem limit [] items has_last n = Ret items"
| "add_addresses gai mem limit (ptr # ptrs) items has_last n =
     (if limit \<noteq> None \<and> the limit \<le> n then Ret items
      else obind (split_hostport ptr) (\<lambda>hp. case hp of
          None \<Rightarrow> add_addresses gai mem limit ptrs items has_last n
        | Some (host, port) \<Rightarrow> (case gai host port of
            None \<Rightarrow> add_addresses gai mem limit ptrs items has_last n
          | Some tmp \<Rightarrow>
              if \<not> mem then Exit 1
              else if items \<noteq> [] \<and> \<not> has_last then Undef
              else add_addresses gai mem limit ptrs (items @ [tmp]) True (Suc n))))"

record cfg_env =
  ce_nd :: bool
  ce_dup :: bool
  ce_malloc :: bool
  ce_gai :: getaddrinfo
  ce_path :: "string \<Rightarrow> int \<Rightarrow> bool"

definition config_callback_listen :: "cfg_env \<Rightarrow> string \<Rightarrow> config \<Rightarrow> config outcome" where
  "config_callback_listen e str c =
     c_assert (ce_nd e) (cfg_listen c = [])
       (c_assert (ce_nd e) (ce_dup e)
         (if \<not> ce_dup e then Undef
          else obind (add_addresses (ce_gai e) (ce_malloc e) (Some MAX_LISTEN) (strtok_all str) (cfg_listen c) False 0)
                 (\<lambda>l. Ret (c\<lparr>cfg_listen := l\<rparr>))))"

definition config_callback_inform :: "cfg_env \<Rightarrow> string \<Rightarrow> config \<Rightarrow> config outcome" where
  "config_callback_inform e str c =
     c_assert (ce_nd e) (cfg_inform_agents c = [])
       (c_assert (ce_nd e) (ce_dup e)
         (if \<not> ce_dup e then Undef
          else obind (add_addresses (ce_gai e) (ce_malloc e) None (strtok_all str) (cfg_inform_agents c) False 0)
                 (\<lambda>l. Ret (c\<lparr>cfg_inform_agents := l\<rparr>))))"

subsection \<open>The option table\<close>

datatype cfgvaltype =
    CFG_VAL_STR "char list \<Rightarrow> config \<Rightarrow> config"
  | CFG_VAL_PATH int "config \<Rightarrow> char list" "char list \<Rightarrow> config \<Rightarrow> config"
  | CFG_VAL_INT32 "i32 \<Rightarrow> config \<Rightarrow> config"
  | CFG_VAL_INT64 "i64 \<Rightarrow> config \<Rightarrow> config"
  | CFG_VAL_CALLBACK "cfg_env \<Rightarrow> string \<Rightarrow> config \<Rightarrow> config outcome"

definition R_OK :: int where "R_OK = 4"
definition X_OK :: int where "X_OK = 1"

definition cfgcfg :: "(string \<times> cfgvaltype) list" where
  "cfgcfg =
    [(''pidfile'', CFG_VAL_PATH (-1) cfg_pidfile (\<lambda>v. cfg_pidfile_update (\<lambda>_. v))),
     (''syslogfile'', CFG_VAL_PATH R_OK cfg_syslogfile (\<lambda>v. cfg_syslogfile_update (\<lambda>_. v))),
     (''action'', CFG_VAL_PATH (R_OK + X_OK) cfg_action (\<lambda>v. cfg_action_update (\<lambda>_. v))),
     (''exclude'', CFG_VAL_PATH R_OK cfg_exclude (\<lambda>v. cfg_exclude_update (\<lambda>_. v))),
     (''regex'', CFG_VAL_STR (\<lambda>v. cfg_regex_update (\<lambda>_. v))),
     (''action_threshold'', CFG_VAL_INT32 (\<lambda>v. cfg_action_threshold_update (\<lambda>_. v))),
     (''time_interval'', CFG_VAL_INT64 (\<lambda>v. cfg_time_interval_update (\<lambda>_. v))),
     (''purge_after'', CFG_VAL_INT64 (\<lambda>v. cfg_purge_after_update (\<lambda>_. v))),
     (''server'', CFG_VAL_INT32 (\<lambda>v. cfg_server_update (\<lambda>_. v))),
     (''server_timeout'', CFG_VAL_INT32 (\<lambda>v. cfg_server_timeout_update (\<lambda>_. v))),
     (''inform'', CFG_VAL_INT32 (\<lambda>v. cfg_inform_update (\<lambda>_. v))),
     (''inform_retry'', CFG_VAL_INT32 (\<lambda>v. cfg_inform_retry_update (\<lambda>_. v))),
     (''inform_retry_wait'', CFG_VAL_INT32 (\<lambda>v. cfg_inform_retry_wait_update (\<lambda>_. v))),
     (''maxinconnections'', CFG_VAL_INT32 (\<lambda>v. cfg_maxinconnections_update (\<lambda>_. v))),
     (''remote_authoritative'', CFG_VAL_INT32 (\<lambda>v. cfg_remote_authoritative_update (\<lambda>_. v))),
     (''listen'', CFG_VAL_CALLBACK config_callback_listen),
     (''inform_agent'', CFG_VAL_CALLBACK config_callback_inform),
     (''server_backlog'', CFG_VAL_INT32 (\<lambda>v. cfg_server_backlog_update (\<lambda>_. v))),
     (''ssl_ca_file'', CFG_VAL_PATH R_OK cfg_ssl_ca_file (\<lambda>v. cfg_ssl_ca_file_update (\<lambda>_. v))),
     (''ssl_crl_file'', CFG_VAL_PATH R_OK cfg_ssl_crl_file (\<lambda>v. cfg_ssl_crl_file_update (\<lambda>_. v))),
     (''ssl_server_cert'', CFG_VAL_PATH R_OK cfg_ssl_server_cert (\<lambda>v. cfg_ssl_server_cert_update (\<lambda>_. v))),
     (''ssl_server_key'', CFG_VAL_PATH R_OK cfg_ssl_server_key (\<lambda>v. cfg_ssl_server_key_update (\<lambda>_. v))),
     (''ssl_client_cert'', CFG_VAL_PATH R_OK cfg_ssl_client_cert (\<lambda>v. cfg_ssl_client_cert_update (\<lambda>_. v))),
     (''ssl_client_key'', CFG_VAL_PATH R_OK cfg_ssl_client_key (\<lambda>v. cfg_ssl_client_key_update (\<lambda>_. v)))]"

text \<open>The \<^verbatim>\<open>switch\<close> on the type of a matching entry.\<close>

fun store_option :: "cfg_env \<Rightarrow> cfgvaltype \<Rightarrow> string \<Rightarrow> config \<Rightarrow> config outcome" where
  "store_option e (CFG_VAL_STR upd) value c = Ret (upd (strncpy value BUFFSIZE) c)"
| "store_option e (CFG_VAL_PATH amode getf upd) value c = Ret (upd (strncpy value MAX_PATH) c)"
| "store_option e (CFG_VAL_INT32 upd) value c =
     obind (sscanf_i 32 value) (\<lambda>r. Ret (case r of None \<Rightarrow> c | Some n \<Rightarrow> upd (word_of_int n) c))"
| "store_option e (CFG_VAL_INT64 upd) value c =
     obind (sscanf_i 64 value) (\<lambda>r. Ret (case r of None \<Rightarrow> c | Some n \<Rightarrow> upd (word_of_int n) c))"
| "store_option e (CFG_VAL_CALLBACK cb) value c = cb e value c"

text \<open>The loop over the whole table: it does not stop at a match.\<close>

fun store_matching :: "cfg_env \<Rightarrow> (string \<times> cfgvaltype) list \<Rightarrow> string \<Rightarrow> string \<Rightarrow> config \<Rightarrow> config outcome" where
  "store_matching e [] token value c = Ret c"
| "store_matching e ((name, ty) # tab) token value c =
     obind (if name = token then store_option e ty value c else Ret c) (store_matching e tab token value)"

definition set_config_option :: "cfg_env \<Rightarrow> string \<Rightarrow> string \<Rightarrow> config \<Rightarrow> config outcome" where
  "set_config_option e token value c =
     obind (store_matching e cfgcfg token value c) (\<lambda>c'. Ret (config_sanitize c'))"

subsection \<open>The file\<close>

text \<open>One line: what precedes the first \<^verbatim>\<open>=\<close> is the option, what follows up to the newline the value.\<close>

definition config_line :: "cfg_env \<Rightarrow> string \<Rightarrow> config \<Rightarrow> config outcome" where
  "config_line e l c =
     (let line = cstr l in
      if length line < 2 then Ret c
      else if line ! 0 = CHR ''#'' then Ret c
      else (case strchr line (CHR ''='') of
          None \<Rightarrow> Ret c
        | Some k \<Rightarrow>
            (let token = take k line; tmp = drop (k + 1) line in
             if tmp = [] then Ret c
             else
               (let value = takeWhile (\<lambda>ch. ch \<noteq> CHR 0x0A) tmp in
                if value = [] then Ret c else set_config_option e token value c))))"

text \<open>
  What one iteration leaves in \<^verbatim>\<open>line\<close>: \<^verbatim>\<open>strsep\<close>, and the code that replaces it, overwrite the first \<^verbatim>\<open>=\<close>
  with a null byte, unless the line was skipped before.
\<close>

definition config_cut :: "string \<Rightarrow> string" where
  "config_cut l =
     (let line = cstr l in
      if length line < 2 then l
      else if line ! 0 = CHR ''#'' then l
      else (case strchr line (CHR ''='') of None \<Rightarrow> l | Some k \<Rightarrow> l[k := NUL]))"

text \<open>
  \<^verbatim>\<open>while (!feof(f)) { fgets(line, BUFFSIZE, f); ... }\<close>: the contents of \<^verbatim>\<open>line\<close> in each iteration. At the
  end of the file \<^verbatim>\<open>fgets\<close> fails, which is not looked at, and leaves \<^verbatim>\<open>line\<close> as the iteration before left it
  (\<open>None\<close>: never written). The end is noticed only by a call that runs into it.
\<close>

function config_file_lines :: "string option \<Rightarrow> string \<Rightarrow> string option list" where
  "config_file_lines line f = (case fgets BUFFSIZE f of
       None \<Rightarrow> [line]
     | Some (l, rest) \<Rightarrow>
         Some l # (if CHR 0x0A \<notin> set l \<and> length l < BUFFSIZE - 1 then [] else config_file_lines (Some (config_cut l)) rest))"
  by pat_completeness auto
termination
proof (relation "measure (\<lambda>(line, f). length f)", simp)
  fix line f x l rest
  assume "fgets BUFFSIZE f = Some x" "(l, rest) = x"
  then have "fgets BUFFSIZE f = Some (l, rest)" by simp
  from fgets_split [OF _ this] show "((Some (config_cut l), rest), (line, f)) \<in> measure (\<lambda>(line, f). length f)"
    by (auto simp: BUFFSIZE_def)
qed

declare config_file_lines.simps [simp del]

fun config_lines :: "cfg_env \<Rightarrow> string option list \<Rightarrow> config \<Rightarrow> config outcome" where
  "config_lines e [] c = Ret c"
| "config_lines e (None # ls) c = Undef"
| "config_lines e (Some l # ls) c = obind (config_line e l c) (config_lines e ls)"

text \<open>\<^verbatim>\<open>_check_paths_in_config\<close>: an inaccessible path ends the program.\<close>

fun check_paths :: "cfg_env \<Rightarrow> (string \<times> cfgvaltype) list \<Rightarrow> config \<Rightarrow> unit outcome" where
  "check_paths e [] c = Ret ()"
| "check_paths e ((name, CFG_VAL_PATH amode getf upd) # tab) c =
     obind (if amode \<noteq> -1
            then obind (c_string (getf c)) (\<lambda>p. if length p > 0 \<and> \<not> ce_path e p amode then Exit 1 else Ret ())
            else Ret ()) (\<lambda>_. check_paths e tab c)"
| "check_paths e (_ # tab) c = check_paths e tab c"

text \<open>\<^verbatim>\<open>config_read\<close>; the content is \<open>None\<close> when the file cannot be accessed or opened.\<close>

definition config_read :: "cfg_env \<Rightarrow> string \<Rightarrow> string option \<Rightarrow> config \<Rightarrow> config outcome" where
  "config_read e DEFAULT_PIDFILE content CONFIG = (case content of
       None \<Rightarrow> Exit 1
     | Some f \<Rightarrow>
         obind (config_lines e (config_file_lines None f) (init_config DEFAULT_PIDFILE CONFIG)) (\<lambda>c.
         obind (check_paths e cfgcfg c) (\<lambda>_.
           if cfg_listen c = [] then config_callback_listen e DEFAULT_LISTEN c else Ret c)))"

text \<open>\<^verbatim>\<open>config_free\<close> walks both lists and frees their nodes, which are returned in that order;
  the pointers \<^verbatim>\<open>CONFIG.listen\<close> and \<^verbatim>\<open>CONFIG.inform_agents\<close> keep their values.\<close>

fun free_addrinfo_list :: "addrinfo_list \<Rightarrow> addrinfo_list \<Rightarrow> addrinfo_list" where
  "free_addrinfo_list [] freed = freed"
| "free_addrinfo_list (ptr # nextptr) freed = free_addrinfo_list nextptr (freed @ [ptr])"

definition config_free :: "bool \<Rightarrow> config \<Rightarrow> int \<times> bool \<times> addrinfo_list" where
  "config_free initialized CONFIG =
     (if \<not> initialized then (RETVAL_ERR, initialized, [])
      else (RETVAL_OK, False, free_addrinfo_list (cfg_inform_agents CONFIG) (free_addrinfo_list (cfg_listen CONFIG) [])))"

lemma free_addrinfo_list_append [simp]: "free_addrinfo_list l freed = freed @ l"
  by (induction l arbitrary: freed) simp_all

subsection \<open>Numbers are read back\<close>

lemma digit_of_digit: "d < 10 \<Longrightarrow> digit_of (char_of (48 + d)) = Some d"
proof -
  assume d: "d < 10"
  then have "(48 + d) mod 256 = 48 + d" by simp
  then have "(of_char (char_of (48 + d) :: char) :: nat) = 48 + d" by (simp only: of_char_of)
  with d show ?thesis by (simp add: digit_of_def Let_def)
qed

lemma is_digit_digit: "(d :: nat) < 10 \<Longrightarrow> is_digit 10 (char_of (48 + d))"
  by (simp add: is_digit_def digit_of_digit)

lemma base_value_decimal: "base_value 10 (decimal n) = int n" and decimal_is_digit: "list_all (is_digit 10) (decimal n)"
proof (induction n rule: decimal.induct)
  case (1 n)
  { case 1
    show ?case
    proof (cases "n < 10")
      case True
      then show ?thesis by (subst decimal.simps) (simp add: base_value_def digit_of_digit)
    next
      case False
      then have "base_value 10 (decimal n) = 10 * base_value 10 (decimal (n div 10)) + int (n mod 10)"
        by (subst decimal.simps) (simp add: base_value_def digit_of_digit)
      with "1.IH"(1) False show ?thesis by (simp add: zdiv_int zmod_int)
    qed }
  { case 2
    show ?case using "1.IH"(2) by (subst decimal.simps) (auto simp: is_digit_digit) }
qed

lemma decimal_hd: "0 < n \<Longrightarrow> hd (decimal n) \<noteq> CHR ''0''"
proof (induction n rule: decimal.induct)
  case (1 n)
  show ?case
  proof (cases "n < 10")
    case True
    have "hd (decimal n) = char_of (48 + n)" using True by (subst decimal.simps) simp
    moreover have "(char_of (48 + n) :: char) \<noteq> CHR ''0''"
    proof
      assume "(char_of (48 + n) :: char) = CHR ''0''"
      then have "digit_of (char_of (48 + n)) = digit_of (CHR ''0'')" by simp
      with True 1 show False by (simp add: digit_of_digit) (simp add: digit_of_def)
    qed
    ultimately show ?thesis by simp
  next
    case False
    then have "hd (decimal n) = hd (decimal (n div 10))"
      using decimal_nonempty [of "n div 10"] by (subst decimal.simps) simp
    with 1 False show ?thesis by simp
  qed
qed

lemma scan_int_decimal: "scan_int (decimal n) = Some (int n)"
proof (cases "0 < n")
  case False
  moreover have "scan_int (decimal 0) = Some 0" by code_simp
  ultimately show ?thesis by simp
next
  case True
  obtain c cs where ds: "decimal n = c # cs" using decimal_nonempty by (cases "decimal n") auto
  then have c: "isdigit c" "c \<noteq> CHR ''0''" using decimal_digits [of n] decimal_hd [OF True] by auto
  have "takeWhile (is_digit 10) (decimal n) = decimal n"
    using decimal_is_digit [of n] by (simp add: list_all_iff takeWhile_eq_all_conv)
  then have "scan_unsigned (decimal n) = Some (int n)"
    using c ds base_value_decimal [of n] by (simp add: scan_unsigned_def Let_def)
  with c ds show ?thesis
    by (simp add: scan_int_def isdigit_not)
qed

text \<open>The names of the table are distinct, so an option stores into its own field only.\<close>

lemma cfgcfg_distinct: "distinct (map fst cfgcfg)"
  by (simp add: cfgcfg_def)

lemma store_matching_one:
  assumes "distinct (map fst tab)" and "(name, ty) \<in> set tab"
  shows "store_matching e tab name value c = store_option e ty value c"
proof -
  have none: "store_matching e tab token value c = Ret c" if "token \<notin> fst ` set tab" for tab token c
    using that by (induction tab) auto
  show ?thesis
    using assms
  proof (induction tab arbitrary: c)
    case Nil
    then show ?case by simp
  next
    case (Cons x tab)
    obtain n t where x: "x = (n, t)" by (cases x)
    show ?case
    proof (cases "n = name")
      case True
      with Cons.prems x have "t = ty" "name \<notin> fst ` set tab" by (auto simp: image_iff)
      with x True show ?thesis by (cases "store_option e ty value c") (simp_all add: none)
    next
      case False
      with Cons x show ?thesis by auto
    qed
  qed
qed

lemma set_config_option_int32:
  assumes "(name, CFG_VAL_INT32 upd) \<in> set cfgcfg" and "n < 2 ^ 31"
  shows "set_config_option e name (decimal n) c = Ret (config_sanitize (upd (of_nat n) c))"
  using store_matching_one [OF cfgcfg_distinct assms(1), of e "decimal n" c] assms(2)
  by (simp add: set_config_option_def sscanf_i_def scan_int_decimal)

subsection \<open>Addresses are split where they should be\<close>

lemma split_hostport_ipv6:
  assumes "CHR '']'' \<notin> set h" and "length h < BUFFSIZE" and "length p < BUFFSIZE"
  shows "split_hostport (''['' @ h @ '']:'' @ p) = Ret (Some (h, p))"
proof -
  have cl: "strchr (''['' @ h @ '']:'' @ p) (CHR '']'') = Some (length h + 1)"
    using strchr_append [of "CHR '']''" "''['' @ h" "'':'' @ p"] assms(1) by simp
  have co: "strchr ('']:'' @ p) (CHR '':'') = Some 1"
    using strchr_append [of "CHR '':''" "'']''" p] by simp
  show ?thesis
    using cl co assms by (simp add: split_hostport_def Let_def fits_buffer_def)
qed

lemma split_hostport_host:
  assumes "CHR '':'' \<notin> set h" and "h = [] \<or> hd h \<noteq> CHR ''[''" and "length h < BUFFSIZE" and "length p < BUFFSIZE"
  shows "split_hostport (h @ '':'' @ p) = Ret (Some (h, p))"
proof -
  have "strchr (h @ '':'' @ p) (CHR '':'') = Some (length h)"
    using strchr_append [of "CHR '':''" h p] assms(1) by simp
  moreover have "\<not> (h @ '':'' @ p \<noteq> [] \<and> (h @ '':'' @ p) ! 0 = CHR ''['')"
    using assms(2) by (cases h) auto
  ultimately show ?thesis
    using assms by (simp add: split_hostport_def fits_buffer_def)
qed

lemma strtok_one:
  assumes "v \<noteq> []" and "CHR '' '' \<notin> set v"
  shows "strtok_all v = [v]"
proof -
  have d: "dropWhile (\<lambda>c. c = CHR '' '') v = v" using assms by (cases v) auto
  have t: "takeWhile (\<lambda>c. c \<noteq> CHR '' '') v = v" "dropWhile (\<lambda>c. c \<noteq> CHR '' '') v = []"
    using assms(2) by (auto simp: takeWhile_eq_all_conv dropWhile_eq_Nil_conv)
  show ?thesis using assms(1) by (simp add: strtok_all.simps d t Let_def)
qed

subsection \<open>The values are in range\<close>

lemma set_config_option_sane: "set_config_option e token value c = Ret c' \<Longrightarrow> config_sane c'"
  by (auto simp: set_config_option_def obind_eq_Ret config_sane_sanitize)

text \<open>
  A string that sets an option: a name without \<^verbatim>\<open>=\<close>, a \<^verbatim>\<open>=\<close>, and a value, which is not empty, does not begin with a
  newline, and stands on a line that is no comment.
\<close>

definition sets_option :: "string \<Rightarrow> bool" where
  "sets_option l \<longleftrightarrow> (\<exists>name v. cstr l = name @ ''='' @ v \<and> CHR ''='' \<notin> set name \<and> cstr l ! 0 \<noteq> CHR ''#''
     \<and> v \<noteq> [] \<and> hd v \<noteq> CHR 0x0A)"

lemma config_line_sets:
  "\<exists>name v. config_line e l c = (if sets_option l then set_config_option e name v c else Ret c)"
proof (cases "sets_option l")
  case True
  then obtain name v where l: "cstr l = name @ ''='' @ v" "CHR ''='' \<notin> set name" "cstr l ! 0 \<noteq> CHR ''#''" "v \<noteq> []" "hd v \<noteq> CHR 0x0A"
    by (auto simp: sets_option_def)
  have "strchr (cstr l) (CHR ''='') = Some (length name)" unfolding l(1) using strchr_append [OF l(2), of v] by simp
  moreover have "takeWhile (\<lambda>ch. ch \<noteq> CHR 0x0A) v \<noteq> []" using l(4,5) by (cases v) auto
  moreover have "\<not> length (cstr l) < 2" using l(1,4) by (cases v) auto
  ultimately have "config_line e l c = set_config_option e name (takeWhile (\<lambda>ch. ch \<noteq> CHR 0x0A) v) c"
    using l(1,3,4) by (simp add: config_line_def Let_def)
  with True show ?thesis by auto
next
  case False
  have "config_line e l c = Ret c"
  proof (cases "length (cstr l) < 2 \<or> cstr l ! 0 = CHR ''#'' \<or> strchr (cstr l) (CHR ''='') = None")
    case True
    then show ?thesis by (auto simp: config_line_def Let_def)
  next
    case no: False
    then obtain k where k: "strchr (cstr l) (CHR ''='') = Some k" by auto
    let ?v = "drop (k + 1) (cstr l)"
    have "k < length (cstr l)" "cstr l ! k = CHR ''=''" "CHR ''='' \<notin> set (take k (cstr l))"
      using strchr_Some [OF k] by auto
    then have "cstr l = take k (cstr l) @ ''='' @ ?v" using id_take_nth_drop [of k "cstr l"] by simp
    with False no \<open>CHR ''='' \<notin> _\<close> have "?v = [] \<or> hd ?v = CHR 0x0A" unfolding sets_option_def by blast
    then have "?v = [] \<or> takeWhile (\<lambda>ch. ch \<noteq> CHR 0x0A) ?v = []" by (cases ?v) auto
    with k no show ?thesis by (auto simp: config_line_def Let_def)
  qed
  with False show ?thesis by auto
qed

text \<open>From the first string that sets an option on, the configuration is in range; before it nothing has changed.\<close>

lemma config_line_sane:
  assumes "config_line e l c = Ret c'"
  shows "if sets_option l then config_sane c' else c' = c"
proof -
  obtain name v where "config_line e l c = (if sets_option l then set_config_option e name v c else Ret c)"
    using config_line_sets by blast
  with assms show ?thesis by (auto dest: set_config_option_sane split: if_splits)
qed

lemma config_lines_sane:
  "config_lines e ls c = Ret c' \<Longrightarrow>
    (if config_sane c \<or> (\<exists>l. Some l \<in> set ls \<and> sets_option l) then config_sane c' else c' = c)"
proof (induction e ls c rule: config_lines.induct)
  case (3 e l ls c)
  then obtain c1 where c1: "config_line e l c = Ret c1" "config_lines e ls c1 = Ret c'" by (auto simp: obind_eq_Ret)
  from "3.IH" [OF c1(1,2)] config_line_sane [OF c1(1)] show ?case by (auto split: if_splits)
qed auto

lemma listen_keeps: "config_callback_listen e str c = Ret c' \<Longrightarrow> \<exists>l. c' = c\<lparr>cfg_listen := l\<rparr>"
  by (auto simp: config_callback_listen_def c_assert_def obind_eq_Ret split: if_splits)

lemma init_config_range:
  "config_sane (init_config pid zero_config\<lparr>cfg_server_backlog := 1\<rparr>)" "cfg_server_backlog (init_config pid zero_config) = 0"
  "\<not> config_sane (init_config pid zero_config)"
  by (simp_all add: config_sane_def init_config_def zero_config_def config_defaults Let_def)

subsection \<open>The last line\<close>

text \<open>A line with its newline that fits the buffer.\<close>

definition text_line :: "string \<Rightarrow> bool" where
  "text_line l \<longleftrightarrow> (\<exists>t. l = t @ [CHR 0x0A] \<and> CHR 0x0A \<notin> set t) \<and> length l < BUFFSIZE"

lemma fgets_text_line:
  assumes "text_line l"
  shows "fgets BUFFSIZE (l @ rest) = Some (l, rest)"
proof -
  obtain t where t: "l = t @ [CHR 0x0A]" "CHR 0x0A \<notin> set t" using assms by (auto simp: text_line_def)
  have len: "length l \<le> BUFFSIZE - 1" using assms by (simp add: text_line_def BUFFSIZE_def)
  then have "take (BUFFSIZE - 1) (l @ rest) = t @ CHR 0x0A # take (BUFFSIZE - 1 - length l) rest"
    using t(1) by (simp add: take_append take_Cons')
  then have "strchr (take (BUFFSIZE - 1) (l @ rest)) (CHR 0x0A) = Some (length t)"
    using t(2) by (simp add: strchr_append)
  then show ?thesis using t(1) by (simp add: fgets_def Let_def)
qed

lemma config_file_lines_text:
  assumes "list_all text_line ls"
  shows "config_file_lines line (concat ls) = map Some ls @ [if ls = [] then line else Some (config_cut (last ls))]"
  using assms
proof (induction ls arbitrary: line)
  case Nil
  then show ?case by (subst config_file_lines.simps) (simp add: fgets_def)
next
  case (Cons l ls)
  then have "fgets BUFFSIZE (l @ concat ls) = Some (l, concat ls)" "CHR 0x0A \<in> set l"
    by (auto simp: fgets_text_line text_line_def)
  with Cons show ?case by (subst config_file_lines.simps) simp
qed

text \<open>The extra iteration at the end of the file sees the option name only, and does nothing.\<close>

lemma config_line_cut: "config_line e (config_cut l) c = Ret c"
proof (cases "length (cstr l) < 2 \<or> cstr l ! 0 = CHR ''#'' \<or> strchr (cstr l) (CHR ''='') = None")
  case True
  then have "config_cut l = l" by (auto simp: config_cut_def Let_def)
  with True show ?thesis by (auto simp: config_line_def Let_def)
next
  case False
  then obtain k where k: "strchr (cstr l) (CHR ''='') = Some k" by auto
  then have kl: "k < length (cstr l)" "CHR ''='' \<notin> set (take k (cstr l))"
    using strchr_Some by blast+
  have le: "length (cstr l) \<le> length l" "take (length (cstr l)) l = cstr l"
    by (simp_all add: cstr_def length_takeWhile_le takeWhile_eq_take [symmetric])
  have "config_cut l = take k (cstr l) @ NUL # drop (Suc k) l"
  proof -
    have "take k l = take k (cstr l)" using kl(1) le(2) by (metis less_or_eq_imp_le min.absorb1 take_take)
    then show ?thesis using False k kl(1) le(1) by (simp add: config_cut_def Let_def upd_conv_take_nth_drop)
  qed
  moreover have "is_cstring (take k (cstr l))"
    using is_cstring_cstr [of l] by (auto simp: is_cstring_def dest: in_set_takeD)
  ultimately have "cstr (config_cut l) = take k (cstr l)" by simp
  moreover have "strchr (take k (cstr l)) (CHR ''='') = None" using kl(2) by (simp add: strchr_None)
  ultimately show ?thesis by (simp add: config_line_def Let_def)
qed

text \<open>A \<^verbatim>\<open>listen\<close> option that is given again is not survived.\<close>

lemma listen_twice:
  assumes "v \<noteq> []" "CHR '' '' \<notin> set v" and "split_hostport v = Ret (Some (h, p))" and "ce_gai e h p = Some a"
    and "ce_dup e" "ce_malloc e" and "cfg_listen c = []"
  shows "config_callback_listen e v c = Ret (c\<lparr>cfg_listen := [a]\<rparr>)"
    and "cfg_listen c' \<noteq> [] \<Longrightarrow> config_callback_listen e v c' = (if ce_nd e then Undef else Abort)"
  using assms by (simp_all add: config_callback_listen_def strtok_one c_assert_def MAX_LISTEN_def)

lemma cfgcfg_names: "(name, ty) \<in> set cfgcfg \<Longrightarrow>
    CHR ''='' \<notin> set name \<and> is_cstring name \<and> name \<noteq> [] \<and> name ! 0 \<noteq> CHR ''#'' \<and> CHR 0x0A \<notin> set name \<and> length name \<le> 20"
  by (auto simp: cfgcfg_def is_cstring_def)

text \<open>A line of the form \<^verbatim>\<open>name=value\<close> is handed to \<^verbatim>\<open>_set_config_option\<close> as name and value.\<close>

lemma config_line_option:
  assumes "(name, ty) \<in> set cfgcfg" and "v \<noteq> []" and "is_cstring v" and "CHR 0x0A \<notin> set v"
  shows "config_line e (name @ ''='' @ v @ [CHR 0x0A]) c = set_config_option e name v c"
proof -
  have n: "CHR ''='' \<notin> set name" "is_cstring name" "name \<noteq> []" "name ! 0 \<noteq> CHR ''#''"
    using cfgcfg_names [OF assms(1)] by auto
  let ?l = "name @ ''='' @ v @ [CHR 0x0A]"
  have l: "cstr ?l = ?l" using n(2) assms(3) by (auto simp: cstr_def is_cstring_def takeWhile_eq_all_conv)
  have k: "strchr ?l (CHR ''='') = Some (length name)"
    using strchr_append [of "CHR ''=''" name "v @ [CHR 0x0A]"] n(1) by simp
  have v: "takeWhile (\<lambda>ch. ch \<noteq> CHR 0x0A) (v @ [CHR 0x0A]) = v"
    using assms(4) by (simp add: takeWhile_append takeWhile_eq_all_conv)
  have "?l ! 0 \<noteq> CHR ''#''" "2 \<le> length ?l" using n(3,4) by (auto simp: nth_append Suc_le_eq)
  then show ?thesis
    using k v assms(2) by (simp add: config_line_def l Let_def del: append_Cons)
qed

lemma set_config_option_int64:
  assumes "(name, CFG_VAL_INT64 upd) \<in> set cfgcfg" and "n < 2 ^ 63"
  shows "set_config_option e name (decimal n) c = Ret (config_sanitize (upd (of_nat n) c))"
  using store_matching_one [OF cfgcfg_distinct assms(1), of e "decimal n" c] assms(2)
  by (simp add: set_config_option_def sscanf_i_def scan_int_decimal)

lemma decimal_value: "decimal n \<noteq> []" "is_cstring (decimal n)" "CHR 0x0A \<notin> set (decimal n)"
proof -
  have d: "isdigit ch" if "ch \<in> set (decimal n)" for ch
    using that decimal_digits [of n] by (simp add: list_all_iff)
  show "decimal n \<noteq> []" by (rule decimal_nonempty)
  show "CHR 0x0A \<notin> set (decimal n)" using d [of "CHR 0x0A"] by (auto simp: isdigit_def)
  show "is_cstring (decimal n)" using d [of NUL] by (auto simp: is_cstring_def isdigit_def)
qed

text \<open>The line of an option with a number, and what the table makes of it.\<close>

definition option_text :: "string \<Rightarrow> nat \<Rightarrow> string" where
  "option_text name n = name @ ''='' @ decimal n @ [CHR 0x0A]"

lemma int32_line:
  "(name, CFG_VAL_INT32 upd) \<in> set cfgcfg \<Longrightarrow> n < 2 ^ 31 \<Longrightarrow>
    config_line e (option_text name n) c = Ret (config_sanitize (upd (of_nat n) c))"
  unfolding option_text_def by (simp add: config_line_option decimal_value set_config_option_int32 del: append.simps)

lemma int64_line:
  "(name, CFG_VAL_INT64 upd) \<in> set cfgcfg \<Longrightarrow> n < 2 ^ 63 \<Longrightarrow>
    config_line e (option_text name n) c = Ret (config_sanitize (upd (of_nat n) c))"
  unfolding option_text_def by (simp add: config_line_option decimal_value set_config_option_int64 del: append.simps)

lemma of_nat_range:
  "n < 2 ^ 31 \<Longrightarrow> (of_nat n :: i32) <s 1 \<longleftrightarrow> n = 0" "n < 2 ^ 31 \<Longrightarrow> (256 :: i32) <s of_nat n \<longleftrightarrow> 256 < n"
  "n < 2 ^ 31 \<Longrightarrow> (of_nat n :: i32) = 0 \<longleftrightarrow> n = 0" "m < 2 ^ 63 \<Longrightarrow> (of_nat m :: i64) <s 1 \<longleftrightarrow> m = 0"
proof -
  have 32: "sint (of_nat n :: i32) = int n" if "n < 2 ^ 31" using that by (simp add: signed_of_nat signed_take_bit_int_eq_self)
  have 64: "sint (of_nat m :: i64) = int m" if "m < 2 ^ 63" using that by (simp add: signed_of_nat signed_take_bit_int_eq_self)
  show "n < 2 ^ 31 \<Longrightarrow> (of_nat n :: i32) <s 1 \<longleftrightarrow> n = 0" "n < 2 ^ 31 \<Longrightarrow> (256 :: i32) <s of_nat n \<longleftrightarrow> 256 < n"
    using 32 by (simp_all add: word_sless_alt)
  show "(of_nat n :: i32) = 0 \<longleftrightarrow> n = 0" if "n < 2 ^ 31" 
  proof
    assume "(of_nat n :: i32) = 0"
    with 32 [OF that] have "int n = sint (0 :: i32)" by (simp only:)
    then show "n = 0" by simp
  qed simp
  show "m < 2 ^ 63 \<Longrightarrow> (of_nat m :: i64) <s 1 \<longleftrightarrow> m = 0" using 64 by (simp add: word_sless_alt)
qed

lemma int_options:
  "(''action_threshold'', CFG_VAL_INT32 (\<lambda>v. cfg_action_threshold_update (\<lambda>_. v))) \<in> set cfgcfg"
  "(''server'', CFG_VAL_INT32 (\<lambda>v. cfg_server_update (\<lambda>_. v))) \<in> set cfgcfg"
  "(''server_timeout'', CFG_VAL_INT32 (\<lambda>v. cfg_server_timeout_update (\<lambda>_. v))) \<in> set cfgcfg"
  "(''server_backlog'', CFG_VAL_INT32 (\<lambda>v. cfg_server_backlog_update (\<lambda>_. v))) \<in> set cfgcfg"
  "(''maxinconnections'', CFG_VAL_INT32 (\<lambda>v. cfg_maxinconnections_update (\<lambda>_. v))) \<in> set cfgcfg"
  "(''inform'', CFG_VAL_INT32 (\<lambda>v. cfg_inform_update (\<lambda>_. v))) \<in> set cfgcfg"
  "(''inform_retry'', CFG_VAL_INT32 (\<lambda>v. cfg_inform_retry_update (\<lambda>_. v))) \<in> set cfgcfg"
  "(''inform_retry_wait'', CFG_VAL_INT32 (\<lambda>v. cfg_inform_retry_wait_update (\<lambda>_. v))) \<in> set cfgcfg"
  "(''remote_authoritative'', CFG_VAL_INT32 (\<lambda>v. cfg_remote_authoritative_update (\<lambda>_. v))) \<in> set cfgcfg"
  "(''time_interval'', CFG_VAL_INT64 (\<lambda>v. cfg_time_interval_update (\<lambda>_. v))) \<in> set cfgcfg"
  "(''purge_after'', CFG_VAL_INT64 (\<lambda>v. cfg_purge_after_update (\<lambda>_. v))) \<in> set cfgcfg"
  by (simp_all add: cfgcfg_def)

text \<open>One field of a configuration in range is given a number: sanitizing touches no other field.\<close>

lemma sanitize_field:
  assumes "config_sane c" and "n < 2 ^ 31" and "m < 2 ^ 63"
  shows "config_sanitize (c\<lparr>cfg_action_threshold := of_nat n\<rparr>) = c\<lparr>cfg_action_threshold := if n = 0 then DEFAULT_ACTION_THRESHOLD else of_nat n\<rparr>"
    and "config_sanitize (c\<lparr>cfg_time_interval := of_nat m\<rparr>) = c\<lparr>cfg_time_interval := if m = 0 then DEFAULT_TIME_INTERVAL else of_nat m\<rparr>"
    and "config_sanitize (c\<lparr>cfg_purge_after := of_nat m\<rparr>) = c\<lparr>cfg_purge_after := if m = 0 then DEFAULT_PURGE_AFTER else of_nat m\<rparr>"
    and "config_sanitize (c\<lparr>cfg_server := of_nat n\<rparr>) = c\<lparr>cfg_server := if n = 0 then 0 else 1\<rparr>"
    and "config_sanitize (c\<lparr>cfg_server_timeout := of_nat n\<rparr>) = c\<lparr>cfg_server_timeout := if n = 0 then DEFAULT_SERVER_TIMEOUT else of_nat n\<rparr>"
    and "config_sanitize (c\<lparr>cfg_server_backlog := of_nat n\<rparr>) = c\<lparr>cfg_server_backlog := if n = 0 then DEFAULT_SERVER_BACKLOG else of_nat n\<rparr>"
    and "config_sanitize (c\<lparr>cfg_maxinconnections := of_nat n\<rparr>)
      = c\<lparr>cfg_maxinconnections := if n = 0 then DEFAULT_MAXINCONNECTIONS else of_nat (min n 256)\<rparr>"
    and "config_sanitize (c\<lparr>cfg_inform := of_nat n\<rparr>) = c\<lparr>cfg_inform := if n = 0 then 0 else 1\<rparr>"
    and "config_sanitize (c\<lparr>cfg_inform_retry := of_nat n\<rparr>) = c\<lparr>cfg_inform_retry := of_nat n\<rparr>"
    and "config_sanitize (c\<lparr>cfg_inform_retry_wait := of_nat n\<rparr>)
      = c\<lparr>cfg_inform_retry_wait := if n = 0 then DEFAULT_INFORM_RETRY_WAIT else of_nat n\<rparr>"
    and "config_sanitize (c\<lparr>cfg_remote_authoritative := of_nat n\<rparr>) = c\<lparr>cfg_remote_authoritative := of_nat n\<rparr>"
proof -
  have p: "\<not> x <s 1" if "1 \<le> sint x" for x :: i32
    using that by (simp add: word_sless_alt)
  have p': "\<not> x <s 1" if "1 \<le> sint x" for x :: i64
    using that by (simp add: word_sless_alt)
  have f: "\<not> cfg_server_backlog c <s 1" "\<not> cfg_maxinconnections c <s 1" "\<not> cfg_server_timeout c <s 1" "\<not> cfg_inform_retry_wait c <s 1"
      "\<not> cfg_action_threshold c <s 1" "\<not> cfg_time_interval c <s 1" "\<not> cfg_purge_after c <s 1"
      "\<not> MAX_INCONN <s cfg_maxinconnections c"
    using assms(1) by (simp_all add: config_sane_def p p' word_sless_alt MAX_INCONN_def)
  have g: "cfg_inform c \<noteq> 0 \<Longrightarrow> cfg_inform c = 1" "cfg_server c \<noteq> 0 \<Longrightarrow> cfg_server c = 1"
    using assms(1) by (auto simp: config_sane_def)
  note n = of_nat_range(1-3) [OF assms(2)] of_nat_range(4) [OF assms(3)]
  show "config_sanitize (c\<lparr>cfg_action_threshold := of_nat n\<rparr>) = c\<lparr>cfg_action_threshold := if n = 0 then DEFAULT_ACTION_THRESHOLD else of_nat n\<rparr>"
    by (rule config.equality) (use f g n in \<open>auto simp: config_sanitize_def Let_def\<close>)
  show "config_sanitize (c\<lparr>cfg_time_interval := of_nat m\<rparr>) = c\<lparr>cfg_time_interval := if m = 0 then DEFAULT_TIME_INTERVAL else of_nat m\<rparr>"
    by (rule config.equality) (use f g n in \<open>auto simp: config_sanitize_def Let_def\<close>)
  show "config_sanitize (c\<lparr>cfg_purge_after := of_nat m\<rparr>) = c\<lparr>cfg_purge_after := if m = 0 then DEFAULT_PURGE_AFTER else of_nat m\<rparr>"
    by (rule config.equality) (use f g n in \<open>auto simp: config_sanitize_def Let_def\<close>)
  show "config_sanitize (c\<lparr>cfg_server := of_nat n\<rparr>) = c\<lparr>cfg_server := if n = 0 then 0 else 1\<rparr>"
    by (rule config.equality) (use f g n in \<open>auto simp: config_sanitize_def Let_def\<close>)
  show "config_sanitize (c\<lparr>cfg_server_timeout := of_nat n\<rparr>) = c\<lparr>cfg_server_timeout := if n = 0 then DEFAULT_SERVER_TIMEOUT else of_nat n\<rparr>"
    by (rule config.equality) (use f g n in \<open>auto simp: config_sanitize_def Let_def\<close>)
  show "config_sanitize (c\<lparr>cfg_server_backlog := of_nat n\<rparr>) = c\<lparr>cfg_server_backlog := if n = 0 then DEFAULT_SERVER_BACKLOG else of_nat n\<rparr>"
    by (rule config.equality) (use f g n in \<open>auto simp: config_sanitize_def Let_def\<close>)
  show "config_sanitize (c\<lparr>cfg_inform := of_nat n\<rparr>) = c\<lparr>cfg_inform := if n = 0 then 0 else 1\<rparr>"
    by (rule config.equality) (use f g n in \<open>auto simp: config_sanitize_def Let_def\<close>)
  show "config_sanitize (c\<lparr>cfg_inform_retry_wait := of_nat n\<rparr>) = c\<lparr>cfg_inform_retry_wait := if n = 0 then DEFAULT_INFORM_RETRY_WAIT else of_nat n\<rparr>"
    by (rule config.equality) (use f g n in \<open>auto simp: config_sanitize_def Let_def\<close>)
  show "config_sanitize (c\<lparr>cfg_inform_retry := of_nat n\<rparr>) = c\<lparr>cfg_inform_retry := of_nat n\<rparr>"
    by (rule config.equality) (use f g n in \<open>auto simp: config_sanitize_def Let_def\<close>)
  show "config_sanitize (c\<lparr>cfg_remote_authoritative := of_nat n\<rparr>) = c\<lparr>cfg_remote_authoritative := of_nat n\<rparr>"
    by (rule config.equality) (use f g n in \<open>auto simp: config_sanitize_def Let_def\<close>)
  have "MAX_INCONN <s of_nat n \<longleftrightarrow> 256 < n" using n(2) by (simp add: MAX_INCONN_def)
  then show "config_sanitize (c\<lparr>cfg_maxinconnections := of_nat n\<rparr>)
      = c\<lparr>cfg_maxinconnections := if n = 0 then DEFAULT_MAXINCONNECTIONS else of_nat (min n 256)\<rparr>"
    by (intro config.equality) (use f g n in \<open>auto simp: config_sanitize_def Let_def MAX_INCONN_def min_def\<close>)
qed

lemma config_lines_append: "config_lines e (as @ bs) c = obind (config_lines e as c) (config_lines e bs)"
proof (induction e as c rule: config_lines.induct)
  case (3 e l ls c)
  then show ?case by (cases "config_line e l c") simp_all
qed simp_all

text \<open>The access test passes when every path is a string and accessible.\<close>

fun paths_terminated :: "(string \<times> cfgvaltype) list \<Rightarrow> config \<Rightarrow> bool" where
  "paths_terminated [] c = True"
| "paths_terminated ((name, CFG_VAL_PATH amode getf upd) # tab) c = (terminated (getf c) \<and> paths_terminated tab c)"
| "paths_terminated (_ # tab) c = paths_terminated tab c"

lemma check_paths_ok: "paths_terminated tab c \<Longrightarrow> (\<And>p m. ce_path e p m) \<Longrightarrow> check_paths e tab c = Ret ()"
  by (induction e tab c rule: check_paths.induct) (auto simp: c_string_def)

subsection \<open>The arrays keep their type\<close>

text \<open>A character array of the declared size that holds a string.\<close>

definition char_array :: "nat \<Rightarrow> char list \<Rightarrow> bool" where
  "char_array n a \<longleftrightarrow> length a = n \<and> terminated a"

definition config_typed :: "config \<Rightarrow> bool" where
  "config_typed c \<longleftrightarrow> list_all (char_array MAX_PATH) [cfg_pidfile c, cfg_syslogfile c, cfg_action c, cfg_exclude c,
       cfg_ssl_ca_file c, cfg_ssl_crl_file c, cfg_ssl_server_key c, cfg_ssl_server_cert c, cfg_ssl_client_key c, cfg_ssl_client_cert c]
     \<and> char_array BUFFSIZE (cfg_regex c)"

lemma strncpy_char_array [simp]: "length v < n \<Longrightarrow> char_array n (strncpy v n)"
  by (simp add: char_array_def strncpy_def terminated_def)

lemma init_config_typed: "length pid < MAX_PATH \<Longrightarrow> config_typed (init_config pid c)"
  by (simp add: config_typed_def init_config_def MAX_PATH_def BUFFSIZE_def DEFAULT_REGEX_def DEFAULT_LOGFILE_def
      DEFAULT_ACTION_def Let_def)

lemma sanitize_typed [simp]: "config_typed (config_sanitize c) = config_typed c"
  by (simp add: config_typed_def config_sanitize_def)

lemma callback_typed:
  "config_callback_listen e v c = Ret c' \<Longrightarrow> config_typed c' = config_typed c"
  "config_callback_inform e v c = Ret c' \<Longrightarrow> config_typed c' = config_typed c"
  by (auto simp: config_callback_listen_def config_callback_inform_def config_typed_def c_assert_def obind_eq_Ret split: if_splits)

text \<open>What an entry of the option table stores leaves the configuration typed.\<close>

fun entry_typed :: "cfgvaltype \<Rightarrow> bool" where
  "entry_typed (CFG_VAL_STR upd) = (\<forall>a c. char_array BUFFSIZE a \<longrightarrow> config_typed c \<longrightarrow> config_typed (upd a c))"
| "entry_typed (CFG_VAL_PATH amode getf upd) = (\<forall>a c. char_array MAX_PATH a \<longrightarrow> config_typed c \<longrightarrow> config_typed (upd a c))"
| "entry_typed (CFG_VAL_INT32 upd) = (\<forall>n c. config_typed c \<longrightarrow> config_typed (upd n c))"
| "entry_typed (CFG_VAL_INT64 upd) = (\<forall>n c. config_typed c \<longrightarrow> config_typed (upd n c))"
| "entry_typed (CFG_VAL_CALLBACK cb) = (\<forall>e v c c'. cb e v c = Ret c' \<longrightarrow> config_typed c' = config_typed c)"

lemma cfgcfg_typed: "list_all (\<lambda>(name, ty). entry_typed ty) cfgcfg"
  unfolding cfgcfg_def list.pred_inject prod.case entry_typed.simps
  by (intro conjI allI impI TrueI callback_typed) (simp_all add: config_typed_def)

lemma store_option_typed:
  assumes "entry_typed ty" and "length v < BUFFSIZE" and "store_option e ty v c = Ret c'" and "config_typed c"
  shows "config_typed c'"
  using assms by (cases ty) (auto simp: obind_eq_Ret BUFFSIZE_def MAX_PATH_def split: option.splits)

lemma store_matching_typed:
  "store_matching e tab token v c = Ret c' \<Longrightarrow> set tab \<subseteq> set cfgcfg \<Longrightarrow> length v < BUFFSIZE \<Longrightarrow> config_typed c \<Longrightarrow> config_typed c'"
proof (induction e tab token v c rule: store_matching.induct)
  case (2 e name ty tab token v c)
  then obtain c1 where c1: "(if name = token then store_option e ty v c else Ret c) = Ret c1" "store_matching e tab token v c1 = Ret c'"
    by (auto simp: obind_eq_Ret)
  have "entry_typed ty" using 2 cfgcfg_typed by (auto simp: list_all_iff)
  then have "config_typed c1" using c1(1) 2 store_option_typed [of ty v e c c1] by (auto split: if_splits)
  with 2 c1 show ?case by auto
qed auto

lemma config_line_typed:
  assumes "config_line e l c = Ret c'" and "length l < BUFFSIZE" and "config_typed c"
  shows "config_typed c'"
proof -
  have "length (takeWhile P (drop k (cstr l))) < BUFFSIZE" for P k
    using assms(2) length_takeWhile_le [of P "drop k (cstr l)"] length_takeWhile_le [of "\<lambda>c. c \<noteq> NUL" l]
    by (simp add: cstr_def)
  then show ?thesis
    using assms(1,3)
    by (auto simp: config_line_def Let_def set_config_option_def obind_eq_Ret split: if_splits option.splits dest: store_matching_typed)
qed

lemma length_config_cut [simp]: "length (config_cut l) = length l"
  by (simp add: config_cut_def Let_def split: option.splits)

lemma config_file_lines_short:
  "(\<And>l. line = Some l \<Longrightarrow> length l < BUFFSIZE) \<Longrightarrow> Some l \<in> set (config_file_lines line f) \<Longrightarrow> length l < BUFFSIZE"
proof (induction line f rule: config_file_lines.induct)
  case (1 line f)
  note l = "1.prems"(2) [unfolded config_file_lines.simps [of line f]]
  show ?case
  proof (cases "fgets BUFFSIZE f")
    case None
    then show ?thesis using l "1.prems"(1) by auto
  next
    case (Some x)
    obtain l0 rest where x: "x = (l0, rest)" by (cases x)
    have l0: "length l0 < BUFFSIZE" using fgets_split [of BUFFSIZE f l0 rest] Some x by (simp add: BUFFSIZE_def)
    show ?thesis
      using l "1.IH" [OF Some x [symmetric]] Some x l0 by (auto split: if_splits)
  qed
qed

lemma config_lines_typed:
  "config_lines e ls c = Ret c' \<Longrightarrow> (\<And>l. Some l \<in> set ls \<Longrightarrow> length l < BUFFSIZE) \<Longrightarrow> config_typed c \<Longrightarrow> config_typed c'"
  by (induction e ls c rule: config_lines.induct) (auto simp: obind_eq_Ret dest: config_line_typed)

lemma config_read_arrays:
  assumes "config_read e pid content c0 = Ret c" and "length pid < MAX_PATH"
  shows "config_typed c"
proof -
  obtain f c1 where f: "config_lines e (config_file_lines None f) (init_config pid c0) = Ret c1"
    and c: "c = c1 \<or> config_callback_listen e DEFAULT_LISTEN c1 = Ret c"
    using assms(1) by (auto simp: config_read_def obind_eq_Ret split: option.splits if_splits)
  have "config_typed c1"
    by (rule config_lines_typed [OF f _ init_config_typed [OF assms(2)]]) (auto dest: config_file_lines_short [rotated])
  with c show ?thesis by (auto dest: callback_typed)
qed

subsection \<open>Properties\<close>

definition demo_cfg :: cfg_env where
  "demo_cfg = \<lparr>ce_nd = False, ce_dup = True, ce_malloc = True,
     ce_gai = (\<lambda>h p. Some [\<lparr>ai_family = 2, ai_socktype = 1, ai_addr = h\<rparr>]), ce_path = (\<lambda>_ _. True)\<rparr>"

text \<open>
  C33. The configuration the program runs with is in range: when \<^verbatim>\<open>config_read\<close> returns and one of the strings its
  loop read sets an option (known or not), the threshold, the interval, the purge time, the backlog, the timeouts and the number of connections
  are at least one, no more than \<^verbatim>\<open>MAX_INCONN\<close> connections are accepted, and the switches are 0 or 1. When none of
  them does, all this holds but for \<^verbatim>\<open>server_backlog\<close>, which then is 0.
\<close>

theorem config_read_in_range:
  assumes "config_read e pidfile (Some f) zero_config = Ret c"
  shows "if \<exists>l. Some l \<in> set (config_file_lines None f) \<and> sets_option l then config_sane c
    else config_sane (c\<lparr>cfg_server_backlog := 1\<rparr>) \<and> cfg_server_backlog c = 0"
proof -
  obtain c1 where c1: "config_lines e (config_file_lines None f) (init_config pidfile zero_config) = Ret c1"
      "c = c1 \<or> config_callback_listen e DEFAULT_LISTEN c1 = Ret c"
    using assms by (auto simp: config_read_def obind_eq_Ret split: if_splits)
  then obtain l where "c = c1 \<or> c = c1\<lparr>cfg_listen := l\<rparr>" by (auto dest: listen_keeps)
  with config_lines_sane [OF c1(1)] init_config_range [of pidfile] show ?thesis
    by (auto simp: config_sane_def split: if_splits)
qed

definition demo_cfg_file :: string where
  "demo_cfg_file = ''action_threshold=7'' @ [CHR 0x0A]"

lemma demo_cfg_lines: "config_file_lines None demo_cfg_file = [Some demo_cfg_file, Some (config_cut demo_cfg_file)]"
proof -
  have "text_line demo_cfg_file"
    unfolding text_line_def demo_cfg_file_def by (auto simp: BUFFSIZE_def intro!: exI [of _ "''action_threshold=7''"])
  then show ?thesis using config_file_lines_text [of "[demo_cfg_file]" None] by simp
qed

lemma demo_cfg_line: "config_line e demo_cfg_file c = Ret (config_sanitize (c\<lparr>cfg_action_threshold := 7\<rparr>))"
proof -
  have m: "(''action_threshold'', CFG_VAL_INT32 (\<lambda>v. cfg_action_threshold_update (\<lambda>_. v))) \<in> set cfgcfg"
    by (simp add: cfgcfg_def)
  have d: "decimal 7 = ''7''" by code_simp
  have "demo_cfg_file = ''action_threshold'' @ ''='' @ decimal 7 @ [CHR 0x0A]" by (simp add: demo_cfg_file_def d)
  then show ?thesis
    using config_line_option [OF m decimal_value, of e 7 c] set_config_option_int32 [OF m, of 7 e c] by simp
qed

text \<open>Reading the one-line file, step by step, up to the default for \<^verbatim>\<open>listen\<close>.\<close>

lemma demo_cfg_read: "\<exists>c. config_read demo_cfg ''/run/agentsmith.pid'' (Some demo_cfg_file) zero_config = Ret c"
proof -
  let ?i = "init_config ''/run/agentsmith.pid'' zero_config"
  let ?c = "config_sanitize (?i\<lparr>cfg_action_threshold := 7\<rparr>)"
  have t: "terminated (strncpy [] MAX_PATH)" "terminated (strncpy DEFAULT_LOGFILE MAX_PATH)"
      "terminated (strncpy DEFAULT_ACTION MAX_PATH)" "terminated (strncpy ''/run/agentsmith.pid'' MAX_PATH)"
    by (simp_all add: strncpy_def terminated_def MAX_PATH_def DEFAULT_LOGFILE_def DEFAULT_ACTION_def)
  have "check_paths demo_cfg cfgcfg ?c = Ret ()"
    by (rule check_paths_ok) (simp_all add: cfgcfg_def config_sanitize_def init_config_def t demo_cfg_def)
  moreover have "cfg_listen ?c = []" by (simp add: config_sanitize_def init_config_def)
  moreover have "split_hostport DEFAULT_LISTEN = Ret (Some (''0.0.0.0'', ''48621''))"
    using split_hostport_host [of "''0.0.0.0''" "''48621''"] by (simp add: DEFAULT_LISTEN_def BUFFSIZE_def)
  ultimately show ?thesis
    using listen_twice(1) [of DEFAULT_LISTEN "''0.0.0.0''" "''48621''" demo_cfg _ ?c]
    by (simp add: config_read_def demo_cfg_lines demo_cfg_line config_line_cut DEFAULT_LISTEN_def demo_cfg_def)
qed

theorem config_read_in_range_witness:
  "\<exists>c. config_read demo_cfg ''/run/agentsmith.pid'' (Some demo_cfg_file) zero_config = Ret c \<and> config_sane c"
proof -
  have "cstr demo_cfg_file = ''action_threshold'' @ ''='' @ ''7'' @ [CHR 0x0A]" by (simp add: demo_cfg_file_def cstr_def)
  then have "sets_option demo_cfg_file"
    unfolding sets_option_def by (intro exI [of _ "''action_threshold''"] exI [of _ "''7'' @ [CHR 0x0A]"]) simp
  then have "\<exists>l. Some l \<in> set (config_file_lines None demo_cfg_file) \<and> sets_option l" by (auto simp: demo_cfg_lines)
  with demo_cfg_read config_read_in_range [of demo_cfg _ demo_cfg_file] show ?thesis by metis
qed

text \<open>
  C34. The arrays of the configuration have their declared type: whatever the file says, when \<^verbatim>\<open>config_read\<close>
  returns, every path has \<^verbatim>\<open>_MAX_PATH\<close> bytes and the expression \<^verbatim>\<open>BUFFSIZE\<close>, and each holds a null byte, so that
  none of the later uses as a string leaves its array.
\<close>

theorem config_read_typed:
  assumes "config_read e pidfile content CONFIG = Ret c" and "length pidfile < MAX_PATH"
  shows "list_all (\<lambda>a. length a = MAX_PATH \<and> terminated a) [cfg_pidfile c, cfg_syslogfile c, cfg_action c, cfg_exclude c,
       cfg_ssl_ca_file c, cfg_ssl_crl_file c, cfg_ssl_server_key c, cfg_ssl_server_cert c, cfg_ssl_client_key c, cfg_ssl_client_cert c]
     \<and> length (cfg_regex c) = BUFFSIZE \<and> terminated (cfg_regex c)"
  using config_read_arrays [OF assms] by (simp add: config_typed_def char_array_def)

theorem config_read_typed_witness:
  "\<exists>c. config_read demo_cfg ''/run/agentsmith.pid'' (Some demo_cfg_file) zero_config = Ret c
     \<and> length (cfg_action c) = 1024 \<and> terminated (cfg_action c)"
proof -
  obtain c where c: "config_read demo_cfg ''/run/agentsmith.pid'' (Some demo_cfg_file) zero_config = Ret c"
    using demo_cfg_read by blast
  with config_read_typed [OF c] show ?thesis by (simp add: MAX_PATH_def)
qed

text \<open>
  C35. A line \<^verbatim>\<open>name=n\<close> for an integer option, with \<^verbatim>\<open>n\<close> printed in decimal, read into a configuration in range, stores the
  number in the field of that name and changes nothing else. Zero gives an option that must be positive its default;
  \<^verbatim>\<open>maxinconnections\<close> is cut to \<^verbatim>\<open>MAX_INCONN\<close>, the two switches to 0 and 1.
\<close>

theorem int_option_line:
  assumes "config_sane c" and "n < 2 ^ 31" and "m < 2 ^ 63"
  shows "config_line e (option_text ''action_threshold'' n) c
      = Ret (c\<lparr>cfg_action_threshold := if n = 0 then DEFAULT_ACTION_THRESHOLD else of_nat n\<rparr>)
    \<and> config_line e (option_text ''time_interval'' m) c = Ret (c\<lparr>cfg_time_interval := if m = 0 then DEFAULT_TIME_INTERVAL else of_nat m\<rparr>)
    \<and> config_line e (option_text ''purge_after'' m) c = Ret (c\<lparr>cfg_purge_after := if m = 0 then DEFAULT_PURGE_AFTER else of_nat m\<rparr>)
    \<and> config_line e (option_text ''server'' n) c = Ret (c\<lparr>cfg_server := if n = 0 then 0 else 1\<rparr>)
    \<and> config_line e (option_text ''server_timeout'' n) c
      = Ret (c\<lparr>cfg_server_timeout := if n = 0 then DEFAULT_SERVER_TIMEOUT else of_nat n\<rparr>)
    \<and> config_line e (option_text ''server_backlog'' n) c
      = Ret (c\<lparr>cfg_server_backlog := if n = 0 then DEFAULT_SERVER_BACKLOG else of_nat n\<rparr>)
    \<and> config_line e (option_text ''maxinconnections'' n) c
      = Ret (c\<lparr>cfg_maxinconnections := if n = 0 then DEFAULT_MAXINCONNECTIONS else of_nat (min n 256)\<rparr>)
    \<and> config_line e (option_text ''inform'' n) c = Ret (c\<lparr>cfg_inform := if n = 0 then 0 else 1\<rparr>)
    \<and> config_line e (option_text ''inform_retry'' n) c = Ret (c\<lparr>cfg_inform_retry := of_nat n\<rparr>)
    \<and> config_line e (option_text ''inform_retry_wait'' n) c
      = Ret (c\<lparr>cfg_inform_retry_wait := if n = 0 then DEFAULT_INFORM_RETRY_WAIT else of_nat n\<rparr>)
    \<and> config_line e (option_text ''remote_authoritative'' n) c = Ret (c\<lparr>cfg_remote_authoritative := of_nat n\<rparr>)"
proof -
  note line = int_options(1-9) [THEN int32_line, OF assms(2)] int_options(10-11) [THEN int64_line, OF assms(3)]
  show ?thesis
    unfolding line sanitize_field [OF assms] by blast
qed

theorem int_option_line_witness:
  "config_line demo_cfg (''purge_after='' @ decimal 7200 @ [CHR 0x0A]) (config_sanitize demo_config)
     = Ret ((config_sanitize demo_config)\<lparr>cfg_purge_after := 7200\<rparr>)"
  using int_option_line [OF config_sane_sanitize, of 0 7200 demo_cfg demo_config] by (simp add: option_text_def)

text \<open>
  Where an address of \<^verbatim>\<open>listen\<close> or \<^verbatim>\<open>inform_agent\<close> is split: a bracketed IPv6 address with a port, an IPv6
  address without one, a name or IPv4 address with a port, and one without. The missing port is the
  default port, and the colons inside the brackets are not taken for the separator.
\<close>

theorem hostport_split:
  assumes "CHR '']'' \<notin> set h6" and "CHR '':'' \<notin> set h" and "h = [] \<or> hd h \<noteq> CHR ''[''"
    and "length h6 < BUFFSIZE" and "length h < BUFFSIZE" and "length p < BUFFSIZE"
  shows "split_hostport (''['' @ h6 @ '']:'' @ p) = Ret (Some (h6, p))
    \<and> split_hostport (''['' @ h6 @ '']'') = Ret (Some (h6, DEFAULT_LISTEN_PORT))
    \<and> split_hostport (h @ '':'' @ p) = Ret (Some (h, p))
    \<and> split_hostport h = Ret (Some (h, DEFAULT_LISTEN_PORT))"
proof -
  have cl: "strchr (''['' @ h6 @ '']'') (CHR '']'') = Some (length h6 + 1)"
    using strchr_append [of "CHR '']''" "''['' @ h6" "[]"] assms(1) by simp
  have no: "strchr '']'' (CHR '':'') = None" by (simp add: strchr_None)
  have six: "split_hostport (''['' @ h6 @ '']'') = Ret (Some (h6, DEFAULT_LISTEN_PORT))"
    using cl no assms(4) by (simp add: split_hostport_def fits_buffer_def DEFAULT_LISTEN_PORT_def BUFFSIZE_def)
  have "\<not> (h \<noteq> [] \<and> h ! 0 = CHR ''['')" using assms(3) by (auto simp: hd_conv_nth)
  moreover have "strchr h (CHR '':'') = None" using assms(2) by (simp add: strchr_None)
  ultimately have "split_hostport h = Ret (Some (h, DEFAULT_LISTEN_PORT))"
    using assms(5) by (auto simp: split_hostport_def fits_buffer_def DEFAULT_LISTEN_PORT_def BUFFSIZE_def)
  with six split_hostport_ipv6 [OF assms(1,4,6)] split_hostport_host [OF assms(2,3,5,6)] show ?thesis by blast
qed

theorem hostport_split_witness:
  "split_hostport ''[2001:db8::1]:4000'' = Ret (Some (''2001:db8::1'', ''4000''))
   \<and> split_hostport ''example.org'' = Ret (Some (''example.org'', ''48621''))"
  using hostport_split [of "''2001:db8::1''" "''example.org''" "''4000''"]
  by (simp add: BUFFSIZE_def DEFAULT_LISTEN_PORT_def)

text \<open>
  Every line of a file counts once: for a file of lines that end in a newline, \<^verbatim>\<open>config_read\<close> does what the
  lines say, each once and in order, then checks the paths and adds the default for \<^verbatim>\<open>listen\<close>. The loop tests
  for the end of the file before it reads and so runs once more after the last line, but by then \<^verbatim>\<open>strsep\<close>
  has cut the line down to the name of the option, and nothing happens.
\<close>

theorem config_lines_once:
  assumes "list_all text_line ls" and "ls \<noteq> []"
  shows "config_read e pidfile (Some (concat ls)) zero_config =
    obind (config_lines e (map Some ls) (init_config pidfile zero_config)) (\<lambda>c.
      obind (check_paths e cfgcfg c) (\<lambda>_. if cfg_listen c = [] then config_callback_listen e DEFAULT_LISTEN c else Ret c))"
proof -
  have one: "config_lines e (as @ [Some (config_cut l)]) c = config_lines e as c" for as l c
    by (cases "config_lines e as c") (simp_all add: config_lines_append config_line_cut)
  show ?thesis
    using assms by (simp add: config_read_def config_file_lines_text one)
qed

theorem config_lines_once_witness:
  "config_read demo_cfg ''/run/agentsmith.pid'' (Some (concat [demo_cfg_file])) zero_config =
    obind (config_lines demo_cfg [Some demo_cfg_file] (init_config ''/run/agentsmith.pid'' zero_config)) (\<lambda>c.
      obind (check_paths demo_cfg cfgcfg c) (\<lambda>_. if cfg_listen c = [] then config_callback_listen demo_cfg DEFAULT_LISTEN c else Ret c))"
proof -
  have "list_all text_line [demo_cfg_file]"
    unfolding text_line_def demo_cfg_file_def by (auto simp: BUFFSIZE_def intro!: exI [of _ "''action_threshold=7''"])
  from config_lines_once [OF this, of demo_cfg "''/run/agentsmith.pid''"] show ?thesis by simp
qed

text \<open>
  A second \<^verbatim>\<open>listen\<close> option ends the program: with assertions the callback aborts because the list of
  addresses is not empty, without them it writes through the null pointer that should be the end of the list.
\<close>

theorem listen_given_twice:
  assumes "v \<noteq> []" and "CHR '' '' \<notin> set v" and "is_cstring v" and "CHR 0x0A \<notin> set v"
    and "split_hostport v = Ret (Some (h, p))" and "ce_gai e h p = Some a" and "ce_dup e" and "ce_malloc e" and "cfg_listen c = []"
  shows "config_lines e [Some (''listen='' @ v @ [CHR 0x0A]), Some (''listen='' @ v @ [CHR 0x0A])] c = (if ce_nd e then Undef else Abort)"
proof -
  have m: "(''listen'', CFG_VAL_CALLBACK config_callback_listen) \<in> set cfgcfg" by (simp add: cfgcfg_def)
  have line: "config_line e (''listen='' @ v @ [CHR 0x0A]) c' = obind (config_callback_listen e v c') (\<lambda>c. Ret (config_sanitize c))" for c'
    using config_line_option [OF m assms(1,3,4), of e c'] store_matching_one [OF cfgcfg_distinct m, of e v c']
    by (simp add: set_config_option_def)
  note cb = listen_twice [OF assms(1,2,5-9)]
  have "cfg_listen (config_sanitize (c\<lparr>cfg_listen := [a]\<rparr>)) \<noteq> []" by (simp add: config_sanitize_def)
  then have "config_callback_listen e v (config_sanitize (c\<lparr>cfg_listen := [a]\<rparr>)) = (if ce_nd e then Undef else Abort)"
    by (rule cb(2))
  with cb(1) show ?thesis by (simp add: line del: append_Cons append_Nil)
qed

theorem listen_given_twice_witness:
  "config_lines demo_cfg [Some (''listen='' @ ''127.0.0.1:4000'' @ [CHR 0x0A]), Some (''listen='' @ ''127.0.0.1:4000'' @ [CHR 0x0A])]
     (init_config ''/run/agentsmith.pid'' zero_config) = Abort"
proof -
  have "split_hostport ''127.0.0.1:4000'' = Ret (Some (''127.0.0.1'', ''4000''))"
    using split_hostport_host [of "''127.0.0.1''" "''4000''"] by (simp add: BUFFSIZE_def)
  then show ?thesis
    using listen_given_twice [of "''127.0.0.1:4000''" "''127.0.0.1''" "''4000''" demo_cfg _
      "init_config ''/run/agentsmith.pid'' zero_config"]
    by (simp add: demo_cfg_def init_config_def is_cstring_def)
qed

end
