(* ===== verification/Program.thy ===== *)
theory Program
  imports Daemon Signals Server Config_File
begin

section \<open>The program (main.c, and the starting and stopping of threads in threads.c)\<close>

text \<open>
  \<^verbatim>\<open>main\<close> in the order of its statements: the options, the daemon mode, the configuration and the pid file, the
  start of every component, and after the log is no longer followed the way down. While the other threads
  run, what happens is \<open>daemon_step\<close>; starting and stopping the client are steps of \<^verbatim>\<open>main\<close> among theirs. The
  answers of the system are collected in \<open>main_env\<close>. Of the messages only those of \<^verbatim>\<open>main\<close> itself are kept.
  \<open>Life\<close> puts the life of the program together.
\<close>

subsection \<open>Options\<close>

record options =
  opt_cfgfile :: "string option"
  opt_pidfile :: "string option"
  opt_pidfile_from_cmdline :: bool
  opt_testonly :: bool
  opt_daemonmode :: bool

definition options_start :: options where
  "options_start = \<lparr>opt_cfgfile = None, opt_pidfile = None, opt_pidfile_from_cmdline = False, opt_testonly = False, opt_daemonmode = True\<rparr>"

text \<open>
  The loop over the results of \<^verbatim>\<open>getopt\<close>: option character and argument. \<open>dup k\<close> says whether the \<^verbatim>\<open>strdup\<close> of
  round \<open>k\<close> finds memory; if not, the pointer is null.
\<close>

fun main_options :: "(nat \<Rightarrow> bool) \<Rightarrow> nat \<Rightarrow> (char \<times> string) list \<Rightarrow> options \<Rightarrow> options outcome" where
  "main_options dup k [] o' = Ret o'"
| "main_options dup k ((c, optarg) # rest) o' =
     (let copy = (if dup k then Some optarg else None) in
      if c = CHR ''c'' then main_options dup (Suc k) rest (o'\<lparr>opt_cfgfile := copy\<rparr>)
      else if c = CHR ''p'' then main_options dup (Suc k) rest (o'\<lparr>opt_pidfile := copy, opt_pidfile_from_cmdline := True\<rparr>)
      else if c = CHR ''d'' then main_options dup (Suc k) rest (o'\<lparr>opt_daemonmode := False\<rparr>)
      else if c = CHR ''h'' then Exit 0
      else if c = CHR ''t'' then main_options dup (Suc k) rest (o'\<lparr>opt_testonly := True, opt_daemonmode := False\<rparr>)
      else if c = CHR ''L'' then Exit 0
      else if c = CHR ''V'' then Exit 0
      else if c = CHR ''?'' then Exit 1
      else main_options dup (Suc k) rest o')"

subsection \<open>The texts of the options\<close>

text \<open>
  \<^verbatim>\<open>PACKAGE_NAME\<close> and \<^verbatim>\<open>PACKAGE_STRING\<close> are written by the configure script, so they are arguments. What the loop
  over the options prints is determined by the first option that ends the program; for an unknown option the
  second component is the text of \<^verbatim>\<open>optopt\<close>.
\<close>

record package =
  PACKAGE_NAME :: string
  PACKAGE_STRING :: string

definition text_lines :: "string list \<Rightarrow> string" where
  "text_lines ls = concat (map (\<lambda>l. l @ [CHR 0x0A]) ls)"

definition HELPSTR :: "package \<Rightarrow> string" where
  "HELPSTR p = text_lines
     [''Usage:'',
      PACKAGE_NAME p @ '' [-d] [-t] [-c <file>] [-p <file>]'',
      ''-c <file>    read the config file <file>'',
      ''-d           run in foreground'',
      ''-h           this help'',
      ''-p <file>    write the pid to <file>'',
      ''-t           test configuration and exit'',
      ''-L           print license and exit'',
      ''-V           print version and exit'']"

definition LICENSESTR :: "package \<Rightarrow> string" where
  "LICENSESTR p = text_lines
     [''Copyright (C) 2010, 2011 by Rafael Ostertag'',
      [],
      PACKAGE_NAME p @ '' is free software: you can redistribute it and/or modify it under'',
      ''the terms of the GNU General Public License as published by the Free'',
      ''Software Foundation, either version 3 of the License, or (at your option)'',
      ''any later version.'',
      ''agentsmith is distributed in the hope that it will be useful, but WITHOUT ANY'',
      ''WARRANTY; without even the implied warranty of MERCHANTABILITY or FITNESS'',
      ''FOR A PARTICULAR PURPOSE.  See the GNU General Public License for more'',
      ''details.'',
      [],
      ''You should have received a copy of the GNU General Public License along with'',
      ''agentsmith.  If not, see <http://www.gnu.org/licenses/>.'']"

definition VERSIONSTR :: "package \<Rightarrow> string" where
  "VERSIONSTR p = PACKAGE_STRING p @ text_lines ['' Copyright (C) 2010, 2011 by Rafael Ostertag'']"

definition print_help :: "package \<Rightarrow> out_event list" where
  "print_help p = [To_stdout (HELPSTR p)]"

definition print_license :: "package \<Rightarrow> out_event list" where
  "print_license p = [To_stdout (LICENSESTR p)]"

definition print_version :: "package \<Rightarrow> out_event list" where
  "print_version p = [To_stdout (VERSIONSTR p)]"

fun options_print :: "package \<Rightarrow> (char \<times> string) list \<Rightarrow> out_event list" where
  "options_print p [] = []"
| "options_print p ((c, arg) # rest) =
     (if c = CHR ''h'' then print_help p
      else if c = CHR ''L'' then print_license p
      else if c = CHR ''V'' then print_version p
      else if c = CHR ''?'' then To_stderr (text_lines [''Unknown argument '' @ arg]) # print_help p
      else options_print p rest)"

text \<open>The loop prints something exactly if it ends the program, and complains exactly if the status is 1.\<close>

lemma options_print_exit:
  "(options_print p os \<noteq> []) = (\<exists>n. main_options dup k os o' = Exit n)"
  "(\<exists>t. To_stderr t \<in> set (options_print p os)) = (main_options dup k os o' = Exit 1)"
proof (induction os arbitrary: k o')
  case Nil
  { case 1 then show ?case by simp }
  { case 2 then show ?case by simp }
next
  case (Cons x os)
  obtain c a where x: "x = (c, a)" by (cases x)
  { case 1 from Cons x show ?case by (simp add: Let_def print_help_def print_license_def print_version_def) }
  { case 2 from Cons x show ?case by (simp add: Let_def print_help_def print_license_def print_version_def) }
qed

subsection \<open>Threads\<close>

datatype thread = Action_thread | Maintenance_thread | Server_thread

record threads_st =
  th_action :: bool
  th_maintenance :: bool
  th_server :: bool

definition threads_start :: "(thread \<Rightarrow> int) \<Rightarrow> config \<Rightarrow> threads_st outcome" where
  "threads_start create CONFIG =
     (if create Action_thread \<noteq> 0 then Exit 1
      else if create Maintenance_thread \<noteq> 0 then Exit 1
      else if cfg_server CONFIG \<noteq> 0
      then (if create Server_thread \<noteq> 0 then Exit 1
            else Ret \<lparr>th_action = True, th_maintenance = True, th_server = True\<rparr>)
      else Ret \<lparr>th_action = True, th_maintenance = True, th_server = False\<rparr>)"

text \<open>
  \<^verbatim>\<open>threads_stop\<close>: cancel and join, in this order for each thread; errors are reported only. A thread is known
  to have ended when both calls succeed. Here the calls return; whether \<^verbatim>\<open>pthread_join\<close> ever does, and where a thread is
  when it is cancelled, is the subject of \<open>Shutdown\<close>, and \<open>Life\<close> puts the two together.
\<close>

definition threads_stop :: "(thread \<Rightarrow> int) \<Rightarrow> (thread \<Rightarrow> int) \<Rightarrow> config \<Rightarrow> threads_st \<Rightarrow> threads_st" where
  "threads_stop cancel join CONFIG th =
     (let ended = (\<lambda>t. cancel t = 0 \<and> join t = 0);
          th = (if cfg_server CONFIG \<noteq> 0 then th\<lparr>th_server := th_server th \<and> \<not> ended Server_thread\<rparr> else th);
          th = th\<lparr>th_maintenance := th_maintenance th \<and> \<not> ended Maintenance_thread\<rparr>
      in th\<lparr>th_action := th_action th \<and> \<not> ended Action_thread\<rparr>)"

text \<open>\<^verbatim>\<open>server_thread\<close>: an error of \<^verbatim>\<open>network_start_server\<close> is reported, and the thread ends.\<close>

definition server_thread :: "server_env \<Rightarrow> config \<Rightarrow> server_st \<Rightarrow> server_st outcome" where
  "server_thread e CONFIG st = obind (network_start_server e CONFIG st) (\<lambda>(retval, st'). Ret st')"

subsection \<open>The way up\<close>

record main_env =
  me_ndebug :: bool
  me_fork :: int
  me_strdup_default :: bool
  me_DEFAULT_CONFIGFILE :: string
  me_DEFAULT_PIDFILE :: string
  me_file :: "string \<Rightarrow> string option"
  me_cfg :: cfg_env
  me_fopen_pid :: "string \<Rightarrow> bool"
  me_pcre :: pcre_info
  me_sys_records :: sysenv
  me_sys_exclude :: sysenv
  me_sys_readfile :: sysenv
  me_ssl :: ssl_lib
  me_signals :: sig_env
  me_create :: "thread \<Rightarrow> int"
  me_sys_client :: "nat \<Rightarrow> sysenv"
  me_cond_client :: "nat \<Rightarrow> int"
  me_banner :: string

definition main_daemonize :: "main_env \<Rightarrow> options \<Rightarrow> output_st \<Rightarrow> output_st outcome" where
  "main_daemonize e o' out =
     (if opt_daemonmode o'
      then (if me_fork e < 0 then Exit (-1) else if me_fork e \<noteq> 0 then Exit 0 else Ret (out_settype SYSLOG out))
      else Ret (out_settype CONSOLE out))"

text \<open>The name of the file, the file, and a pid file from the command line, which takes precedence.\<close>

definition main_configure :: "main_env \<Rightarrow> options \<Rightarrow> config outcome" where
  "main_configure e o' =
     (let cfgfile = (case opt_cfgfile o' of
          None \<Rightarrow> if me_strdup_default e then Some (me_DEFAULT_CONFIGFILE e) else None | Some f \<Rightarrow> Some f)
      in c_assert (me_ndebug e) (cfgfile \<noteq> None) (case cfgfile of
           None \<Rightarrow> Undef
         | Some f \<Rightarrow>
             obind (config_read (me_cfg e) (me_DEFAULT_PIDFILE e) (me_file e f) zero_config) (\<lambda>c.
               if opt_pidfile_from_cmdline o'
               then c_assert (me_ndebug e) (opt_pidfile o' \<noteq> None) (case opt_pidfile o' of
                      None \<Rightarrow> Undef | Some p \<Rightarrow> Ret (c\<lparr>cfg_pidfile := strncpy p MAX_PATH\<rparr>))
               else Ret c)))"

text \<open>The pid file of a daemon: its name once it has been written.\<close>

definition main_pidfile :: "main_env \<Rightarrow> options \<Rightarrow> config \<Rightarrow> string option outcome" where
  "main_pidfile e o' CONFIG =
     (if opt_daemonmode o'
      then obind (c_string (cfg_pidfile CONFIG)) (\<lambda>f. if \<not> me_fopen_pid e f then Exit 1 else Ret (Some f))
      else Ret None)"

definition main_regex :: "main_env \<Rightarrow> options \<Rightarrow> bool outcome" where
  "main_regex e o' =
     (if opt_testonly o' then obind (regex_prepare (me_pcre e)) (\<lambda>_. Exit 0) else regex_prepare (me_pcre e))"

record program =
  pr_config :: config
  pr_out :: output_st
  pr_pidfile :: "string option"
  pr_tls :: tls_st
  pr_signals :: "int \<Rightarrow> sigaction option"
  pr_threads :: threads_st
  pr_reread :: bool
  pr_daemon :: daemon

text \<open>What \<^verbatim>\<open>netssl_initialize\<close> returns is not looked at.\<close>

definition main_tls_start :: "main_env \<Rightarrow> config \<Rightarrow> tls_st outcome" where
  "main_tls_start e CONFIG =
     (if cfg_inform CONFIG = 1 \<or> cfg_server CONFIG = 1
      then obind (netssl_initialize (me_ndebug e) (me_ssl e) CONFIG tls_start) (\<lambda>(rv, t). Ret t) else Ret tls_start)"

text \<open>From the options to \<^verbatim>\<open>threads_start\<close>.\<close>

definition main_start :: "main_env \<Rightarrow> options \<Rightarrow> program outcome" where
  "main_start e o' =
     obind (main_daemonize e o' output_start) (\<lambda>out.
     obind (main_configure e o') (\<lambda>CONFIG.
     obind (main_pidfile e o' CONFIG) (\<lambda>pf.
     obind (main_regex e o') (\<lambda>compiled.
     obind (records_init (me_sys_records e) records_start) (\<lambda>rs.
     obind (main_tls_start e CONFIG) (\<lambda>tls.
     obind (exclude_init (me_sys_exclude e) exclude_start) (\<lambda>ex.
     obind (signalhandler_setup (me_signals e) (\<lambda>_. None)) (\<lambda>tab.
     obind (threads_start (me_create e) CONFIG) (\<lambda>th.
       Ret \<lparr>pr_config = CONFIG, pr_out = out, pr_pidfile = pf, pr_tls = tls, pr_signals = tab, pr_threads = th,
            pr_reread = snd (exclude_readfile (me_sys_readfile e)),
            pr_daemon = \<lparr>d_records = rs, d_exclude = ex, d_action = \<lparr>as_client = client_init_st, as_log = []\<rparr>\<rparr>\<rparr>)))))))))"

text \<open>The client, which is started while the threads already run, and the message that all is well.\<close>

definition main_client_start :: "main_env \<Rightarrow> config \<Rightarrow> daemon \<Rightarrow> daemon outcome" where
  "main_client_start e CONFIG d =
     (if cfg_inform CONFIG = 1 \<and> cfg_inform_agents CONFIG \<noteq> []
      then obind (client_start (me_ndebug e) (me_sys_client e) (me_cond_client e) (cfg_inform_agents CONFIG) (as_client (d_action d)))
             (\<lambda>(retval, cl). if retval \<noteq> RETVAL_OK then Exit 1 else Ret (d\<lparr>d_action := (d_action d)\<lparr>as_client := cl\<rparr>\<rparr>))
      else Ret d)"

definition main_started :: "main_env \<Rightarrow> program \<Rightarrow> program" where
  "main_started e p = p\<lparr>pr_out := out_msg (me_banner e) (pr_out p)\<rparr>"

subsection \<open>The way down\<close>

definition main_client_stop :: "config \<Rightarrow> daemon \<Rightarrow> daemon outcome" where
  "main_client_stop CONFIG d =
     (if cfg_inform CONFIG = 1 \<and> cfg_inform_agents CONFIG \<noteq> []
      then obind (client_stop (as_client (d_action d))) (\<lambda>(retval, cl). Ret (d\<lparr>d_action := (d_action d)\<lparr>as_client := cl\<rparr>\<rparr>))
      else Ret d)"

definition main_tls_stop :: "main_env \<Rightarrow> config \<Rightarrow> tls_st \<Rightarrow> tls_st outcome" where
  "main_tls_stop e CONFIG t =
     (if cfg_inform CONFIG = 1 \<or> cfg_server CONFIG = 1 then netssl_disintegrate (me_ndebug e) (me_ssl e) CONFIG t else Ret t)"

record program_end =
  pe_status :: int
  pe_action :: action_st
  pe_records :: records_st
  pe_exclude :: exclude_st
  pe_tls :: tls_st
  pe_threads :: threads_st
  pe_pidfile :: "string option"
  pe_out :: output_st
  pe_config_initialized :: bool
  pe_freed :: addrinfo_list

record end_env =
  ee_action :: action_env
  ee_cancel :: "thread \<Rightarrow> int"
  ee_join :: "thread \<Rightarrow> int"
  ee_unlink :: int

text \<open>From \<^verbatim>\<open>threads_stop\<close> to \<^verbatim>\<open>exit(0)\<close>; \<open>pe_status\<close> is the argument of \<^verbatim>\<open>exit\<close>.\<close>

definition main_end :: "main_env \<Rightarrow> end_env \<Rightarrow> options \<Rightarrow> program \<Rightarrow> daemon \<Rightarrow> program_end outcome" where
  "main_end e ee o' p d =
     (let CONFIG = pr_config p; th = threads_stop (ee_cancel ee) (ee_join ee) CONFIG (pr_threads p) in
      obind (records_destroy (act_sys (ee_action ee)) (Some (threads_records_callback_action_removal (ee_action ee) CONFIG))
               (d_records d, d_action d)) (\<lambda>(rs, s).
      obind (exclude_destroy (d_exclude d)) (\<lambda>ex.
      obind (main_tls_stop e CONFIG (pr_tls p)) (\<lambda>tls.
      obind (if opt_daemonmode o'
             then obind (c_string (cfg_pidfile CONFIG)) (\<lambda>f. Ret (if ee_unlink ee \<noteq> 0 then pr_pidfile p else None))
             else Ret (pr_pidfile p)) (\<lambda>pf.
        Ret \<lparr>pe_status = 0, pe_action = s, pe_records = rs, pe_exclude = ex, pe_tls = tls, pe_threads = th, pe_pidfile = pf,
             pe_out = out_done (out_msg ''Exiting now.'' (pr_out p)),
             pe_config_initialized = fst (snd (config_free True CONFIG)),
             pe_freed = snd (snd (config_free True CONFIG))\<rparr>)))))"

subsection \<open>What the way up establishes\<close>

lemma main_start_parts:
  assumes "main_start e o' = Ret p"
  shows "main_configure e o' = Ret (pr_config p)" and "main_pidfile e o' (pr_config p) = Ret (pr_pidfile p)"
    and "records_init (me_sys_records e) records_start = Ret (d_records (pr_daemon p))"
    and "exclude_init (me_sys_exclude e) exclude_start = Ret (d_exclude (pr_daemon p))"
    and "d_action (pr_daemon p) = \<lparr>as_client = client_init_st, as_log = []\<rparr>"
    and "main_tls_start e (pr_config p) = Ret (pr_tls p)"
    and "signalhandler_setup (me_signals e) (\<lambda>_. None) = Ret (pr_signals p)"
    and "threads_start (me_create e) (pr_config p) = Ret (pr_threads p)"
  using assms unfolding main_start_def obind_eq_Ret by auto

lemma main_tls_start_stop:
  assumes "main_tls_start e CONFIG = Ret t"
  obtains t' where "main_tls_stop e CONFIG t = Ret t'" "ssl_ctx_client t' = None" "ssl_ctx_server t' = None"
proof (cases "cfg_inform CONFIG = 1 \<or> cfg_server CONFIG = 1")
  case True
  with assms obtain rv where "netssl_initialize (me_ndebug e) (me_ssl e) CONFIG tls_start = Ret (rv, t)"
    by (auto simp: main_tls_start_def obind_eq_Ret)
  from netssl_disintegrate_ok [OF this, of "me_ndebug e"] True that show thesis by (auto simp: main_tls_stop_def)
next
  case False
  with assms that show thesis by (auto simp: main_tls_start_def main_tls_stop_def tls_start_def)
qed

lemma main_start_daemon:
  assumes "main_start e o' = Ret p" and "sys_ok (me_sys_records e)" and "sys_ok (me_sys_exclude e)"
  shows "daemon_start x (pr_daemon p)"
  unfolding daemon_start_def using main_start_parts(3-5) [OF assms(1)] assms(2,3) by blast

lemma main_configure_typed:
  assumes "main_configure e o' = Ret c" and "length (me_DEFAULT_PIDFILE e) < MAX_PATH"
  shows "terminated (cfg_action c)"
proof -
  obtain f c0 where "config_read (me_cfg e) (me_DEFAULT_PIDFILE e) f zero_config = Ret c0" "cfg_action c = cfg_action c0"
    using assms(1) by (auto simp: main_configure_def Let_def c_assert_def obind_eq_Ret split: if_splits option.splits)
  with config_read_arrays [OF _ assms(2)] show ?thesis by (auto simp: config_typed_def char_array_def)
qed

subsection \<open>The command line\<close>

definition final_option :: "char \<times> string \<Rightarrow> bool" where
  "final_option x \<longleftrightarrow> fst x \<in> {CHR ''h'', CHR ''L'', CHR ''V'', CHR ''?''}"

text \<open>The argument of the last option of a kind, if there is one.\<close>

definition last_arg :: "char \<Rightarrow> (char \<times> string) list \<Rightarrow> string option \<Rightarrow> string option" where
  "last_arg c os dflt = (case filter (\<lambda>x. fst x = c) (rev os) of [] \<Rightarrow> dflt | x # _ \<Rightarrow> Some (snd x))"

lemma last_arg_Cons: "last_arg c (x # os) dflt = last_arg c os (if fst x = c then Some (snd x) else dflt)"
  by (auto simp: last_arg_def split: list.splits)

lemma last_arg_Nil [simp]: "last_arg c [] dflt = dflt"
  by (simp add: last_arg_def)

lemma main_options_spec:
  "\<forall>x \<in> set os. \<not> final_option x \<Longrightarrow> main_options (\<lambda>_. True) k os o' = Ret (o'
    \<lparr>opt_cfgfile := last_arg (CHR ''c'') os (opt_cfgfile o'),
     opt_pidfile := last_arg (CHR ''p'') os (opt_pidfile o'),
     opt_pidfile_from_cmdline := (opt_pidfile_from_cmdline o' \<or> CHR ''p'' \<in> fst ` set os),
     opt_testonly := (opt_testonly o' \<or> CHR ''t'' \<in> fst ` set os),
     opt_daemonmode := (opt_daemonmode o' \<and> CHR ''d'' \<notin> fst ` set os \<and> CHR ''t'' \<notin> fst ` set os)\<rparr>)"
proof (induction os arbitrary: k o')
  case (Cons x os)
  obtain c a where x: "x = (c, a)" by (cases x)
  have "c \<notin> {CHR ''h'', CHR ''L'', CHR ''V'', CHR ''?''}" using Cons.prems x by (simp add: final_option_def)
  with Cons.IH Cons.prems x show ?case by (auto simp: Let_def last_arg_Cons)
qed simp

lemma main_options_final:
  assumes "\<forall>x \<in> set os. \<not> final_option x" and "final_option (c, a)"
  shows "main_options dup k (os @ (c, a) # rest) o' = Exit (if c = CHR ''?'' then 1 else 0)"
  using assms(1)
proof (induction os arbitrary: k o')
  case Nil
  with assms(2) show ?case by (auto simp: final_option_def Let_def)
next
  case (Cons x os)
  obtain c' a' where x: "x = (c', a')" by (cases x)
  have "\<not> final_option (c', a')" using Cons.prems x by simp
  with Cons x show ?case by (simp add: Let_def final_option_def)
qed

subsection \<open>Properties\<close>

text \<open>
  A start in the foreground with a configuration file of one line.
\<close>

definition prog_file :: string where
  "prog_file = ''action_threshold=1'' @ [CHR 0x0A]"

definition demo_main :: main_env where
  "demo_main = \<lparr>me_ndebug = False, me_fork = 0, me_strdup_default = True, me_DEFAULT_CONFIGFILE = ''/etc/agentsmith.conf'',
     me_DEFAULT_PIDFILE = ''/run/agentsmith.pid'', me_file = (\<lambda>_. Some prog_file), me_cfg = demo_cfg, me_fopen_pid = (\<lambda>_. True),
     me_pcre = demo_pcre_info, me_sys_records = calm_env, me_sys_exclude = calm_env, me_sys_readfile = calm_env, me_ssl = demo_ssl,
     me_signals = linux_env, me_create = (\<lambda>_. 0), me_sys_client = (\<lambda>_. calm_env), me_cond_client = (\<lambda>_. 0),
     me_banner = ''agentsmith Version 0.3 successfully started''\<rparr>"

lemma demo_cfg_simps: "ce_gai demo_cfg h p = Some [\<lparr>ai_family = 2, ai_socktype = 1, ai_addr = h\<rparr>]" "ce_dup demo_cfg" "ce_malloc demo_cfg"
  by (simp_all add: demo_cfg_def)

lemma prog_file_read: "\<exists>c. config_read demo_cfg ''/run/agentsmith.pid'' (Some prog_file) zero_config = Ret c
    \<and> cfg_action_threshold c = 1 \<and> cfg_inform c = 0 \<and> cfg_server c = 0 \<and> cfg_inform_agents c = []"
proof -
  let ?i = "init_config ''/run/agentsmith.pid'' zero_config"
  let ?c = "config_sanitize (?i\<lparr>cfg_action_threshold := 1\<rparr>)"
  have m: "(''action_threshold'', CFG_VAL_INT32 (\<lambda>v. cfg_action_threshold_update (\<lambda>_. v))) \<in> set cfgcfg"
    by (simp add: cfgcfg_def)
  have d: "decimal 1 = ''1''" by code_simp
  have "prog_file = ''action_threshold'' @ ''='' @ decimal 1 @ [CHR 0x0A]" by (simp add: prog_file_def d del: One_nat_def)
  then have line: "config_line demo_cfg prog_file ?i = Ret ?c"
    using config_line_option [OF m decimal_value, of demo_cfg 1 ?i] set_config_option_int32 [OF m, of 1 demo_cfg ?i]
    by (simp del: One_nat_def)
  have "text_line prog_file"
    unfolding text_line_def prog_file_def by (auto simp: BUFFSIZE_def intro!: exI [of _ "''action_threshold=1''"])
  then have lines: "config_file_lines None prog_file = [Some prog_file, Some (config_cut prog_file)]"
    using config_file_lines_text [of "[prog_file]" None] by simp
  have "config_typed ?i" by (rule init_config_typed) (simp add: MAX_PATH_def)
  then have "config_typed ?c" unfolding sanitize_typed by (simp add: config_typed_def)
  then have "check_paths demo_cfg cfgcfg ?c = Ret ()"
    by (intro check_paths_ok) (simp_all add: cfgcfg_def config_typed_def char_array_def demo_cfg_def)
  moreover have "cfg_listen ?c = []" by (simp add: config_sanitize_def init_config_def)
  moreover have "split_hostport DEFAULT_LISTEN = Ret (Some (''0.0.0.0'', ''48621''))"
    using split_hostport_host [of "''0.0.0.0''" "''48621''"] by (simp add: DEFAULT_LISTEN_def BUFFSIZE_def)
  ultimately have "config_read demo_cfg ''/run/agentsmith.pid'' (Some prog_file) zero_config =
      Ret (?c\<lparr>cfg_listen := [[\<lparr>ai_family = 2, ai_socktype = 1, ai_addr = ''0.0.0.0''\<rparr>]]\<rparr>)"
    using listen_twice(1) [of DEFAULT_LISTEN "''0.0.0.0''" "''48621''" demo_cfg "[\<lparr>ai_family = 2, ai_socktype = 1, ai_addr = ''0.0.0.0''\<rparr>]" ?c]
    by (simp add: config_read_def lines line config_line_cut DEFAULT_LISTEN_def demo_cfg_simps)
  moreover have "cfg_action_threshold ?c = 1" "cfg_inform ?c = 0" "cfg_server ?c = 0" "cfg_inform_agents ?c = []"
    by (simp_all add: config_sanitize_def init_config_def word_sless_alt)
  ultimately show ?thesis by simp
qed

text \<open>The program comes up, with the daemon in its first state.\<close>

lemma demo_main_start: "\<exists>p. main_start demo_main (options_start\<lparr>opt_daemonmode := False\<rparr>) = Ret p \<and> pr_daemon p = demo_daemon
    \<and> cfg_action_threshold (pr_config p) = 1 \<and> cfg_inform (pr_config p) = 0 \<and> cfg_inform_agents (pr_config p) = []"
proof -
  let ?o = "options_start\<lparr>opt_daemonmode := False\<rparr>"
  obtain c where c: "config_read demo_cfg ''/run/agentsmith.pid'' (Some prog_file) zero_config = Ret c"
      "cfg_action_threshold c = 1" "cfg_inform c = 0" "cfg_server c = 0" "cfg_inform_agents c = []"
    using prog_file_read by blast
  have conf: "main_configure demo_main ?o = Ret c"
    using c(1) by (simp add: main_configure_def options_start_def demo_main_def Let_def)
  obtain t where "signalhandler_setup linux_env (\<lambda>_. None) = Ret t"
    by (rule setup_table [OF linux_env_ok, where t = "\<lambda>_. None"]) (simp_all add: linux_env_def)
  moreover have "records_init calm_env records_start = Ret empty_records" "exclude_init calm_env exclude_start = Ret empty_excludes"
    by (simp_all add: records_init_def exclude_init_def empty_records_def empty_excludes_def records_start_def exclude_start_def
        c_assert_def calm_env_def)
  moreover have "regex_prepare demo_pcre_info = Ret True" by (simp add: regex_prepare_def demo_pcre_info_def)
  moreover have "main_tls_start demo_main c = Ret tls_start" "main_pidfile demo_main ?o c = Ret None"
      "threads_start (\<lambda>_. 0) c = Ret \<lparr>th_action = True, th_maintenance = True, th_server = False\<rparr>"
    using c by (simp_all add: main_tls_start_def main_pidfile_def threads_start_def)
  ultimately show ?thesis
    using c(2-5) conf
    by (simp add: main_start_def main_daemonize_def main_regex_def demo_main_def options_start_def demo_daemon_def idle_action_def)
qed

text \<open>
  The command line: options that do not end the program are combined whatever their order, the last \<^verbatim>\<open>-c\<close>
  and the last \<^verbatim>\<open>-p\<close> count, \<^verbatim>\<open>-t\<close> implies the foreground, and without \<^verbatim>\<open>-d\<close> and \<^verbatim>\<open>-t\<close> the program becomes a daemon;
  the first of \<^verbatim>\<open>-h\<close>, \<^verbatim>\<open>-L\<close>, \<^verbatim>\<open>-V\<close> ends it with status 0, an unknown option with status 1.
\<close>

theorem options_combine:
  assumes "\<forall>x \<in> set os. \<not> final_option x"
  shows "(\<exists>opts. main_options (\<lambda>_. True) 0 os options_start = Ret opts
      \<and> opt_cfgfile opts = last_arg (CHR ''c'') os None \<and> opt_pidfile opts = last_arg (CHR ''p'') os None
      \<and> opt_pidfile_from_cmdline opts = (CHR ''p'' \<in> fst ` set os) \<and> opt_testonly opts = (CHR ''t'' \<in> fst ` set os)
      \<and> opt_daemonmode opts = (CHR ''d'' \<notin> fst ` set os \<and> CHR ''t'' \<notin> fst ` set os))
    \<and> main_options dup k (os @ (CHR ''?'', a) # rest) o' = Exit 1
    \<and> (c \<in> {CHR ''h'', CHR ''L'', CHR ''V''} \<longrightarrow> main_options dup k (os @ (c, a) # rest) o' = Exit 0)"
  using main_options_spec [OF assms, of 0 options_start] main_options_final [OF assms, of "CHR ''?''" a dup k rest o']
    main_options_final [OF assms, of c a dup k rest o']
  by (auto simp: options_start_def final_option_def)

theorem options_combine_witness:
  "\<exists>opts. main_options (\<lambda>_. True) 0 [(CHR ''c'', ''/a''), (CHR ''t'', []), (CHR ''c'', ''/b'')] options_start = Ret opts
     \<and> opt_cfgfile opts = Some ''/b'' \<and> opt_testonly opts \<and> \<not> opt_daemonmode opts"
proof -
  have "\<forall>x \<in> set [(CHR ''c'', ''/a''), (CHR ''t'', []), (CHR ''c'', ''/b'')]. \<not> final_option x"
    by (simp add: final_option_def)
  from options_combine [OF this] show ?thesis by (auto simp: last_arg_Cons)
qed

text \<open>
  The test mode starts nothing: with \<^verbatim>\<open>-t\<close> the program ends before any component is initialized, with status 0
  exactly if the configuration could be read and the expression is one the program accepts.
\<close>

theorem test_mode_ends:
  assumes "opt_testonly o'" and "\<not> opt_daemonmode o'" and "main_configure e o' = Ret c"
  shows "main_start e o' = (if regex_prepare (me_pcre e) = Ret True then Exit 0 else Exit 2)"
  using assms by (auto simp: main_start_def main_daemonize_def main_pidfile_def main_regex_def regex_prepare_def)

text \<open>
  A pid file given on the command line is copied without room for its null byte: with a name of \<^verbatim>\<open>_MAX_PATH\<close>
  or more characters, opening the file reads past the end of the array.
\<close>

theorem long_pidfile_unterminated:
  assumes "main_configure e (o'\<lparr>opt_pidfile_from_cmdline := False\<rparr>) = Ret c" and "opt_daemonmode o'"
    and "opt_pidfile_from_cmdline o'" and "opt_pidfile o' = Some f" and "is_cstring f" and "length f \<ge> MAX_PATH"
  shows "obind (main_configure e o') (main_pidfile e o') = Undef"
proof -
  have "main_configure e o' = Ret (c\<lparr>cfg_pidfile := strncpy f MAX_PATH\<rparr>)"
    using assms(1,3,4)
    by (auto simp: main_configure_def Let_def c_assert_def obind_eq_Ret split: if_splits option.splits)
  moreover have "\<not> terminated (strncpy f MAX_PATH)"
    using assms(5,6) by (auto simp: terminated_def strncpy_def is_cstring_def dest: in_set_takeD)
  ultimately show ?thesis using assms(2) by (simp add: main_pidfile_def c_string_def)
qed

end
