(* ===== verification/Progress.thy ===== *)
theory Progress
  imports Daemon
begin

section \<open>What the threads achieve together\<close>

text \<open>
  Properties of several passes or of two instances of the program: a host that is seen often enough is acted
  upon by the next pass of the action thread; a host that has been quiet is released by the next pass of the
  action thread and the next of the maintenance thread; what one agent has queued ends up in the table of
  the other; and what happens to the books when the action thread is cancelled inside its work.
\<close>

subsection \<open>Passes in a state of the invariant\<close>

lemma of_nat_sle: "sint w \<le> int n \<Longrightarrow> n < 2 ^ 31 \<Longrightarrow> w <=s of_nat n" for w :: i32
  by (simp add: word_sle_eq signed_of_nat signed_take_bit_int_eq_self)

lemma action_pass_counts:
  assumes d: "daemon_inv d" and e: "action_ok e (dx_config x)"
  shows "returns (action_thread_pass e (dx_config x) (d_records d, d_action d)) (\<lambda>(st, s).
    daemon_inv (d\<lparr>d_records := st, d_action := s\<rparr>)
    \<and> records_map st = (\<lambda>ip. map_option (acted (now (act_sys e))) (records_map (d_records d) ip))
    \<and> (\<forall>ip. runs AC_NEW ip (as_log s) = runs AC_NEW ip (as_log (d_action d))
         + (case records_map (d_records d) ip of None \<Rightarrow> 0 | Some r \<Rightarrow> if due r then 1 else 0))
    \<and> (\<forall>ip. runs AC_REMOVE ip (as_log s) = runs AC_REMOVE ip (as_log (d_action d))))"
proof -
  have inv: "records_inv (d_records d)" and ai: "action_inv (d_action d)" using d by (auto simp: daemon_inv_iff)
  show ?thesis
    by (rule ospec_mono [OF action_thread_pass_spec [OF inv e ai daemon_actionable [OF d]]])
      (auto simp: runs_pass [OF inv] runs_other intro: action_pass_inv [OF d e])
qed

lemma maintenance_pass_counts:
  assumes d: "daemon_inv d" and e: "action_ok e (dx_config x)"
  shows "returns (maintenance_thread_pass e (dx_config x) (d_records d, d_action d)) (\<lambda>(st, s).
    records_map st = (\<lambda>ip. keep_record (records_map (d_records d) ip))
    \<and> (\<forall>ip. runs AC_NEW ip (as_log s) = runs AC_NEW ip (as_log (d_action d)))
    \<and> (\<forall>ip. runs AC_REMOVE ip (as_log s) = runs AC_REMOVE ip (as_log (d_action d))
         + (case records_map (d_records d) ip of None \<Rightarrow> 0 | Some r \<Rightarrow> if hr_remove r \<noteq> 0 \<and> hr_processed r \<noteq> 0 then 1 else 0)))"
proof -
  have inv: "records_inv (d_records d)" using d by (auto simp: daemon_inv_iff)
  show ?thesis
    by (rule ospec_mono [OF maintenance_thread_pass_spec [OF inv e]])
      (auto simp: maintained_def runs_pass [OF inv] runs_other)
qed

lemma reach_inv: "daemon_start x d0 \<Longrightarrow> ext_ok x \<Longrightarrow> daemon_reach x d0 d \<Longrightarrow> daemon_inv d"
  by (blast intro: daemon_reach_inv daemon_start_inv)

subsection \<open>Two agents\<close>

text \<open>A session of the receiving agent in which nothing goes wrong below the commands.\<close>

definition session_ok :: "worker_env \<Rightarrow> bool" where
  "session_ok e \<longleftrightarrow> pton_ok (we_pton e) \<and> (\<forall>i. sys_ok (we_sys e i)) \<and> we_sem_rv e = 0 \<and> we_fd e < int FD_SETSIZE
     \<and> worker_select (we_select e) = Some (SelReady True) \<and> tls_ready (we_tls e) (we_fd e) \<and> tls_ok (we_tls e)"

lemma session_merges:
  assumes "session_ok e" and "records_inv st" and "exclude_nets N ex" and "\<forall>hr \<in> set hrs. good_remote hr"
    and "we_recv e = map (\<lambda>hr. RecvBytes (wire ADD hr)) hrs"
  shows "returns (network_server_worker nd e CONFIG (Some host) ex st) (\<lambda>r. case r of None \<Rightarrow> False | Some wr \<Rightarrow>
    wr_handled wr = length hrs \<and> records_inv (wr_records wr)
    \<and> records_map (wr_records wr) = remote_effects CONFIG (we_pton e) N host (we_sys e) 0 hrs (records_map st))"
proof -
  have e: "pton_ok (we_pton e)" "\<And>i. sys_ok (we_sys e i)" "tls_ready (we_tls e) (we_fd e)" "tls_ok (we_tls e)"
      "we_sem_rv e = 0" "we_fd e < int FD_SETSIZE" "worker_select (we_select e) = Some (SelReady True)" using assms(1) by (auto simp: session_ok_def)
  have "returns (worker_loop nd (we_sys e) CONFIG (we_pton e) (Some host) ex 0 (we_recv e) st)
    (\<lambda>(st', k'). records_inv st' \<and> k' = 0 + length hrs
      \<and> records_map st' = remote_effects CONFIG (we_pton e) N host (we_sys e) 0 hrs (records_map st))"
    unfolding assms(5) by (rule worker_loop_good [OF assms(2,3) e(1,2) assms(4)])
  moreover obtain c where "(case we_tls e of None \<Rightarrow> Ret (RETVAL_OK, tls_null) | Some ta \<Rightarrow> netssl_server nd ta (we_fd e) tls_null)
      = Ret (if tls_ok (we_tls e) then (RETVAL_OK, tls_open (we_tls e)) else (RETVAL_ERR, c))"
    by (rule netssl_server_null [OF e(3)])
  ultimately show ?thesis
    unfolding network_server_worker_def using e(3-7) by (auto simp: ospec_obind worker_end_def tls_ready_def tls_ok_def tls_open_def elim!: ospec_mono)
qed

lemma good_remote_sendable: "good_remote r \<Longrightarrow> sendable r"
  by (simp add: good_remote_def sendable_def)

subsection \<open>Properties\<close>

text \<open>
  C6. A host that is seen often enough is acted upon: in every state the daemon can reach, if a host that is not
  in the table is seen as often as the threshold demands, within the configured interval, then the next pass
  of the action thread runs the script with \<^verbatim>\<open>new\<close> for it, once, and the record is processed.
\<close>

theorem frequent_host_acted_upon:
  assumes "daemon_start x d0" and "ext_ok x" and "daemon_reach x d0 d" and "valid_ip ip" and "length ip > 2"
    and "records_map (d_records d) ip = None" and "\<forall>e' \<in> set (e # es). sys_ok e'"
    and "\<forall>e' \<in> set es. now e' - now e <=s cfg_time_interval (dx_config x)"
    and "sint (cfg_action_threshold (dx_config x)) \<le> int (Suc (length es))" and "Suc (length es) < 2 ^ 31"
    and "action_ok ae (dx_config x)"
  shows "returns (obind (run_sightings records_add_ip (dx_config x) ip (e # es) (d_records d))
      (\<lambda>st. action_thread_pass ae (dx_config x) (st, d_action d)))
    (\<lambda>(st', s'). runs AC_NEW ip (as_log s') = runs AC_NEW ip (as_log (d_action d)) + 1
      \<and> (\<exists>r. records_map st' ip = Some r \<and> hr_processed r = 1))"
proof -
  let ?c = "dx_config x"
  have d: "daemon_inv d" using assms(1-3) by (rule reach_inv)
  then have inv: "records_inv (d_records d)" by (simp add: daemon_inv_iff)
  have all: "filter (\<lambda>e'. now e' - now e <=s cfg_time_interval ?c) es = es" using assms(8) by simp
  obtain st r where st: "run_sightings records_add_ip ?c ip (e # es) (d_records d) = Ret st" "records_inv st"
      "records_map st = (records_map (d_records d))(ip \<mapsto> r)" "hr_processed r = 0" "hr_action_threshold r = cfg_action_threshold ?c"
      "hr_occurrences r = of_nat (Suc (length es))"
    using ht.sightings_new [OF inv assms(4,7,6), where C = ?c, unfolded all] unfolding returns_iff by blast
  have due: "due r" using of_nat_sle [OF assms(9,10)] st(4-6) by (simp add: due_def del: of_nat_Suc)
  have "in_effect (Some r) = in_effect (records_map (d_records d) ip)" using st(4) assms(6) by (simp add: in_effect_def)
  then have d1: "daemon_inv (d\<lparr>d_records := st\<rparr>)" by (rule table_step [OF d st(2,3) assms(5)])
  have "returns (action_thread_pass ae ?c (st, d_action d)) (\<lambda>(st', s').
      runs AC_NEW ip (as_log s') = runs AC_NEW ip (as_log (d_action d)) + 1 \<and> (\<exists>r. records_map st' ip = Some r \<and> hr_processed r = 1))"
    by (rule ospec_mono [OF action_pass_counts [OF d1 assms(11), simplified]]) (auto simp: st(3) due acted_def)
  with st(1) show ?thesis by simp
qed

theorem frequent_host_acted_upon_witness:
  "returns (obind (run_sightings records_add_ip demo_config ''10.0.0.1''
        [calm_env, calm_env\<lparr>now := 1001\<rparr>, calm_env\<lparr>now := 1060\<rparr>] empty_records)
      (\<lambda>st. action_thread_pass calm_action demo_config (st, idle_action)))
    (\<lambda>(st', s'). runs AC_NEW ''10.0.0.1'' (as_log s') = 1)"
proof -
  let ?x = "demo_ext\<lparr>dx_config := demo_config\<rparr>"
  have x: "daemon_start ?x demo_daemon" "ext_ok ?x" "dx_config ?x = demo_config"
    using demo_daemon_start demo_ext_ok(1) by (auto simp: daemon_start_def ext_ok_def)
  have d: "d_records demo_daemon = empty_records" "d_action demo_daemon = idle_action" by (simp_all add: demo_daemon_def)
  have e: "\<forall>e' \<in> set [calm_env, calm_env\<lparr>now := 1001\<rparr>, calm_env\<lparr>now := 1060\<rparr>]. sys_ok e'"
    by (simp add: calm_env_def sys_ok_def)
  have i: "\<forall>e' \<in> set [calm_env\<lparr>now := 1001\<rparr>, calm_env\<lparr>now := 1060\<rparr>]. now e' - now calm_env <=s cfg_time_interval (dx_config ?x)"
    by (simp add: word_sle_eq)
  have "runs AC_NEW ip (as_log idle_action) = 0" for ip by (simp add: runs_def)
  with frequent_host_acted_upon [OF x(1,2) daemon_reach.start demo_ip(1) _ _ e i, of calm_action] x(3) d
  show ?thesis by (auto elim!: ospec_mono)
qed

text \<open>
  C7. A host that has been quiet is released: in every state the daemon can reach, if the last sighting of a
  processed host is longer ago than its purge time, then the next pass of the action thread followed by the
  next pass of the maintenance thread removes it from the table and runs the script with \<^verbatim>\<open>remove\<close> for it, once.
\<close>

theorem quiet_host_released:
  assumes "daemon_start x d0" and "ext_ok x" and "daemon_reach x d0 d"
    and "records_map (d_records d) ip = Some r" and "hr_processed r \<noteq> 0"
    and "hr_purge_after r <s now (act_sys ae) - (if hr_lastseen r = 0 then hr_firstseen r else hr_lastseen r)"
    and "action_ok ae (dx_config x)" and "action_ok me (dx_config x)"
  shows "returns (obind (action_thread_pass ae (dx_config x) (d_records d, d_action d)) (maintenance_thread_pass me (dx_config x)))
    (\<lambda>(st', s'). records_map st' ip = None \<and> runs AC_NEW ip (as_log s') = runs AC_NEW ip (as_log (d_action d))
      \<and> runs AC_REMOVE ip (as_log s') = runs AC_REMOVE ip (as_log (d_action d)) + 1)"
proof -
  have d: "daemon_inv d" using assms(1-3) by (rule reach_inv)
  have r: "\<not> due r" "acted (now (act_sys ae)) r = r\<lparr>hr_remove := 1\<rparr>"
    using assms(5,6) by (auto simp: due_def acted_def stale_def)
  obtain st s where s: "action_thread_pass ae (dx_config x) (d_records d, d_action d) = Ret (st, s)"
      "daemon_inv (d\<lparr>d_records := st, d_action := s\<rparr>)" "records_map st ip = Some (r\<lparr>hr_remove := 1\<rparr>)"
      "runs AC_NEW ip (as_log s) = runs AC_NEW ip (as_log (d_action d))"
      "runs AC_REMOVE ip (as_log s) = runs AC_REMOVE ip (as_log (d_action d))"
    using action_pass_counts [OF d assms(7)] assms(4) r unfolding returns_iff by auto
  have "returns (maintenance_thread_pass me (dx_config x) (st, s)) (\<lambda>(st', s'). records_map st' ip = None
      \<and> runs AC_NEW ip (as_log s') = runs AC_NEW ip (as_log (d_action d))
      \<and> runs AC_REMOVE ip (as_log s') = runs AC_REMOVE ip (as_log (d_action d)) + 1)"
    by (rule ospec_mono [OF maintenance_pass_counts [OF s(2) assms(8), simplified]])
      (auto simp: s(3-5) keep_record_def assms(5))
  with s(1) show ?thesis by simp
qed

theorem quiet_host_released_witness:
  "\<exists>d. daemon_reach demo_ext demo_daemon d \<and> runs AC_NEW ''10.1.2.3'' (as_log (d_action d)) = 1
     \<and> returns (obind (action_thread_pass (calm_action\<lparr>act_sys := calm_env\<lparr>now := 9000\<rparr>\<rparr>) (dx_config demo_ext) (d_records d, d_action d))
           (maintenance_thread_pass calm_action (dx_config demo_ext)))
         (\<lambda>(st', s'). records_map st' ''10.1.2.3'' = None)"
proof -
  let ?c = "demo_config\<lparr>cfg_action_threshold := 1\<rparr>" and ?ae = "calm_action\<lparr>act_sys := calm_env\<lparr>now := 9000\<rparr>\<rparr>"
  have x: "demo_ext\<lparr>dx_config := ?c\<rparr> = demo_ext" by (simp add: demo_ext_def)
  obtain d where d: "daemon_reach demo_ext demo_daemon d" "runs AC_NEW ''10.1.2.3'' (as_log (d_action d)) = 1"
      "records_map (d_records d) ''10.1.2.3'' = Some ((fresh_record ?c 1000 ''10.1.2.3'')\<lparr>hr_processed := 1\<rparr>)"
    using demo_run_record [of ?c] unfolding x by auto
  have ae: "action_ok ?ae (dx_config demo_ext)"
    using demo_ext_ok(2) by (simp add: action_ok_def calm_action_def sys_ok_def calm_env_def)
  have st: "hr_purge_after r <s now (act_sys ?ae) - (if hr_lastseen r = 0 then hr_firstseen r else hr_lastseen r)"
    if "r = (fresh_record ?c 1000 ''10.1.2.3'')\<lparr>hr_processed := 1\<rparr>" for r
    using that by (simp add: fresh_record_def word_sless_alt)
  from quiet_host_released [OF demo_daemon_start demo_ext_ok(1) d(1,3) _ st [OF refl] ae demo_ext_ok(2)] d
  show ?thesis by (intro exI [of _ d]) (auto elim!: ospec_mono)
qed

text \<open>
  C23. Two agents: when one agent's sending thread reaches the other and its writes succeed, then what the other's
  worker reads makes it merge exactly the records that were queued, in the order they were queued: each as a
  record of the sender, unless it is excluded there. Nothing is left in the queue or counted as unsent.
\<close>

theorem queued_records_arrive:
  assumes "cq_head q \<noteq> []" and "\<forall>r \<in> set (cq_head q). good_remote r" and "length buff = REMOTE_COMMAND_SIZE"
    and "tls_ready (tr_tls tr) (tr_fd tr)" and "reachable_server CONFIG tr" and "tr_write tr = (\<lambda>_. True)"
    and "records_inv st" and "exclude_nets N ex"
  shows "\<exists>l. client_queue_worker nd CONFIG tr buff tls_null q = Ret (Some l, q\<lparr>cq_head := []\<rparr>) \<and> pl_unsent l = []
    \<and> (\<forall>e. session_ok e \<and> we_recv e = map RecvBytes (pl_sent l) \<longrightarrow>
        returns (network_server_worker nd' e CONFIG' (Some host) ex st) (\<lambda>r. case r of None \<Rightarrow> False | Some wr \<Rightarrow>
          wr_handled wr = length (cq_head q) \<and> records_inv (wr_records wr)
          \<and> records_map (wr_records wr) = remote_effects CONFIG' (we_pton e) N host (we_sys e) 0 (cq_head q) (records_map st)))"
proof -
  have "\<forall>r \<in> set (cq_head q). sendable r" using assms(2) good_remote_sendable by blast
  then obtain l where l: "client_queue_worker nd CONFIG tr buff tls_null q = Ret (Some l, q\<lparr>cq_head := []\<rparr>)"
      "pl_sent l = map (\<lambda>i. wire ADD (cq_head q ! i)) [0..<length (cq_head q)]" "pl_unsent l = []"
    using client_queue_worker_spec [OF assms(1) _ assms(3,4), of nd CONFIG] assms(5,6) unfolding returns_iff by auto
  have "map RecvBytes (pl_sent l) = map (\<lambda>hr. RecvBytes (wire ADD hr)) (cq_head q)"
    unfolding l(2) by (rule nth_equalityI) simp_all
  with l session_merges [OF _ assms(7,8,2)] show ?thesis by auto
qed

theorem queued_records_arrive_witness:
  "\<exists>l. client_queue_worker False demo_config demo_transport (replicate 144 0) tls_null (demo_queue\<lparr>cq_head := [demo_remote]\<rparr>)
        = Ret (Some l, demo_queue\<lparr>cq_head := []\<rparr>) \<and> pl_unsent l = []
     \<and> returns (network_server_worker False (demo_session\<lparr>we_recv := map RecvBytes (pl_sent l)\<rparr>) demo_config (Some ''192.0.2.7'')
          empty_excludes empty_records)
         (\<lambda>r. case r of None \<Rightarrow> False | Some wr \<Rightarrow> wr_handled wr = 1)"
proof -
  let ?q = "demo_queue\<lparr>cq_head := [demo_remote]\<rparr>"
  have tr: "reachable_server demo_config demo_transport" "tls_ready (tr_tls demo_transport) (tr_fd demo_transport)"
      "tr_write demo_transport = (\<lambda>_. True)"
    by (auto simp: reachable_server_def demo_transport_def tls_ok_def tls_ready_def intro!: bexI [of _ 1])
  have s: "session_ok (demo_session\<lparr>we_recv := evs\<rparr>)" for evs
    by (simp add: session_ok_def demo_session_def FD_SETSIZE_def tls_ready_def tls_ok_def)
  have "length (replicate 144 (0 :: u8)) = REMOTE_COMMAND_SIZE" by (simp add: REMOTE_COMMAND_SIZE_def)
  moreover have "cq_head ?q \<noteq> []" "\<forall>r \<in> set (cq_head ?q). good_remote r" by simp_all
  ultimately have "\<exists>l. client_queue_worker False demo_config demo_transport (replicate 144 0) tls_null ?q = Ret (Some l, ?q\<lparr>cq_head := []\<rparr>)
      \<and> pl_unsent l = [] \<and> (\<forall>e. session_ok e \<and> we_recv e = map RecvBytes (pl_sent l) \<longrightarrow>
        returns (network_server_worker False e demo_config (Some ''192.0.2.7'') empty_excludes empty_records) (\<lambda>r. case r of None \<Rightarrow> False | Some wr \<Rightarrow>
          wr_handled wr = length (cq_head ?q) \<and> records_inv (wr_records wr)
          \<and> records_map (wr_records wr) = remote_effects demo_config (we_pton e) {#} ''192.0.2.7'' (we_sys e) 0 (cq_head ?q) (records_map empty_records)))"
    by (intro queued_records_arrive tr empty_records_inv(1) empty_excludes_nets)
  then obtain l where l: "client_queue_worker False demo_config demo_transport (replicate 144 0) tls_null ?q = Ret (Some l, ?q\<lparr>cq_head := []\<rparr>)
      \<and> pl_unsent l = [] \<and> (\<forall>e. session_ok e \<and> we_recv e = map RecvBytes (pl_sent l) \<longrightarrow>
        returns (network_server_worker False e demo_config (Some ''192.0.2.7'') empty_excludes empty_records) (\<lambda>r. case r of None \<Rightarrow> False | Some wr \<Rightarrow>
          wr_handled wr = length (cq_head ?q) \<and> records_inv (wr_records wr)
          \<and> records_map (wr_records wr) = remote_effects demo_config (we_pton e) {#} ''192.0.2.7'' (we_sys e) 0 (cq_head ?q) (records_map empty_records)))"
    by (rule exE)
  let ?e = "demo_session\<lparr>we_recv := map RecvBytes (pl_sent l)\<rparr>"
  have "returns (network_server_worker False ?e demo_config (Some ''192.0.2.7'') empty_excludes empty_records)
      (\<lambda>r. case r of None \<Rightarrow> False | Some wr \<Rightarrow> wr_handled wr = 1)"
    by (rule ospec_mono [OF l [THEN conjunct2, THEN conjunct2, rule_format, of ?e]]) (use s in \<open>auto split: option.splits\<close>)
  with l [THEN conjunct1] l [THEN conjunct2, THEN conjunct1] show ?thesis by (intro exI [of _ l]) simp
qed

text \<open>
  An action that is cancelled in the middle is not undone: \<^verbatim>\<open>system\<close> is a cancellation point, and \<^verbatim>\<open>threads_stop\<close>
  cancels the action thread wherever it is. If that is between the run of the script for a host and the
  marking of its record, the shutdown does not run the script with \<^verbatim>\<open>remove\<close> for that host.
\<close>

theorem cancelled_action_unmatched:
  assumes "daemon_start x d0" and "ext_ok x" and "daemon_reach x d0 d" and "action_ok e (dx_config x)"
    and "records_map (d_records d) ip = Some r" and "hr_action_threshold r <=s hr_occurrences r" and "hr_processed r = 0"
  shows "\<exists>s. do_action e (dx_config x) AC_NEW r (d_action d) = Ret s
    \<and> returns (records_destroy (act_sys e) (Some (threads_records_callback_action_removal e (dx_config x))) (d_records d, s))
        (\<lambda>(st, s'). runs AC_NEW ip (as_log s') = runs AC_REMOVE ip (as_log s') + 1)"
proof -
  let ?c = "dx_config x"
  have d: "daemon_inv d" using assms(1-3) by (rule reach_inv)
  then have inv: "records_inv (d_records d)" and ai: "action_inv (d_action d)" and b: "balanced (d_records d) (d_action d)"
    by (auto simp: daemon_inv_iff)
  have r: "Some r \<in> set (hr_vector (d_records d))" "ip_of r = ip" using assms(5) inv by (auto simp: records_map_Some)
  then have wf: "wf_hostrecord r" "relayed ?c r \<longrightarrow> sendable r"
    using records_invD(5) [OF inv] daemon_actionable [OF d r(1)] by (auto simp: actionable_def sendable_def)
  obtain s where s: "do_action e ?c AC_NEW r (d_action d) = Ret s" "as_log s = as_log (d_action d) @ [event_of ?c AC_NEW r]"
    using do_action_new [OF assms(4) wf ai] unfolding returns_iff by blast
  have ev: "runs AC_NEW ip [event_of ?c AC_NEW r] = 1" "runs AC_REMOVE ip [event_of ?c AC_NEW r] = 0"
    using r(2) by (simp_all add: runs_def event_of_def)
  have "runs AC_NEW ip (as_log (d_action d)) = runs AC_REMOVE ip (as_log (d_action d))"
    using b assms(5,7) by (simp add: balanced_def in_effect_def)
  then show ?thesis
    using s ev assms(5,7) unfolding records_destroy_spec [OF inv removal_rm_ok [OF assms(4)] TrueI]
    by (simp add: removal_fold runs_pass [OF inv] runs_other)
qed

theorem cancelled_action_unmatched_witness:
  "\<exists>d r s. daemon_reach demo_ext demo_daemon d \<and> records_map (d_records d) ''10.1.2.3'' = Some r
     \<and> do_action calm_action (dx_config demo_ext) AC_NEW r (d_action d) = Ret s
     \<and> returns (records_destroy calm_env (Some (threads_records_callback_action_removal calm_action (dx_config demo_ext))) (d_records d, s))
         (\<lambda>(st, s'). runs AC_NEW ''10.1.2.3'' (as_log s') = runs AC_REMOVE ''10.1.2.3'' (as_log s') + 1)"
proof -
  let ?c = "demo_config\<lparr>cfg_action_threshold := 1\<rparr>"
  let ?r = "fresh_record ?c 1000 ''10.1.2.3''"
  have x: "demo_ext\<lparr>dx_config := ?c\<rparr> = demo_ext" by (simp add: demo_ext_def)
  obtain st where st: "daemon_reach demo_ext demo_daemon (demo_daemon\<lparr>d_records := st\<rparr>)" "records_map st ''10.1.2.3'' = Some ?r"
    using demo_seen [of ?c] unfolding x by blast
  let ?d = "demo_daemon\<lparr>d_records := st\<rparr>"
  have r: "hr_action_threshold ?r <=s hr_occurrences ?r" "hr_processed ?r = 0" by (simp_all add: fresh_record_def word_sle_eq)
  have m: "records_map (d_records ?d) ''10.1.2.3'' = Some ?r" "act_sys calm_action = calm_env"
    using st(2) by (simp_all add: calm_action_def)
  obtain s where s: "do_action calm_action (dx_config demo_ext) AC_NEW ?r (d_action ?d) = Ret s"
      "returns (records_destroy (act_sys calm_action) (Some (threads_records_callback_action_removal calm_action (dx_config demo_ext))) (d_records ?d, s))
        (\<lambda>(st, s'). runs AC_NEW ''10.1.2.3'' (as_log s') = runs AC_REMOVE ''10.1.2.3'' (as_log s') + 1)"
    using cancelled_action_unmatched [OF demo_daemon_start demo_ext_ok(1) st(1) demo_ext_ok(2) m(1) r] by (elim exE conjE)
  show ?thesis by (intro exI conjI) (fact st(1), fact m(1), fact s(1), fact s(2) [unfolded m(2)])
qed

end
