(* ===== verification/Support.thy ===== *)
theory Support
  imports Signals
begin

section \<open>Debugging aids and allocation replacements (exclude.c, netshared.c, records.c, malloc.c)\<close>

text \<open>
  What a build with \<^verbatim>\<open>DEBUG\<close> prints: the list of exclusions (\<^verbatim>\<open>_exclude_show_list\<close>) and a host record
  (\<^verbatim>\<open>__dbg_dump_host_record\<close>), with the functions that let a test look at the vectors; and the replacements of
  \<^verbatim>\<open>malloc\<close> and \<^verbatim>\<open>realloc\<close>. \<^verbatim>\<open>inet_ntop\<close>, \<^verbatim>\<open>ctime_r\<close> and the allocation functions of the system are arguments. The
  lemmas show that the listing has one line for each network of the list, and that the dump of a record is the
  line \<^verbatim>\<open>SIGUSR1\<close> prints for it.
\<close>

subsection \<open>The vectors\<close>

definition exclude_dbg_get_vector_size :: "exclude_st \<Rightarrow> nat" where
  "exclude_dbg_get_vector_size st = er_vector_size st"

definition exclude_dbg_get_vector_chunksize :: "exclude_st \<Rightarrow> nat" where
  "exclude_dbg_get_vector_chunksize st = er_vector_chunksize"

definition exclude_dbg_get_vector_fill :: "exclude_st \<Rightarrow> nat" where
  "exclude_dbg_get_vector_fill st = er_vector_fill st"

definition records_dbg_get_vector_size :: "records_st \<Rightarrow> nat" where
  "records_dbg_get_vector_size st = hr_vector_size st"

definition records_dbg_get_vector_chunksize :: "records_st \<Rightarrow> nat" where
  "records_dbg_get_vector_chunksize st = hr_vector_chunksize"

definition records_dbg_get_vector_fill :: "records_st \<Rightarrow> nat" where
  "records_dbg_get_vector_fill st = hr_vector_fill st"

subsection \<open>The list of exclusions\<close>

type_synonym inet_ntop = "af \<Rightarrow> u8 list \<Rightarrow> string option"

text \<open>The family as the number that is printed, and the bytes of address and netmask as they lie in memory.\<close>

fun af_number :: "af \<Rightarrow> i32" where
  "af_number AF_INET = 2"
| "af_number AF_INET6 = 10"

fun er_bytes :: "excluderecord \<Rightarrow> u8 list \<times> u8 list" where
  "er_bytes (ER_INET net msk) = (bytes_le 4 net, bytes_le 4 msk)"
| "er_bytes (ER_INET6 net msk) = (net, msk)"

text \<open>
  The buffers \<^verbatim>\<open>ip\<close> and \<^verbatim>\<open>mask\<close>, \<open>None\<close> before they are first written. A conversion that fails is reported and
  leaves the buffer as it was, so that the line printed next has what an earlier entry left there.
\<close>

definition convert :: "inet_ntop \<Rightarrow> string \<Rightarrow> nat \<Rightarrow> af \<Rightarrow> u8 list \<Rightarrow> string option \<times> output_st \<Rightarrow> string option \<times> output_st" where
  "convert ntop what i f b s = (case ntop f b of
     Some t \<Rightarrow> (Some t, snd s)
   | None \<Rightarrow> (fst s, out_dbg (''Error converting '' @ what @ '' in record #'' @ decimal i) (snd s)))"

definition show_entry :: "inet_ntop \<Rightarrow> nat \<Rightarrow> excluderecord \<Rightarrow> string option \<times> string option \<times> output_st
    \<Rightarrow> (string option \<times> string option \<times> output_st) outcome" where
  "show_entry ntop i er s = (case s of (ip, msk, out) \<Rightarrow>
     (case convert ntop ''ip address'' i (er_af er) (fst (er_bytes er)) (ip, out) of (ip, out) \<Rightarrow>
     (case convert ntop '' netmask'' i (er_af er) (snd (er_bytes er)) (msk, out) of (msk, out) \<Rightarrow>
     (case (ip, msk) of
        (Some a, Some m) \<Rightarrow>
          Ret (ip, msk, out_dbg (''Exclude entry #'' @ decimal i @ '': af '' @ show_i32 (af_number (er_af er)) @ '', net '' @ a @
            '', mask '' @ m) out)
      | _ \<Rightarrow> Undef))))"

definition exclude_show_list ::
  "sysenv \<Rightarrow> inet_ntop \<Rightarrow> (i32 \<Rightarrow> string) \<Rightarrow> exclude_st \<Rightarrow> output_st \<Rightarrow> output_st outcome" where
  "exclude_show_list e ntop strerr st out =
     (if lock_rv e \<noteq> 0 then Ret (out_syserr strerr (word_of_int (lock_rv e)) ''Unable to lock exclude_mutex'' out)
      else obind (c_for 0 (er_vector_fill st) (\<lambda>i s.
             obind (read_at (exclude_vector st) i) (\<lambda>p. case p of
               None \<Rightarrow> Ret (Inr s)
             | Some er \<Rightarrow> obind (show_entry ntop i er s) (\<lambda>s'. Ret (Inr s')))) (None, None, out))
           (\<lambda>res :: (string option \<times> string option \<times> output_st) + (string option \<times> string option \<times> output_st).
              case (case res of Inl s \<Rightarrow> s | Inr s \<Rightarrow> s) of (ip, msk, out') \<Rightarrow>
                if unlock_rv e \<noteq> 0
                then Ret (out_syserr strerr (word_of_int (unlock_rv e)) ''Unable to unlock exclude_mutex'' out') else Ret out'))"

subsection \<open>A host record\<close>

text \<open>The null byte at the end of the buffer is written before the newline is cut off.\<close>

definition dbg_dump_host_record :: "bool \<Rightarrow> (i64 \<Rightarrow> string option) \<Rightarrow> hostrecord option \<Rightarrow> output_st \<Rightarrow> output_st outcome" where
  "dbg_dump_host_record have_ctime_r ctime_r p out = (case p of
     None \<Rightarrow> Ret (out_dbg ''__dbg_dump_host_record(): NULL pointer'' out)
   | Some ptr \<Rightarrow>
       if \<not> have_ctime_r then Undef
       else
         obind (time_string ctime_r (hr_firstseen ptr)) (\<lambda>timebuff1.
         obind (time_string ctime_r (hr_lastseen ptr)) (\<lambda>timebuff2.
         obind (c_string (hr_ipaddr ptr)) (\<lambda>ipaddr.
         obind (c_string (hr_origin ptr)) (\<lambda>origin.
           Ret (out_dbg (''IP Addr '' @ ipaddr @ '' origin '' @ origin @ '' first seen '' @ timebuff1 @
             '', last seen '' @ timebuff2 @ '', occurrences '' @ show_i32 (hr_occurrences ptr) @
             '', to be removed '' @ show_i32 (hr_remove ptr) @ '', processed '' @ show_i32 (hr_processed ptr)) out))))))"

subsection \<open>Allocation\<close>

definition rpl_malloc :: "(u64 \<Rightarrow> 'p) \<Rightarrow> u64 \<Rightarrow> 'p" where
  "rpl_malloc malloc n = malloc (if n = 0 then 1 else n)"

definition rpl_realloc :: "('p \<Rightarrow> u64 \<Rightarrow> 'p) \<Rightarrow> 'p \<Rightarrow> u64 \<Rightarrow> 'p" where
  "rpl_realloc realloc ptr n = realloc ptr (if n = 0 then 1 else n)"

subsection \<open>One line per network\<close>

definition entry_line :: "inet_ntop \<Rightarrow> nat \<Rightarrow> excluderecord \<Rightarrow> string" where
  "entry_line ntop i er = ''Exclude entry #'' @ decimal i @ '': af '' @ show_i32 (af_number (er_af er)) @
     '', net '' @ the (ntop (er_af er) (fst (er_bytes er))) @ '', mask '' @ the (ntop (er_af er) (snd (er_bytes er)))"

fun listing :: "inet_ntop \<Rightarrow> nat \<Rightarrow> excluderecord option list \<Rightarrow> string list" where
  "listing ntop i [] = []"
| "listing ntop i (None # v) = listing ntop (Suc i) v"
| "listing ntop i (Some er # v) = entry_line ntop i er # listing ntop (Suc i) v"

text \<open>\<^verbatim>\<open>inet_ntop\<close> has a text for every address of the size of its family.\<close>

definition ntop_ok :: "inet_ntop \<Rightarrow> bool" where
  "ntop_ok ntop \<longleftrightarrow> (\<forall>f b. length b = addr_len f \<longrightarrow> ntop f b \<noteq> None)"

lemma listing_append: "listing ntop i (xs @ ys) = listing ntop i xs @ listing ntop (i + length xs) ys"
  by (induction ntop i xs rule: listing.induct) auto

lemma length_listing: "length (listing ntop i v) = length (somes v)"
  by (induction ntop i v rule: listing.induct) auto

lemma listing_empty: "\<forall>p \<in> set v. p = None \<Longrightarrow> listing ntop i v = []"
  by (induction ntop i v rule: listing.induct) auto

lemma listing_snoc:
  assumes "i < length v"
  shows "listing ntop 0 (take (Suc i) v) = listing ntop 0 (take i v) @ (case v ! i of None \<Rightarrow> [] | Some er \<Rightarrow> [entry_line ntop i er])"
  using assms by (auto simp: take_Suc_conv_app_nth listing_append split: option.split)

lemma net_entry_ntop:
  assumes "ntop_ok ntop" and "net_entry n er"
  shows "\<exists>a m. ntop (er_af er) (fst (er_bytes er)) = Some a \<and> ntop (er_af er) (snd (er_bytes er)) = Some m"
proof -
  obtain f a p where n: "n = (f, a, p)" by (cases n)
  have "length (fst (er_bytes er)) = addr_len (er_af er)" "length (snd (er_bytes er)) = addr_len (er_af er)"
    using assms(2) n by (cases f; auto simp: addr_len_def ipv6_mask_ok_def)+
  with assms(1) show ?thesis unfolding ntop_ok_def by blast
qed

lemma show_entry_ok:
  assumes "ntop_ok ntop" and "net_entry n er"
  shows "\<exists>ip msk. show_entry ntop i er s = Ret (ip, msk, out_dbg (entry_line ntop i er) (snd (snd s)))"
proof -
  obtain a m where "ntop (er_af er) (fst (er_bytes er)) = Some a" "ntop (er_af er) (snd (er_bytes er)) = Some m"
    using net_entry_ntop [OF assms] by blast
  then show ?thesis by (cases s) (simp add: show_entry_def convert_def entry_line_def)
qed

lemma exclude_show_list_spec:
  assumes "exclude_nets N st" and "ntop_ok ntop" and "lock_rv e = 0" and "unlock_rv e = 0"
  shows "exclude_show_list e ntop strerr st out = Ret (fold out_dbg (listing ntop 0 (exclude_vector st)) out)"
    and "length (listing ntop 0 (exclude_vector st)) = size N"
proof -
  let ?v = "exclude_vector st"
  obtain ns where ns: "mset ns = N" "list_all2 net_entry ns (somes ?v)"
    and v: "er_vector_fill st \<le> length ?v" "\<forall>p \<in> set (drop (er_vector_fill st) ?v). p = None"
    using assms(1) by (auto simp: exclude_nets_def vec_ok_def)
  have entry: "\<exists>n. net_entry n er" if "Some er \<in> set ?v" for er
  proof -
    have "er \<in> set (somes ?v)" using that by (simp add: set_somes)
    then obtain k where "k < length (somes ?v)" "somes ?v ! k = er" by (auto simp: in_set_conv_nth)
    then have "net_entry (ns ! k) er" using list_all2_nthD2 [OF ns(2)] by auto
    then show ?thesis ..
  qed
  let ?body = "\<lambda>i s. obind (read_at ?v i) (\<lambda>p. case p of
      None \<Rightarrow> Ret (Inr s) | Some er \<Rightarrow> obind (show_entry ntop i er s) (\<lambda>s'. Ret (Inr s')))
    :: ((string option \<times> string option \<times> output_st) + (string option \<times> string option \<times> output_st)) outcome"
  let ?I = "\<lambda>i s :: string option \<times> string option \<times> output_st. snd (snd s) = fold out_dbg (listing ntop 0 (take i ?v)) out"
  have "returns (c_for 0 (er_vector_fill st) ?body (None, None, out)) (case_sum (\<lambda>_. False) (?I (er_vector_fill st)))"
  proof (rule c_for_rule)
    fix j t assume j: "j < er_vector_fill st" and t: "?I j t"
    then have lt: "j < length ?v" using v(1) by simp
    show "returns (?body j t) (case_sum (\<lambda>_. False) (?I (Suc j)))"
    proof (cases "?v ! j")
      case None
      with lt t show ?thesis by (simp add: read_at_def listing_snoc)
    next
      case (Some er)
      then obtain n where "net_entry n er" using lt entry by (metis nth_mem)
      from show_entry_ok [OF assms(2) this, of j t] Some lt t show ?thesis by (auto simp: read_at_def listing_snoc)
    qed
  qed simp_all
  then obtain s where s: "c_for 0 (er_vector_fill st) ?body (None, None, out) = Ret (Inr s)" "?I (er_vector_fill st) s"
    unfolding returns_iff
  proof (elim exE conjE)
    fix x assume "c_for 0 (er_vector_fill st) ?body (None, None, out) = Ret x" "case_sum (\<lambda>_. False) (?I (er_vector_fill st)) x"
    then show thesis by (cases x) (use that in auto)
  qed
  have "listing ntop 0 ?v = listing ntop 0 (take (er_vector_fill st) ?v)"
    using listing_append [of ntop 0 "take (er_vector_fill st) ?v" "drop (er_vector_fill st) ?v"] v(2) by (simp add: listing_empty)
  with s assms(3,4) show "exclude_show_list e ntop strerr st out = Ret (fold out_dbg (listing ntop 0 ?v) out)"
    by (auto simp: exclude_show_list_def split: prod.splits)
  show "length (listing ntop 0 ?v) = size N"
    using ns by (auto simp: length_listing list_all2_lengthD)
qed

subsection \<open>Theorems\<close>

text \<open>
  The listing of the exclusions: one debug line for each network of the list, in the order of the slots, and
  nothing else.
\<close>

theorem exclude_listing:
  assumes "exclude_nets N st" and "ntop_ok ntop" and "sys_ok e"
  shows "\<exists>ls. exclude_show_list e ntop strerr st out = Ret (fold out_dbg ls out) \<and> length ls = size N
    \<and> ls = listing ntop 0 (exclude_vector st)"
  using exclude_show_list_spec(1) [OF assms(1,2), of e] exclude_show_list_spec(2) [OF assms(1,2), of e] assms(3)
  by (simp add: sys_ok_def)

text \<open>
  The first conversion has no earlier entry to fall back on: if it fails, a buffer that was never written is
  printed.
\<close>

theorem exclude_listing_unwritten:
  assumes "0 < er_vector_fill st" and "exclude_vector st = Some er # v" and "ntop (er_af er) (fst (er_bytes er)) = None"
    and "lock_rv e = 0"
  shows "exclude_show_list e ntop strerr st out = Undef"
  using assms by (auto simp: exclude_show_list_def c_for_step read_at_def show_entry_def convert_def split: option.split)

text \<open>The dump of a record is the line that is printed for it on \<^verbatim>\<open>SIGUSR1\<close>, as a debug message.\<close>

theorem dump_as_listed:
  assumes "wf_hostrecord r" and "ctime_ok ctime_r r"
  shows "dbg_dump_host_record True ctime_r (Some r) out = Ret (out_dbg (record_line ctime_r r) out)
    \<and> records_callback_output True ctime_r r out = Ret (0, r, out_msg (record_line ctime_r r) out)"
  using assms callback_output_ok [OF assms(2,1)]
  by (auto simp: ctime_ok_def dbg_dump_host_record_def time_string_def TIMEBUFSIZE_def c_string_def wf_hostrecord_def
      record_line_def ip_of_def)

text \<open>The replacements never ask the system for an empty block, and leave every other request as it is.\<close>

theorem replacements_ask_for_memory:
  assumes "\<And>n. n \<noteq> 0 \<Longrightarrow> malloc n = malloc' n" and "\<And>p n. n \<noteq> 0 \<Longrightarrow> realloc p n = realloc' p n"
  shows "rpl_malloc malloc = rpl_malloc malloc' \<and> rpl_realloc realloc = rpl_realloc realloc'
    \<and> (n \<noteq> 0 \<longrightarrow> rpl_malloc malloc n = malloc n \<and> rpl_realloc realloc p n = realloc p n)"
  using assms by (auto simp: rpl_malloc_def rpl_realloc_def fun_eq_iff)

end
