(* ===== verification/Sender.thy ===== *)
theory Sender
  imports Client
begin

section \<open>The sending thread, step by step (network/cli/clientqueue.c)\<close>

text \<open>
  \<open>Client_Queue\<close> has one pass of the sending thread as a function. Here the thread makes steps, between which
  other threads append to its queue or cancel it: \<^verbatim>\<open>sender_take\<close> is the section under the mutex, with its error
  exits; then come the attempts to connect, the entries, and the end of the connection. \<open>sd_done\<close>, \<open>sd_sent\<close> and
  \<open>sd_lost\<close> are kept for the statements: the records the thread is finished with and whether they were
  written, the buffers written, and the records that went down with the thread. The lemmas show that a round
  ends and does what the pass does, and that no interleaving reorders, duplicates or forgets a record.
\<close>

subsection \<open>Data\<close>

datatype sender_pc =
    At_top
  | Connecting nat bool "hostrecord list"
  | Sending nat "hostrecord list"
  | Closing
  | Gone

record sender =
  sd_pc :: sender_pc
  sd_conn :: tls_conn
  sd_buff :: "u8 list"
  sd_open :: nat
  sd_done :: "(hostrecord \<times> bool) list"
  sd_sent :: "u8 list list"
  sd_lost :: "hostrecord list"

text \<open>The queue with what the cleanup handler leaves: \<^verbatim>\<open>queue->head\<close> is not reset after its entries were freed.\<close>

record shared_queue =
  sq_queue :: client_queue
  sq_dangling :: bool

text \<open>The answers of \<^verbatim>\<open>pthread_mutex_lock\<close>, \<^verbatim>\<open>pthread_cond_wait\<close> and \<^verbatim>\<open>pthread_mutex_unlock\<close>.\<close>

record take_env =
  tk_lock :: int
  tk_wait :: int
  tk_unlock :: int

definition take_ok :: take_env where
  "take_ok = \<lparr>tk_lock = 0, tk_wait = 0, tk_unlock = 0\<rparr>"

fun hand :: "sender_pc \<Rightarrow> hostrecord list" where
  "hand (Connecting n cur ptr) = ptr"
| "hand (Sending k ptr) = ptr"
| "hand _ = []"

subsection \<open>Steps\<close>

text \<open>\<^verbatim>\<open>_client_queue_worker_cleanup\<close>, which runs when the thread exits or is cancelled: what is still queued is freed.\<close>

definition sender_cleanup :: "sender \<times> shared_queue \<Rightarrow> sender \<times> shared_queue" where
  "sender_cleanup x = (case x of (s, sq) \<Rightarrow>
     (s\<lparr>sd_pc := Gone, sd_lost := sd_lost s @ hand (sd_pc s) @ cq_head (sq_queue sq)\<rparr>,
      sq\<lparr>sq_queue := client_queue_worker_cleanup (sq_queue sq), sq_dangling := (cq_head (sq_queue sq) \<noteq> [])\<rparr>))"

text \<open>The top of the loop: lock, wait while the queue is empty, take all of it, unlock.\<close>

definition sender_take :: "take_env \<Rightarrow> sender \<times> shared_queue \<Rightarrow> sender \<times> shared_queue" where
  "sender_take tk x = (case x of (s, sq) \<Rightarrow>
     if tk_lock tk \<noteq> 0 then sender_cleanup (s, sq)
     else if cq_head (sq_queue sq) = []
     then (if tk_wait tk \<noteq> 0 then sender_cleanup (s, sq) else (s, sq))
     else
       (let ptr = cq_head (sq_queue sq);
            s = s\<lparr>sd_pc := Connecting 0 False ptr\<rparr>;
            sq = sq\<lparr>sq_queue := (sq_queue sq)\<lparr>cq_head := []\<rparr>\<rparr>
        in if tk_unlock tk \<noteq> 0 then sender_cleanup (s, sq) else (s, sq)))"

definition sender_handshake :: "bool \<Rightarrow> transport \<Rightarrow> tls_conn \<Rightarrow> (int \<times> tls_conn) outcome" where
  "sender_handshake nd tr conn = (case tr_tls tr of None \<Rightarrow> Ret (RETVAL_OK, conn) | Some ta \<Rightarrow> netssl_client nd ta (tr_fd tr) conn)"

text \<open>
  One attempt to connect, and the handshake; when the attempts are used up the entries are freed. A failed
  handshake leaves the entries behind, as \<^verbatim>\<open>ptr\<close> is overwritten in the next round. With \<^verbatim>\<open>inform_retry\<close> less than one
  no round ever opens a socket (the configuration does not change while the thread runs), and the \<^verbatim>\<open>close\<close> after the loop
  gets the -1 \<^verbatim>\<open>sockfd\<close> starts with.
\<close>

definition sender_connect :: "bool \<Rightarrow> config \<Rightarrow> transport \<Rightarrow> nat \<Rightarrow> bool \<Rightarrow> hostrecord list \<Rightarrow> sender \<Rightarrow> sender outcome" where
  "sender_connect nd CONFIG tr retries cur ptr s =
     (if int retries < sint (cfg_inform_retry CONFIG)
      then (case tr_conn tr retries of
          SockFail \<Rightarrow> Ret (s\<lparr>sd_pc := Connecting (Suc retries) False ptr\<rparr>)
        | ConnFail \<Rightarrow> Ret (s\<lparr>sd_pc := Connecting (Suc retries) True ptr, sd_open := Suc (sd_open s)\<rparr>)
        | Connected \<Rightarrow>
            obind (sender_handshake nd tr (sd_conn s)) (\<lambda>(retval, conn).
                let s = s\<lparr>sd_open := Suc (sd_open s), sd_conn := conn\<rparr> in
                if retval \<noteq> RETVAL_OK
                then Ret (s\<lparr>sd_pc := Closing, sd_done := sd_done s @ map (\<lambda>r. (r, False)) ptr\<rparr>)
                else Ret (s\<lparr>sd_pc := Sending 0 ptr\<rparr>)))
      else Ret (s\<lparr>sd_pc := At_top, sd_done := sd_done s @ map (\<lambda>r. (r, False)) ptr,
                  sd_open := (if cur then sd_open s - 1 else sd_open s)\<rparr>))"

text \<open>One entry: encode, write, free.\<close>

definition sender_send :: "bool \<Rightarrow> transport \<Rightarrow> nat \<Rightarrow> hostrecord list \<Rightarrow> sender \<Rightarrow> sender outcome" where
  "sender_send nd tr k ptr s = (case ptr of
     [] \<Rightarrow> Ret (s\<lparr>sd_pc := Closing\<rparr>)
   | r # nextptr \<Rightarrow> obind (send_entry nd tr k r (sd_buff s)) (\<lambda>(buff, ok).
       Ret (s\<lparr>sd_pc := Sending (Suc k) nextptr, sd_buff := buff, sd_done := sd_done s @ [(r, ok)],
              sd_sent := (if ok then sd_sent s @ [buff] else sd_sent s)\<rparr>)))"

text \<open>\<^verbatim>\<open>SHUTDOWNCONN\<close>; a dialogue that goes on keeps the thread here.\<close>

definition sender_close :: "transport \<Rightarrow> sender \<Rightarrow> sender" where
  "sender_close tr s = (case tls_close (tr_shutdown tr) (sd_conn s) of
     None \<Rightarrow> s
   | Some c \<Rightarrow> s\<lparr>sd_pc := At_top, sd_conn := c, sd_open := (if tr_fd tr > -1 then sd_open s - 1 else sd_open s)\<rparr>)"

definition sender_next :: "bool \<Rightarrow> config \<Rightarrow> take_env \<Rightarrow> transport \<Rightarrow> sender \<times> shared_queue \<Rightarrow> (sender \<times> shared_queue) outcome" where
  "sender_next nd CONFIG tk tr x = (case x of (s, sq) \<Rightarrow> (case sd_pc s of
     At_top \<Rightarrow> Ret (sender_take tk (s, sq))
   | Connecting n cur ptr \<Rightarrow> obind (sender_connect nd CONFIG tr n cur ptr s) (\<lambda>s'. Ret (s', sq))
   | Sending k ptr \<Rightarrow> obind (sender_send nd tr k ptr s) (\<lambda>s'. Ret (s', sq))
   | Closing \<Rightarrow> Ret (sender_close tr s, sq)
   | Gone \<Rightarrow> Ret (s, sq)))"

text \<open>The thread as \<^verbatim>\<open>client_queue_init\<close> starts it.\<close>

definition sender_start :: "u8 list \<Rightarrow> sender" where
  "sender_start buff = \<lparr>sd_pc = At_top, sd_conn = tls_null, sd_buff = buff, sd_open = 0, sd_done = [], sd_sent = [], sd_lost = []\<rparr>"

text \<open>\<^verbatim>\<open>client_queue_append\<close> by another thread; it walks over the entries, freed or not.\<close>

definition shared_append :: "append_env \<Rightarrow> hostrecord list \<Rightarrow> nat \<Rightarrow> shared_queue \<Rightarrow> (int \<times> shared_queue) outcome" where
  "shared_append e rec len sq =
     (if sq_dangling sq \<and> ae_lock_rv e = 0 then Undef
      else obind (client_queue_append e rec len (sq_queue sq)) (\<lambda>(rv, q). Ret (rv, sq\<lparr>sq_queue := q\<rparr>)))"

subsection \<open>Rounds\<close>

primrec sender_run :: "bool \<Rightarrow> config \<Rightarrow> take_env \<Rightarrow> transport \<Rightarrow> nat \<Rightarrow> sender \<times> shared_queue \<Rightarrow> (sender \<times> shared_queue) outcome" where
  "sender_run nd CONFIG tk tr 0 x = Ret x"
| "sender_run nd CONFIG tk tr (Suc n) x = obind (sender_next nd CONFIG tk tr x) (sender_run nd CONFIG tk tr n)"

lemma sender_pc_id: "sd_pc s = p \<Longrightarrow> s\<lparr>sd_pc := p\<rparr> = s"
  by (cases s) simp

lemma sender_run_add:
  "sender_run nd CONFIG tk tr (m + n) x = obind (sender_run nd CONFIG tk tr m x) (sender_run nd CONFIG tk tr n)"
proof (induction m arbitrary: x)
  case (Suc m)
  then show ?case by (cases "sender_next nd CONFIG tk tr x") auto
qed simp

text \<open>Sending the entries one by one is what \<open>send_entries\<close> does.\<close>

definition unsent :: "(hostrecord \<times> bool) list \<Rightarrow> hostrecord list" where
  "unsent ps = map fst (filter (\<lambda>p. \<not> snd p) ps)"

lemma unsent_simps [simp]: "unsent [] = []" "unsent ((r, b) # ps) = (if b then unsent ps else r # unsent ps)"
  "unsent (ps @ ps') = unsent ps @ unsent ps'" "unsent (map (\<lambda>r. (r, False)) rs) = rs"
  by (simp_all add: unsent_def filter_map comp_def)

lemma sender_sends:
  assumes "send_entries nd tr k ptr (sd_buff s) lg = Ret lg'" and "sd_pc s = Sending k ptr"
  shows "\<exists>buff ps. sender_run nd CONFIG tk tr (Suc (length ptr)) (s, sq) =
      Ret (s\<lparr>sd_pc := Closing, sd_buff := buff, sd_done := sd_done s @ ps,
             sd_sent := sd_sent s @ drop (length (pl_sent lg)) (pl_sent lg')\<rparr>, sq)
    \<and> map fst ps = ptr \<and> pl_unsent lg' = pl_unsent lg @ unsent ps \<and> (\<exists>bs. pl_sent lg' = pl_sent lg @ bs)
    \<and> pl_conn lg' = pl_conn lg \<and> pl_open lg' = pl_open lg"
  using assms
proof (induction ptr arbitrary: k s lg)
  case Nil
  then show ?case by - (rule exI [of _ "sd_buff s"], rule exI [of _ "[]"], simp add: sender_next_def sender_send_def)
next
  case (Cons r rs)
  obtain buff ok where e: "send_entry nd tr k r (sd_buff s) = Ret (buff, ok)"
    and rest: "send_entries nd tr (Suc k) rs buff
      (if ok then lg\<lparr>pl_sent := pl_sent lg @ [buff]\<rparr> else lg\<lparr>pl_unsent := pl_unsent lg @ [r]\<rparr>) = Ret lg'"
    using Cons.prems(1) by (auto simp: obind_eq_Ret)
  let ?lg = "if ok then lg\<lparr>pl_sent := pl_sent lg @ [buff]\<rparr> else lg\<lparr>pl_unsent := pl_unsent lg @ [r]\<rparr>"
  let ?s = "s\<lparr>sd_pc := Sending (Suc k) rs, sd_buff := buff, sd_done := sd_done s @ [(r, ok)],
      sd_sent := (if ok then sd_sent s @ [buff] else sd_sent s)\<rparr>"
  have n: "sender_next nd CONFIG tk tr (s, sq) = Ret (?s, sq)"
    using Cons.prems(2) e by (simp add: sender_next_def sender_send_def)
  have "send_entries nd tr (Suc k) rs (sd_buff ?s) ?lg = Ret lg'" using rest by simp
  from Cons.IH [OF this] obtain buff' ps bs where ih:
    "sender_run nd CONFIG tk tr (Suc (length rs)) (?s, sq) = Ret (?s\<lparr>sd_pc := Closing, sd_buff := buff',
        sd_done := sd_done ?s @ ps, sd_sent := sd_sent ?s @ drop (length (pl_sent ?lg)) (pl_sent lg')\<rparr>, sq)"
    "map fst ps = rs" "pl_unsent lg' = pl_unsent ?lg @ unsent ps" "pl_sent lg' = pl_sent ?lg @ bs"
    "pl_conn lg' = pl_conn ?lg" "pl_open lg' = pl_open ?lg" by auto
  show ?case
  proof (intro exI [of _ buff'] exI [of _ "(r, ok) # ps"] conjI)
    show "sender_run nd CONFIG tk tr (Suc (length (r # rs))) (s, sq) = Ret (s\<lparr>sd_pc := Closing, sd_buff := buff',
        sd_done := sd_done s @ (r, ok) # ps, sd_sent := sd_sent s @ drop (length (pl_sent lg)) (pl_sent lg')\<rparr>, sq)"
      using n ih(1,4) by (simp del: sender_run.simps(2) add: sender_run.simps(2) [of _ _ _ _ "Suc (length rs)"])
  qed (use ih(2-6) in \<open>auto\<close>)
qed

text \<open>The attempts one by one are the connection loop, up to the attempt that succeeds or past the last one.\<close>

lemma sender_connects:
  fixes opened :: nat
  assumes "c_for n N (\<lambda>retries (opened, cur). case tr_conn tr retries of
         SockFail \<Rightarrow> Ret (Inr (opened, False))
       | ConnFail \<Rightarrow> Ret (Inr (Suc opened, True))
       | Connected \<Rightarrow> Ret (Inl (Suc opened, True))) (opened, cur) = Ret res"
    and "N = nat (sint (cfg_inform_retry CONFIG))" and "sd_pc s = Connecting n cur ptr"
  shows "\<exists>m n' cur' k. m \<le> N - n \<and> sender_run nd CONFIG tk tr m (s, sq) =
      Ret (s\<lparr>sd_pc := Connecting n' cur' ptr, sd_open := sd_open s + k\<rparr>, sq)
    \<and> (case res of Inl (o', c') \<Rightarrow> o' = Suc (opened + k) \<and> c' \<and> n' < N \<and> tr_conn tr n' = Connected
       | Inr (o', c') \<Rightarrow> o' = opened + k \<and> c' = cur' \<and> N \<le> n')"
  using assms
proof (induction "N - n" arbitrary: n opened cur s)
  case 0
  then have "N \<le> n" by simp
  with 0 show ?case
    by - (rule exI [of _ 0], rule exI [of _ n], rule exI [of _ cur], rule exI [of _ 0], auto simp: sender_pc_id)
next
  case (Suc d)
  then have n: "n < N" "d = N - Suc n" by simp_all
  have retry: "int n < sint (cfg_inform_retry CONFIG)" using n(1) Suc.prems(2) by simp
  show ?case
  proof (cases "tr_conn tr n")
    case Connected
    then show ?thesis using Suc.prems n
      by - (rule exI [of _ 0], rule exI [of _ n], rule exI [of _ cur], rule exI [of _ 0], auto simp: c_for_step sender_pc_id)
  next
    case SockFail
    let ?s = "s\<lparr>sd_pc := Connecting (Suc n) False ptr\<rparr>"
    have "sender_next nd CONFIG tk tr (s, sq) = Ret (?s, sq)"
      using Suc.prems(3) retry SockFail by (simp add: sender_next_def sender_connect_def)
    moreover from Suc.hyps(1) [OF n(2), of opened False ?s] obtain m n' cur' k where "m \<le> N - Suc n"
        "sender_run nd CONFIG tk tr m (?s, sq) = Ret (?s\<lparr>sd_pc := Connecting n' cur' ptr, sd_open := sd_open ?s + k\<rparr>, sq)"
        "case res of Inl (o', c') \<Rightarrow> o' = Suc (opened + k) \<and> c' \<and> n' < N \<and> tr_conn tr n' = Connected
          | Inr (o', c') \<Rightarrow> o' = opened + k \<and> c' = cur' \<and> N \<le> n'"
      using Suc.prems(1,2) n(1) SockFail by (auto simp: c_for_step)
    ultimately show ?thesis using n(1)
      by - (rule exI [of _ "Suc m"], rule exI [of _ n'], rule exI [of _ cur'], rule exI [of _ k], auto split: sum.splits)
  next
    case ConnFail
    let ?s = "s\<lparr>sd_pc := Connecting (Suc n) True ptr, sd_open := Suc (sd_open s)\<rparr>"
    have "sender_next nd CONFIG tk tr (s, sq) = Ret (?s, sq)"
      using Suc.prems(3) retry ConnFail by (simp add: sender_next_def sender_connect_def)
    moreover from Suc.hyps(1) [OF n(2), of "Suc opened" True ?s] obtain m n' cur' k where "m \<le> N - Suc n"
        "sender_run nd CONFIG tk tr m (?s, sq) = Ret (?s\<lparr>sd_pc := Connecting n' cur' ptr, sd_open := sd_open ?s + k\<rparr>, sq)"
        "case res of Inl (o', c') \<Rightarrow> o' = Suc (Suc opened + k) \<and> c' \<and> n' < N \<and> tr_conn tr n' = Connected
          | Inr (o', c') \<Rightarrow> o' = Suc opened + k \<and> c' = cur' \<and> N \<le> n'"
      using Suc.prems(1,2) n(1) ConnFail by (auto simp: c_for_step)
    ultimately show ?thesis using n(1)
      by - (rule exI [of _ "Suc m"], rule exI [of _ n'], rule exI [of _ cur'], rule exI [of _ "Suc k"], auto split: sum.splits)
  qed
qed

text \<open>
  What a round must have done, given the log of the pass: it is at the top of the loop again, unless it had connected
  and the shutdown dialogue does not end.
\<close>

definition round_done :: "bool \<Rightarrow> transport \<Rightarrow> pass_log \<Rightarrow> hostrecord list \<Rightarrow> sender \<Rightarrow> sender \<Rightarrow> bool" where
  "round_done up tr lg ptr s s' \<longleftrightarrow> sd_sent s' = sd_sent s @ pl_sent lg \<and> sd_conn s' = pl_conn lg \<and> sd_open s' = sd_open s + pl_open lg
     \<and> (\<exists>ps. sd_done s' = sd_done s @ ps \<and> map fst ps = ptr \<and> unsent ps = pl_unsent lg)
     \<and> sd_lost s' = sd_lost s \<and> sd_pc s' = (if up \<and> tc_ssl (pl_conn lg) \<and> ssl_shutdown (tr_shutdown tr) = None then Closing else At_top)"

lemma sender_closes:
  assumes "sd_pc s' = Closing" and "sd_conn s' = pl_conn lg" and "sd_open s' = sd_open s + pl_open lg" and "0 < pl_open lg"
    and "sd_sent s' = sd_sent s @ pl_sent lg" and "sd_lost s' = sd_lost s"
    and "sd_done s' = sd_done s @ ps" and "map fst ps = ptr" and "unsent ps = pl_unsent lg"
  shows "sender_run nd CONFIG tk tr 1 (s', sq) = Ret (sender_close tr s', sq) \<and> round_done True tr (shutdownconn tr lg) ptr s (sender_close tr s')"
  using assms by (auto simp: sender_next_def sender_close_def shutdownconn_def tls_close_def round_done_def split: option.split)

text \<open>From an attempt that succeeds to the end of the round.\<close>

lemma sender_connected:
  assumes c: "sd_pc c = Connecting n cur ptr" "int n < sint (cfg_inform_retry CONFIG)" "tr_conn tr n = Connected"
      "sd_open c = sd_open s + k" "sd_conn c = sd_conn s" "sd_buff c = sd_buff s" "sd_done c = sd_done s"
      "sd_sent c = sd_sent s" "sd_lost c = sd_lost s"
    and hs: "sender_handshake nd tr (sd_conn s) = Ret (rv, conn)"
    and rest: "(if rv \<noteq> RETVAL_OK
             then Ret (Some (shutdownconn tr \<lparr>pl_sent = [], pl_unsent = ptr, pl_open = Suc k, pl_conn = conn\<rparr>), q)
             else obind (send_entries nd tr 0 ptr (sd_buff s) \<lparr>pl_sent = [], pl_unsent = [], pl_open = Suc k, pl_conn = conn\<rparr>)
                    (\<lambda>lg. Ret (Some (shutdownconn tr lg), q))) = Ret (Some lg, q)"
  shows "\<exists>j s'. j \<le> length ptr + 3 \<and> sender_run nd CONFIG tk tr j (c, sq) = Ret (s', sq) \<and> round_done True tr lg ptr s s'"
proof -
  let ?run = "sender_run nd CONFIG tk tr"
  let ?h = "c\<lparr>sd_open := Suc (sd_open c), sd_conn := conn\<rparr>"
  show ?thesis
  proof (cases "rv = RETVAL_OK")
    case False
    let ?e = "?h\<lparr>sd_pc := Closing, sd_done := sd_done c @ map (\<lambda>r. (r, False)) ptr\<rparr>"
    have "?run 1 (c, sq) = Ret (?e, sq)"
      using c hs False by (simp add: sender_next_def sender_connect_def Let_def)
    moreover have "?run 1 (?e, sq) = Ret (sender_close tr ?e, sq) \<and> round_done True tr lg ptr s (sender_close tr ?e)"
      using rest False c
        sender_closes [of ?e "\<lparr>pl_sent = [], pl_unsent = ptr, pl_open = Suc k, pl_conn = conn\<rparr>" s "map (\<lambda>r. (r, False)) ptr" ptr nd CONFIG tk tr sq]
      by (auto simp: comp_def)
    ultimately show ?thesis
      using sender_run_add [of nd CONFIG tk tr 1 1 "(c, sq)"]
      by - (rule exI [of _ "1 + 1"], rule exI [of _ "sender_close tr ?e"], simp)
  next
    case True
    let ?e = "?h\<lparr>sd_pc := Sending 0 ptr\<rparr>"
    have e: "?run 1 (c, sq) = Ret (?e, sq)"
      using c hs True by (simp add: sender_next_def sender_connect_def Let_def)
    obtain lg' where lg': "send_entries nd tr 0 ptr (sd_buff ?e) \<lparr>pl_sent = [], pl_unsent = [], pl_open = Suc k, pl_conn = conn\<rparr> = Ret lg'"
        "lg = shutdownconn tr lg'"
      using rest True c(6) by (auto simp: obind_eq_Ret)
    from sender_sends [OF lg'(1), of CONFIG tk sq] obtain buff ps where f:
      "?run (Suc (length ptr)) (?e, sq) = Ret (?e\<lparr>sd_pc := Closing, sd_buff := buff, sd_done := sd_done c @ ps, sd_sent := sd_sent c @ pl_sent lg'\<rparr>, sq)"
      "map fst ps = ptr" "pl_unsent lg' = unsent ps" "pl_conn lg' = conn" "pl_open lg' = Suc k"
      by auto
    let ?f = "?e\<lparr>sd_pc := Closing, sd_buff := buff, sd_done := sd_done c @ ps, sd_sent := sd_sent c @ pl_sent lg'\<rparr>"
    have "?run 1 (?f, sq) = Ret (sender_close tr ?f, sq) \<and> round_done True tr lg ptr s (sender_close tr ?f)"
      using f(2-5) sender_closes [of ?f lg' s ps ptr nd CONFIG tk tr sq] lg'(2) c by auto
    with e f(1) show ?thesis
      using sender_run_add [of nd CONFIG tk tr 1 "Suc (length ptr) + 1" "(c, sq)"]
        sender_run_add [of nd CONFIG tk tr "Suc (length ptr)" 1 "(?e, sq)"]
      by - (rule exI [of _ "1 + (Suc (length ptr) + 1)"], rule exI [of _ "sender_close tr ?f"], simp)
  qed
qed

lemma sender_round:
  assumes pass: "client_queue_worker nd CONFIG tr (sd_buff s) (sd_conn s) (sq_queue sq) = Ret (Some lg, q)"
    and top: "sd_pc s = At_top"
  shows "\<exists>n s'. n \<le> nat (sint (cfg_inform_retry CONFIG)) + length (cq_head (sq_queue sq)) + 4
    \<and> sender_run nd CONFIG take_ok tr n (s, sq) = Ret (s', sq\<lparr>sq_queue := q\<rparr>) 
    \<and> round_done (\<exists>n < nat (sint (cfg_inform_retry CONFIG)). tr_conn tr n = Connected) tr lg (cq_head (sq_queue sq)) s s'"
proof -
  let ?ptr = "cq_head (sq_queue sq)" and ?N = "nat (sint (cfg_inform_retry CONFIG))"
  let ?run = "sender_run nd CONFIG take_ok tr"
  have ne: "?ptr \<noteq> []" using pass by (auto simp: client_queue_worker_def)
  obtain res where res: "connect_loop CONFIG tr = Ret res" by (cases rule: connect_loop_spec [of CONFIG tr]) auto
  have q: "q = (sq_queue sq)\<lparr>cq_head := []\<rparr>"
    using pass ne res by (cases res) (auto simp: client_queue_worker_def Let_def obind_eq_Ret split: prod.splits if_splits)
  let ?sq = "sq\<lparr>sq_queue := q\<rparr>" and ?s = "s\<lparr>sd_pc := Connecting 0 False ?ptr\<rparr>"
  have take: "sender_next nd CONFIG take_ok tr (s, sq) = Ret (?s, ?sq)"
    using top ne q by (simp add: sender_next_def sender_take_def take_ok_def Let_def)
  obtain m n' cur k where m: "m \<le> ?N" "?run m (?s, ?sq) = Ret (?s\<lparr>sd_pc := Connecting n' cur ?ptr, sd_open := sd_open s + k\<rparr>, ?sq)"
      "case res of Inl (o', c') \<Rightarrow> o' = Suc k \<and> c' \<and> n' < ?N \<and> tr_conn tr n' = Connected
        | Inr (o', c') \<Rightarrow> o' = k \<and> c' = cur \<and> ?N \<le> n'"
    using sender_connects [OF res [unfolded connect_loop_def] refl, of ?s ?ptr nd take_ok ?sq, unfolded add_0] by auto
  let ?c = "?s\<lparr>sd_pc := Connecting n' cur ?ptr, sd_open := sd_open s + k\<rparr>"
  have head: "?run (Suc m + j) (s, sq) = ?run j (?c, ?sq)" for j
    using take m(2) by (simp add: sender_run_add)
  show ?thesis
  proof (cases res)
    case (Inr y)
    let ?e = "?c\<lparr>sd_pc := At_top, sd_done := sd_done s @ map (\<lambda>r. (r, False)) ?ptr, sd_open := (if cur then sd_open s + k - 1 else sd_open s + k)\<rparr>"
    obtain o' where y: "y = (o', cur)" "o' = k" "?N \<le> n'" using m(3) Inr by (cases y) auto
    have no: "tr_conn tr k \<noteq> Connected" if "k < ?N" for k
      using connect_loop_spec [of CONFIG tr] res Inr that by auto
    have "\<not> int n' < sint (cfg_inform_retry CONFIG)" using y(3) by linarith
    then have "sender_next nd CONFIG take_ok tr (?c, ?sq) = Ret (?e, ?sq)"
      by (simp add: sender_next_def sender_connect_def)
    then have "?run (Suc m + 1) (s, sq) = Ret (?e, ?sq)" by (simp only: head) simp
    moreover have "cur \<longrightarrow> 0 < k" using connect_loop_spec [of CONFIG tr] res Inr y by auto
    moreover have "lg = \<lparr>pl_sent = [], pl_unsent = ?ptr, pl_open = (if cur then k - 1 else k), pl_conn = sd_conn s\<rparr>"
      using pass ne res Inr y by (simp add: client_queue_worker_def Let_def)
    ultimately show ?thesis
      using m(1) by - (rule exI [of _ "Suc m + 1"], rule exI [of _ ?e], auto simp: round_done_def comp_def no)
  next
    case (Inl y)
    then have y: "y = (Suc k, True)" "n' < ?N" "tr_conn tr n' = Connected" using m(3) by (cases y, auto)+
    obtain rv conn where hs: "sender_handshake nd tr (sd_conn s) = Ret (rv, conn)"
      and rest: "(if rv \<noteq> RETVAL_OK
             then Ret (Some (shutdownconn tr \<lparr>pl_sent = [], pl_unsent = ?ptr, pl_open = Suc k, pl_conn = conn\<rparr>), q)
             else obind (send_entries nd tr 0 ?ptr (sd_buff s) \<lparr>pl_sent = [], pl_unsent = [], pl_open = Suc k, pl_conn = conn\<rparr>)
                    (\<lambda>lg. Ret (Some (shutdownconn tr lg), q))) = Ret (Some lg, q)"
      using pass ne res Inl y(1) q by (auto simp: client_queue_worker_def sender_handshake_def Let_def obind_eq_Ret)
    have retry: "int n' < sint (cfg_inform_retry CONFIG)" using y(2) by simp
    from sender_connected [of ?c n' cur ?ptr, OF _ retry y(3) _ _ _ _ _ _ hs rest, of take_ok ?sq] obtain j s' where
      "j \<le> length ?ptr + 3" "?run j (?c, ?sq) = Ret (s', ?sq)" "round_done True tr lg ?ptr s s'" by auto
    moreover have "\<exists>n < ?N. tr_conn tr n = Connected" using y(2,3) by blast
    ultimately show ?thesis
      using m(1) head [of j] by - (rule exI [of _ "Suc m + j"], rule exI [of _ s'], simp)
  qed
qed

subsection \<open>Interleavings\<close>

text \<open>
  The queue, its thread, and the records appended so far. Between any two steps of the thread another thread may
  append, and the thread may be cancelled; what the system answers is new in every step.
\<close>

record queue_sys =
  qy_sender :: sender
  qy_queue :: shared_queue
  qy_appended :: "hostrecord list"

inductive queue_step :: "bool \<Rightarrow> config \<Rightarrow> queue_sys \<Rightarrow> queue_sys \<Rightarrow> bool" for nd CONFIG where
  append: "0 < len \<Longrightarrow> \<forall>r \<in> set rec. sendable r \<Longrightarrow> shared_append e rec len (qy_queue y) = Ret (rv, sq) \<Longrightarrow>
     queue_step nd CONFIG y (y\<lparr>qy_queue := sq, qy_appended := qy_appended y @ (if rv = RETVAL_OK then take len rec else [])\<rparr>)"
| sender: "sender_next nd CONFIG tk tr (qy_sender y, qy_queue y) = Ret (s, sq) \<Longrightarrow>
     queue_step nd CONFIG y (y\<lparr>qy_sender := s, qy_queue := sq\<rparr>)"
| cancel: "sd_pc (qy_sender y) \<noteq> Gone \<Longrightarrow> sender_cleanup (qy_sender y, qy_queue y) = (s, sq) \<Longrightarrow>
     queue_step nd CONFIG y (y\<lparr>qy_sender := s, qy_queue := sq\<rparr>)"

inductive queue_reach :: "bool \<Rightarrow> config \<Rightarrow> queue_sys \<Rightarrow> queue_sys \<Rightarrow> bool" for nd CONFIG y0 where
  start: "queue_reach nd CONFIG y0 y0"
| step: "queue_reach nd CONFIG y0 y \<Longrightarrow> queue_step nd CONFIG y y' \<Longrightarrow> queue_reach nd CONFIG y0 y'"

definition queue_start :: "addrinfo \<Rightarrow> u8 list \<Rightarrow> queue_sys" where
  "queue_start a buff = \<lparr>qy_sender = sender_start buff,
     qy_queue = \<lparr>sq_queue = \<lparr>cq_addr = a, cq_head = [], cq_freed = False\<rparr>, sq_dangling = False\<rparr>, qy_appended = []\<rparr>"

definition queue_inv :: "queue_sys \<Rightarrow> bool" where
  "queue_inv y \<longleftrightarrow> (let s = qy_sender y; q = sq_queue (qy_queue y) in
     qy_appended y = map fst (sd_done s) @ sd_lost s @ hand (sd_pc s) @ cq_head q
     \<and> (sd_pc s \<noteq> Gone \<longrightarrow> sd_lost s = [])
     \<and> sd_sent s = map (\<lambda>p. wire ADD (fst p)) (filter snd (sd_done s))
     \<and> (\<forall>r \<in> set (qy_appended y). sendable r) \<and> length (sd_buff s) = REMOTE_COMMAND_SIZE)"

text \<open>Whatever the system answers, an append that returns has appended everything or nothing.\<close>

lemma append_loop_Ret:
  assumes "c_for i n (\<lambda>i l. obind (read_at rec i) (\<lambda>r. obind (entry i r) (\<lambda>x. Ret (Inr (l @ [x]))))) l0
      = (Ret res :: (hostrecord list + hostrecord list) outcome)"
    and "\<And>i r x. entry i r = Ret x \<Longrightarrow> x = r" and "i \<le> n"
  shows "res = Inr (l0 @ drop i (take n rec)) \<and> (i < n \<longrightarrow> n \<le> length rec)"
  using assms
proof (induction "n - i" arbitrary: i l0)
  case 0
  then show ?case by simp
next
  case (Suc d)
  then have i: "i < n" "d = n - Suc i" by simp_all
  from Suc.prems(1) obtain x where x: "i < length rec" "entry i (rec ! i) = Ret x"
    "c_for (Suc i) n (\<lambda>i l. obind (read_at rec i) (\<lambda>r. obind (entry i r) (\<lambda>x. Ret (Inr (l @ [x]))))) (l0 @ [x]) = Ret res"
    using i(1) by (auto simp: c_for_step obind_eq_Ret read_at_def split: if_splits)
  from Suc.hyps(1) [OF i(2) x(3) Suc.prems(2)] i(1)
  have "res = Inr ((l0 @ [x]) @ drop (Suc i) (take n rec)) \<and> (Suc i < n \<longrightarrow> n \<le> length rec)" by simp
  moreover have "drop i (take n rec) = rec ! i # drop (Suc i) (take n rec)"
    using i(1) x(1) by (simp add: Cons_nth_drop_Suc [symmetric])
  moreover have "x = rec ! i" using x(2) Suc.prems(2) by blast
  ultimately show ?case using i(1) x(1) by auto
qed

lemma assert_addr_Ret: "assert_addr nd a (Ret r) = Ret x \<Longrightarrow> x = r"
  by (auto simp: assert_addr_def obind_eq_Ret split: if_splits)

lemma assert_addr_eq_Ret: "assert_addr nd a m = Ret x \<Longrightarrow> m = Ret x"
  by (auto simp: assert_addr_def obind_eq_Ret split: if_splits)

lemma client_queue_append_Ret:
  assumes "client_queue_append e rec len q = Ret (rv, q')" and "0 < len"
  shows "rv = RETVAL_ERR \<and> q' = q \<or> rv = RETVAL_OK \<and> q' = q\<lparr>cq_head := cq_head q @ take len rec\<rparr>"
proof (cases "ae_lock_rv e = 0 \<and> \<not> cq_freed q")
  case False
  with assms show ?thesis by (auto simp: client_queue_append_def c_assert_def split: if_splits)
next
  case True
  show ?thesis
  proof (cases "cq_head q = []")
    case empty: True
    have ce: "x = r" if "entry_checked e i r = Ret x" for i r x
      using that by (auto simp: entry_checked_def dest: assert_addr_Ret split: if_splits)
    from assms True empty obtain x0 res where r: "read_at rec 0 = Ret (rec ! 0)" "entry_checked e 0 (rec ! 0) = Ret x0"
      "c_for 1 len (\<lambda>i l. obind (read_at rec i) (\<lambda>r. obind (entry_checked e i r) (\<lambda>x. Ret (Inr (l @ [x]))))) [x0] = Ret res"
      "(case res of Inl l \<Rightarrow> Ret (RETVAL_OK, q\<lparr>cq_head := l\<rparr>) | Inr l \<Rightarrow> Ret (RETVAL_OK, q\<lparr>cq_head := l\<rparr>)) = Ret (rv, q')"
      by (auto simp: client_queue_append_def obind_eq_Ret read_at_def split: if_splits)
    then have "res = Inr ([x0] @ drop 1 (take len rec))" "x0 = rec ! 0"
      using append_loop_Ret [OF r(3) ce] assms(2) ce [OF r(2)] by auto
    moreover have "rec ! 0 # drop 1 (take len rec) = take len rec"
      using r(1) assms(2) by (cases rec; cases len) (auto simp: read_at_def)
    ultimately show ?thesis using r(4) empty by simp
  next
    case False
    have ue: "x = r" if "entry_unchecked e q i r = Ret x" for i r x
      using that by (auto simp: entry_unchecked_def dest!: assert_addr_eq_Ret split: if_splits)
    from assms True False obtain res where r:
      "c_for 0 len (\<lambda>i l. obind (read_at rec i) (\<lambda>r. obind (entry_unchecked e q i r) (\<lambda>x. Ret (Inr (l @ [x]))))) (cq_head q) = Ret res"
      "(case res of Inl l \<Rightarrow> Ret (RETVAL_OK, q\<lparr>cq_head := l\<rparr>) | Inr l \<Rightarrow> Ret (RETVAL_OK, q\<lparr>cq_head := l\<rparr>)) = Ret (rv, q')"
      by (auto simp: client_queue_append_def obind_eq_Ret)
    then show ?thesis using append_loop_Ret [OF r(1) ue] by auto
  qed
qed

lemma shared_append_Ret:
  assumes "shared_append e rec len sq = Ret (rv, sq')" and "0 < len"
  shows "sq' = sq\<lparr>sq_queue := (sq_queue sq)\<lparr>cq_head := cq_head (sq_queue sq) @ (if rv = RETVAL_OK then take len rec else [])\<rparr>\<rparr>"
  using assms client_queue_append_Ret [OF _ assms(2), of e rec "sq_queue sq"]
  by (fastforce simp: shared_append_def obind_eq_Ret split: if_splits)

subsection \<open>Nothing is reordered, duplicated or forgotten\<close>

lemma send_entry_Ret:
  assumes "send_entry nd tr k r buff = Ret (buff', ok)" and "sendable r" and "length buff = REMOTE_COMMAND_SIZE"
  shows "buff' = wire ADD r \<and> length buff' = REMOTE_COMMAND_SIZE"
proof -
  have "net_command_to_buff nd ADD r buff = Ret (REMOTE_COMMAND_SIZE, wire ADD r)"
    using assms by (intro net_command_to_buff_wire) (auto simp: sendable_def wf_hostrecord_def)
  moreover have "length (wire ADD r) = REMOTE_COMMAND_SIZE"
    using assms by (simp add: sendable_def wf_hostrecord_def wire_def IPADDR_SIZE_def REMOTE_COMMAND_SIZE_def)
  ultimately show ?thesis using assms by (simp add: send_entry_def assert_addr_ok sendable_string)
qed

lemma cleanup_inv:
  assumes "queue_inv y" and "sender_cleanup (qy_sender y, qy_queue y) = (s, sq)"
  shows "queue_inv (y\<lparr>qy_sender := s, qy_queue := sq\<rparr>)"
  using assms by (auto simp: queue_inv_def sender_cleanup_def client_queue_worker_cleanup_def Let_def)

lemma take_inv:
  assumes "queue_inv y" and "sd_pc (qy_sender y) = At_top" and "sender_take tk (qy_sender y, qy_queue y) = (s, sq)"
  shows "queue_inv (y\<lparr>qy_sender := s, qy_queue := sq\<rparr>)"
  using assms
  by (auto simp: queue_inv_def sender_take_def sender_cleanup_def client_queue_worker_cleanup_def Let_def split: if_splits)

lemma connect_inv:
  assumes "queue_inv y" and "sd_pc (qy_sender y) = Connecting n cur ptr"
    and "sender_connect nd CONFIG tr n cur ptr (qy_sender y) = Ret s"
  shows "queue_inv (y\<lparr>qy_sender := s\<rparr>)"
  using assms
  by (auto simp: queue_inv_def sender_connect_def Let_def obind_eq_Ret comp_def split: if_splits conn_result.splits)

lemma send_inv:
  assumes y: "queue_inv y" and pc: "sd_pc (qy_sender y) = Sending k ptr" and s: "sender_send nd tr k ptr (qy_sender y) = Ret s"
  shows "queue_inv (y\<lparr>qy_sender := s\<rparr>)"
proof (cases ptr)
  case Nil
  with assms show ?thesis by (auto simp: queue_inv_def sender_send_def Let_def)
next
  case (Cons r rs)
  obtain buff ok where e: "send_entry nd tr k r (sd_buff (qy_sender y)) = Ret (buff, ok)"
    and s': "s = (qy_sender y)\<lparr>sd_pc := Sending (Suc k) rs, sd_buff := buff, sd_done := sd_done (qy_sender y) @ [(r, ok)],
      sd_sent := (if ok then sd_sent (qy_sender y) @ [buff] else sd_sent (qy_sender y))\<rparr>"
    using s Cons by (auto simp: sender_send_def obind_eq_Ret)
  have "sendable r" using y pc Cons by (auto simp: queue_inv_def Let_def)
  then have "buff = wire ADD r" "length buff = REMOTE_COMMAND_SIZE"
    using send_entry_Ret [OF e] y by (auto simp: queue_inv_def Let_def)
  with y pc Cons s' show ?thesis by (auto simp: queue_inv_def Let_def)
qed

lemma close_inv:
  assumes "queue_inv y" and "sd_pc (qy_sender y) = Closing"
  shows "queue_inv (y\<lparr>qy_sender := sender_close tr (qy_sender y)\<rparr>)"
  using assms by (auto simp: queue_inv_def sender_close_def Let_def split: option.splits)

lemma queue_step_inv: "queue_step nd CONFIG y y' \<Longrightarrow> queue_inv y \<Longrightarrow> queue_inv y'"
proof (induction rule: queue_step.induct)
  case (append len rec e y rv sq)
  have "\<forall>r \<in> set (take len rec). sendable r" using append(2) by (meson in_set_takeD)
  with append(4) show ?case
    unfolding shared_append_Ret [OF append(3,1)] by (simp add: queue_inv_def Let_def ball_Un)
next
  case (sender tk tr y s sq)
  show ?case
  proof (cases "sd_pc (qy_sender y)")
    case At_top
    with sender show ?thesis by (auto simp: sender_next_def intro: take_inv)
  next
    case (Connecting n cur ptr)
    with sender show ?thesis by (auto simp: sender_next_def obind_eq_Ret intro: connect_inv)
  next
    case (Sending k ptr)
    with sender show ?thesis by (auto simp: sender_next_def obind_eq_Ret intro: send_inv)
  next
    case Closing
    with sender show ?thesis by (auto simp: sender_next_def intro: close_inv)
  next
    case Gone
    with sender show ?thesis by (auto simp: sender_next_def)
  qed
next
  case (cancel y s sq)
  then show ?case by (intro cleanup_inv)
qed

lemma queue_start_inv: "length buff = REMOTE_COMMAND_SIZE \<Longrightarrow> queue_inv (queue_start a buff)"
  by (simp add: queue_inv_def queue_start_def sender_start_def)

lemma queue_reach_inv: "queue_reach nd CONFIG y0 y \<Longrightarrow> queue_inv y0 \<Longrightarrow> queue_inv y"
  by (induction rule: queue_reach.induct) (auto intro: queue_step_inv)

subsection \<open>Properties\<close>

text \<open>
  C17. Whatever the interleaving of the sending thread with threads that append and with its cancellation, and
  whatever the network, the locks and the TLS library answer: the records appended are those the thread is
  finished with, those that went down with it, those it has taken, and those still queued, in this order. So no
  record is reordered, duplicated or forgotten, what was written to the server is the wire image of each
  record whose write succeeded, once, and only a thread that has ended has lost anything.
\<close>

theorem queue_exactly_once:
  assumes "length buff = REMOTE_COMMAND_SIZE" and "queue_reach nd CONFIG (queue_start a buff) y"
  shows "qy_appended y = map fst (sd_done (qy_sender y)) @ sd_lost (qy_sender y) @ hand (sd_pc (qy_sender y)) @ cq_head (sq_queue (qy_queue y))
    \<and> sd_sent (qy_sender y) = map (\<lambda>p. wire ADD (fst p)) (filter snd (sd_done (qy_sender y)))
    \<and> (sd_pc (qy_sender y) = Gone \<or> sd_lost (qy_sender y) = [])"
  using queue_reach_inv [OF assms(2) queue_start_inv [OF assms(1)]] by (auto simp: queue_inv_def Let_def)

text \<open>Two records are appended, the first is taken, and the thread is cancelled: both are lost.\<close>

theorem queue_exactly_once_witness:
  "\<exists>y. queue_reach False demo_config (queue_start demo_addrinfo (replicate 144 0)) y
     \<and> qy_appended y = [demo_host, demo_host] \<and> sd_lost (qy_sender y) = [demo_host, demo_host] \<and> sd_sent (qy_sender y) = []"
proof -
  let ?y0 = "queue_start demo_addrinfo (replicate 144 0)"
  let ?sq = "qy_queue ?y0" and ?s = "qy_sender ?y0"
  let ?q1 = "?sq\<lparr>sq_queue := (sq_queue ?sq)\<lparr>cq_head := [demo_host]\<rparr>\<rparr>"
  let ?s2 = "?s\<lparr>sd_pc := Connecting 0 False [demo_host]\<rparr>"
  have ap: "shared_append calm_append [demo_host] 1 ?sq = Ret (RETVAL_OK, ?q1)"
    using client_queue_append_spec [of calm_append 1 "[demo_host]" "sq_queue ?sq"]
    by (simp add: shared_append_def queue_start_def)
  let ?y1 = "?y0\<lparr>qy_queue := ?q1, qy_appended := [demo_host]\<rparr>"
  have 1: "queue_reach False demo_config ?y0 ?y1"
    using queue_step.append [OF _ _ ap, where nd = False and CONFIG = demo_config]
    by (intro queue_reach.step [OF queue_reach.start]) (simp add: queue_start_def)
  have "sender_next False demo_config take_ok demo_transport (qy_sender ?y1, qy_queue ?y1) = Ret (?s2, ?sq)"
    by (simp add: sender_next_def sender_take_def take_ok_def queue_start_def sender_start_def)
  from queue_step.sender [OF this]
  have 2: "queue_reach False demo_config ?y0 (?y1\<lparr>qy_sender := ?s2, qy_queue := ?sq\<rparr>)" (is "queue_reach _ _ _ ?y2")
    by (rule queue_reach.step [OF 1])
  have "shared_append calm_append [demo_host] 1 (qy_queue ?y2) = Ret (RETVAL_OK, ?q1)" using ap by simp
  from queue_step.append [OF _ _ this, where nd = False and CONFIG = demo_config]
  have 3: "queue_reach False demo_config ?y0 (?y2\<lparr>qy_queue := ?q1, qy_appended := [demo_host, demo_host]\<rparr>)" (is "queue_reach _ _ _ ?y3")
    by (intro queue_reach.step [OF 2]) simp
  obtain s sq where "sender_cleanup (qy_sender ?y3, qy_queue ?y3) = (s, sq)" by fastforce
  from queue_step.cancel [OF _ this]
  have 4: "queue_reach False demo_config ?y0 (?y3\<lparr>qy_sender := s, qy_queue := sq\<rparr>)" (is "queue_reach _ _ _ ?y4")
    by (intro queue_reach.step [OF 3]) (simp add: queue_start_def)
  have gone: "sd_pc s = Gone" "cq_head (sq_queue sq) = []" "sd_done s = []"
    using \<open>sender_cleanup _ = (s, sq)\<close>
    by (auto simp: sender_cleanup_def client_queue_worker_cleanup_def queue_start_def sender_start_def)
  have "length (replicate 144 (0 :: u8)) = REMOTE_COMMAND_SIZE" by (simp add: REMOTE_COMMAND_SIZE_def)
  from queue_exactly_once [OF this 4] gone 4 show ?thesis by (intro exI [of _ ?y4]) simp
qed

text \<open>
  C18. The steps of the thread are a refinement of the pass: from the top of the loop with a queue that is not
  empty and locks that succeed, the thread comes, within a number of steps bounded by the retries and the
  length of the queue, to the state the pass describes: the same buffers written, the same records unsent, the same
  sockets and TLS objects left. It is back at the top of the loop then; only if an attempt to connect had succeeded, the
  connection had a TLS object and the answers of \<^verbatim>\<open>SSL_shutdown\<close> never end the dialogue, it is still closing.
\<close>

theorem sender_round_is_pass:
  assumes "client_queue_worker nd CONFIG tr (sd_buff s) (sd_conn s) (sq_queue sq) = Ret (Some lg, q)" and "sd_pc s = At_top"
  shows "\<exists>n s'. n \<le> nat (sint (cfg_inform_retry CONFIG)) + length (cq_head (sq_queue sq)) + 4
    \<and> sender_run nd CONFIG take_ok tr n (s, sq) = Ret (s', sq\<lparr>sq_queue := q\<rparr>) 
    \<and> sd_pc s' = (if (\<exists>n < nat (sint (cfg_inform_retry CONFIG)). tr_conn tr n = Connected) \<and> tc_ssl (pl_conn lg)
                   \<and> ssl_shutdown (tr_shutdown tr) = None then Closing else At_top)
    \<and> sd_sent s' = sd_sent s @ pl_sent lg \<and> sd_conn s' = pl_conn lg \<and> sd_open s' = sd_open s + pl_open lg
    \<and> (\<exists>ps. sd_done s' = sd_done s @ ps \<and> map fst ps = cq_head (sq_queue sq) \<and> unsent ps = pl_unsent lg)"
  using sender_round [OF assms] unfolding round_done_def by blast

theorem sender_round_is_pass_witness:
  "\<exists>n s'. sender_run False demo_config take_ok demo_transport n
      (sender_start (replicate 144 0), \<lparr>sq_queue = demo_queue, sq_dangling = False\<rparr>)
      = Ret (s', \<lparr>sq_queue = demo_queue\<lparr>cq_head := []\<rparr>, sq_dangling = False\<rparr>) \<and> sd_pc s' = At_top \<and> sd_sent s' = [wire ADD demo_host]"
proof -
  let ?s = "sender_start (replicate 144 0)" and ?sq = "\<lparr>sq_queue = demo_queue, sq_dangling = False\<rparr>"
  have tr: "reachable_server demo_config demo_transport" "tls_ready (tr_tls demo_transport) (tr_fd demo_transport)"
    by (auto simp: reachable_server_def demo_transport_def tls_ok_def tls_ready_def intro!: bexI [of _ 1])
  have "cq_head demo_queue = [demo_host]" by (simp add: demo_queue_def)
  then obtain lg where lg: "client_queue_worker False demo_config demo_transport (sd_buff ?s) (sd_conn ?s) (sq_queue ?sq)
      = Ret (Some lg, demo_queue\<lparr>cq_head := []\<rparr>)" "pl_sent lg = [wire ADD demo_host]"
    using client_queue_worker_spec [of demo_queue "replicate 144 0" demo_transport False demo_config] tr
    unfolding returns_iff by (auto simp: sender_start_def REMOTE_COMMAND_SIZE_def demo_transport_def)
  have ended: "ssl_shutdown (tr_shutdown demo_transport) \<noteq> None" by (simp add: demo_transport_def)
  obtain n s' where "sender_run False demo_config take_ok demo_transport n (?s, ?sq) = Ret (s', ?sq\<lparr>sq_queue := demo_queue\<lparr>cq_head := []\<rparr>\<rparr>)"
      "sd_pc s' = At_top" "sd_sent s' = [wire ADD demo_host]"
    using sender_round_is_pass [OF lg(1)] lg(2) ended by (auto simp: sender_start_def)
  then show ?thesis by auto
qed

end
