(* ===== verification/Client_Stop.thy ===== *)
theory Client_Stop
  imports Client
begin

section \<open>Stopping the client while it is used (network/cli/client.c)\<close>

text \<open>
  \<^verbatim>\<open>main\<close> calls \<^verbatim>\<open>client_stop\<close> while the action thread still runs, and nothing in \<^verbatim>\<open>client.c\<close> is protected by a lock.
  Here \<^verbatim>\<open>client_queue_flush\<close> and \<^verbatim>\<open>client_stop\<close> are taken apart into steps over the same static variables: the tests at the
  beginning, one queue per iteration, and the statements after the loop. A schedule says whose turn it is. The
  lemmas show that each alone does what the operation in one piece does; the theorem shows which schedules go wrong.
\<close>

subsection \<open>The two in steps\<close>

datatype flush_pc = Flush_start | Flush_at nat | Flush_free | Flush_done int

datatype stop_pc = Stop_at nat | Stop_vector | Stop_flag | Stop_done

definition flush_next :: "client_env \<Rightarrow> flush_pc \<times> client_st \<Rightarrow> (flush_pc \<times> client_st) outcome" where
  "flush_next e x = (case x of (pc, st) \<Rightarrow> (case pc of
     Flush_start \<Rightarrow>
       c_assert (ce_ndebug e) (cl_fill st \<le> HOSTRECORDVECTORLEN)
         (if \<not> cl_started st then Ret (Flush_done RETVAL_OK, st)
          else if cl_fill st < 1 then Ret (Flush_done RETVAL_OK, st)
          else Ret (Flush_at 0, st))
   | Flush_at i \<Rightarrow>
       (if i < MAXCLIENTQUEUES
        then obind (flush_queue e st i (cl_queues st)) (\<lambda>r. case r of
               Inl qs \<Rightarrow> Ret (Flush_free, st\<lparr>cl_queues := qs\<rparr>)
             | Inr qs \<Rightarrow> Ret (Flush_at (Suc i), st\<lparr>cl_queues := qs\<rparr>))
        else Ret (Flush_free, st))
   | Flush_free \<Rightarrow> obind (flush_end st) (\<lambda>(rv, st'). Ret (Flush_done rv, st'))
   | Flush_done rv \<Rightarrow> Ret (Flush_done rv, st)))"

definition stop_next :: "stop_pc \<times> client_st \<Rightarrow> (stop_pc \<times> client_st) outcome" where
  "stop_next x = (case x of (pc, st) \<Rightarrow> (case pc of
     Stop_at i \<Rightarrow>
       (if i < MAXCLIENTQUEUES
        then obind (stop_queue i (cl_queues st)) (\<lambda>r. case r of
               Inl qs \<Rightarrow> Ret (Stop_vector, st\<lparr>cl_queues := qs\<rparr>)
             | Inr qs \<Rightarrow> Ret (Stop_at (Suc i), st\<lparr>cl_queues := qs\<rparr>))
        else Ret (Stop_vector, st))
   | Stop_vector \<Rightarrow> obind (stop_vector st) (\<lambda>st'. Ret (Stop_flag, st'))
   | Stop_flag \<Rightarrow> Ret (Stop_done, st\<lparr>cl_started := False\<rparr>)
   | Stop_done \<Rightarrow> Ret (Stop_done, st)))"

record race =
  rc_flush :: flush_pc
  rc_stop :: stop_pc
  rc_client :: client_st

datatype turn = Flusher | Stopper

definition race_next :: "client_env \<Rightarrow> turn \<Rightarrow> race \<Rightarrow> race outcome" where
  "race_next e t rc = (case t of
     Flusher \<Rightarrow> obind (flush_next e (rc_flush rc, rc_client rc)) (\<lambda>(pc, st). Ret (rc\<lparr>rc_flush := pc, rc_client := st\<rparr>))
   | Stopper \<Rightarrow> obind (stop_next (rc_stop rc, rc_client rc)) (\<lambda>(pc, st). Ret (rc\<lparr>rc_stop := pc, rc_client := st\<rparr>)))"

fun race_run :: "client_env \<Rightarrow> turn list \<Rightarrow> race \<Rightarrow> race outcome" where
  "race_run e [] rc = Ret rc"
| "race_run e (t # ts) rc = obind (race_next e t rc) (race_run e ts)"

definition race_start :: "client_st \<Rightarrow> race" where
  "race_start st = \<lparr>rc_flush = Flush_start, rc_stop = Stop_at 0, rc_client = st\<rparr>"

lemma race_run_append: "race_run e (as @ bs) rc = obind (race_run e as rc) (race_run e bs)"
proof (induction as arbitrary: rc)
  case (Cons t ts)
  then show ?case by (cases "race_next e t rc") simp_all
qed simp

lemma race_run_snoc: "race_run e (replicate (Suc n) t) rc = obind (race_run e (replicate n t) rc) (race_next e t)"
proof -
  have "replicate (Suc n) t = replicate n t @ [t]" by (simp add: replicate_append_same)
  moreover have "race_run e [t] = race_next e t"
  proof
    show "race_run e [t] rc = race_next e t rc" for rc by (cases "race_next e t rc") simp_all
  qed
  ultimately show ?thesis by (simp only: race_run_append)
qed

subsection \<open>Each alone\<close>

lemma race_same: "rc_flush rc = p \<Longrightarrow> rc\<lparr>rc_flush := p\<rparr> = rc" "rc_stop rc = q \<Longrightarrow> rc\<lparr>rc_stop := q\<rparr> = rc"
  by auto

lemma flush_done_stays: "rc_flush rc = Flush_done rv \<Longrightarrow> race_run e (replicate n Flusher) rc = Ret rc"
  by (induction n) (simp_all add: race_next_def flush_next_def race_same)

lemma stop_done_stays: "rc_stop rc = Stop_done \<Longrightarrow> race_run e (replicate n Stopper) rc = Ret rc"
  by (induction n) (simp_all add: race_next_def stop_next_def race_same)

text \<open>A loop whose iterations are steps: after at most one step more than it has indices left, it is over.\<close>

lemma loop_steps:
  assumes "c_for i N body qs = Ret res" and "i \<le> N"
    and "\<And>i qs r. i < N \<Longrightarrow> body i qs = Ret r \<Longrightarrow>
      race_next e t (f i qs) = Ret (case r of Inl qs' \<Rightarrow> g qs' | Inr qs' \<Rightarrow> f (Suc i) qs')"
    and "\<And>qs. race_next e t (f N qs) = Ret (g qs)"
  shows "\<exists>n. n \<le> Suc (N - i) \<and> race_run e (replicate n t) (f i qs) = Ret (g (case res of Inl qs' \<Rightarrow> qs' | Inr qs' \<Rightarrow> qs'))"
  using assms(1,2)
proof (induction "N - i" arbitrary: i qs)
  case 0
  then have "i = N" by simp
  moreover from this 0 have "res = Inr qs" by simp
  ultimately show ?case using assms(4) [of qs] by (intro exI [of _ 1]) simp
next
  case (Suc k)
  then have i: "i < N" "k = N - Suc i" by simp_all
  obtain r where r: "body i qs = Ret r" "(case r of Inl b \<Rightarrow> Ret (Inl b) | Inr s' \<Rightarrow> c_for (Suc i) N body s') = Ret res"
    using Suc.prems(1) i(1) by (auto simp: c_for_step obind_eq_Ret)
  show ?case
  proof (cases r)
    case (Inl qs')
    with assms(3) [OF i(1) r(1)] r(2) show ?thesis by (intro exI [of _ 1]) auto
  next
    case (Inr qs')
    then have rest: "c_for (Suc i) N body qs' = Ret res" using r(2) by simp
    obtain n where "n \<le> Suc (N - Suc i)" "race_run e (replicate n t) (f (Suc i) qs') = Ret (g (case res of Inl qs' \<Rightarrow> qs' | Inr qs' \<Rightarrow> qs'))"
      using Suc.hyps(1) [OF i(2) rest] i(1) by auto
    with assms(3) [OF i(1) r(1)] Inr i(1) show ?thesis by (intro exI [of _ "Suc n"]) simp
  qed
qed

lemma flush_queue_upd: "flush_queue e (st\<lparr>cl_queues := qs\<rparr>) = flush_queue e st"
  by (rule ext)+ (simp add: flush_queue_def cong: option.case_cong if_cong)

lemma flush_alone:
  assumes "client_queue_flush e (rc_client rc) = Ret (rv, st')" and "rc_flush rc = Flush_start" and "MAXCLIENTQUEUES + 3 \<le> n"
  shows "race_run e (replicate n Flusher) rc = Ret (rc\<lparr>rc_flush := Flush_done rv, rc_client := st'\<rparr>)"
proof -
  let ?st = "rc_client rc" and ?over = "rc\<lparr>rc_flush := Flush_done rv, rc_client := st'\<rparr>"
  have fin: ?thesis if "k \<le> n" "race_run e (replicate k Flusher) rc = Ret ?over" for k
  proof -
    have "replicate n Flusher = replicate k Flusher @ replicate (n - k) Flusher" using that(1) by (simp flip: replicate_add)
    with that(2) show ?thesis by (simp add: race_run_append flush_done_stays)
  qed
  show ?thesis
  proof (cases "cl_started ?st \<and> 1 \<le> cl_fill ?st")
    case False
    with assms have "race_run e (replicate 1 Flusher) rc = Ret ?over"
      by (auto simp: race_next_def flush_next_def client_queue_flush_def c_assert_def split: if_splits)
    then show ?thesis using assms(3) by (intro fin [of 1]) simp_all
  next
    case True
    let ?f = "\<lambda>i qs. rc\<lparr>rc_flush := Flush_at i, rc_client := ?st\<lparr>cl_queues := qs\<rparr>\<rparr>"
    let ?g = "\<lambda>qs. rc\<lparr>rc_flush := Flush_free, rc_client := ?st\<lparr>cl_queues := qs\<rparr>\<rparr>"
    obtain res where res: "c_for 0 MAXCLIENTQUEUES (flush_queue e ?st) (cl_queues ?st) = Ret res"
        "flush_end (?st\<lparr>cl_queues := (case res of Inl qs \<Rightarrow> qs | Inr qs \<Rightarrow> qs)\<rparr>) = Ret (rv, st')"
      and one: "race_next e Flusher rc = Ret (?f 0 (cl_queues ?st))"
      using True assms(1,2)
      by (auto simp: race_next_def flush_next_def client_queue_flush_def c_assert_def obind_eq_Ret split: if_splits)
    have step: "race_next e Flusher (?f i qs) = Ret (case r of Inl qs' \<Rightarrow> ?g qs' | Inr qs' \<Rightarrow> ?f (Suc i) qs')"
      if "i < MAXCLIENTQUEUES" "flush_queue e ?st i qs = Ret r" for i qs r
      using that by (cases r) (simp_all add: race_next_def flush_next_def flush_queue_upd)
    have last: "race_next e Flusher (?f MAXCLIENTQUEUES qs) = Ret (?g qs)" for qs
      by (simp add: race_next_def flush_next_def)
    obtain k where k: "k \<le> Suc MAXCLIENTQUEUES"
        "race_run e (replicate k Flusher) (?f 0 (cl_queues ?st)) = Ret (?g (case res of Inl qs \<Rightarrow> qs | Inr qs \<Rightarrow> qs))" 
      using loop_steps [where f = ?f and g = ?g and e = e and t = Flusher, OF res(1) le0 step last] unfolding diff_zero by blast
    have "race_next e Flusher (?g (case res of Inl qs \<Rightarrow> qs | Inr qs \<Rightarrow> qs)) = Ret ?over"
      using res(2) by (simp add: race_next_def flush_next_def)
    moreover have "race_run e (replicate (Suc k) Flusher) rc = Ret (?g (case res of Inl qs \<Rightarrow> qs | Inr qs \<Rightarrow> qs))"
      using one k(2) by simp
    ultimately have "race_run e (replicate (Suc (Suc k)) Flusher) rc = Ret ?over"
      by (simp only: race_run_snoc obind.simps)
    then show ?thesis using k(1) assms(3) by (intro fin [of "Suc (Suc k)"]) simp_all
  qed
qed

lemma stop_alone:
  assumes "client_stop (rc_client rc) = Ret (rv, st')" and "rc_stop rc = Stop_at 0" and "MAXCLIENTQUEUES + 3 \<le> n"
  shows "race_run e (replicate n Stopper) rc = Ret (rc\<lparr>rc_stop := Stop_done, rc_client := st'\<rparr>)"
proof -
  let ?st = "rc_client rc" and ?over = "rc\<lparr>rc_stop := Stop_done, rc_client := st'\<rparr>"
  let ?f = "\<lambda>i qs. rc\<lparr>rc_stop := Stop_at i, rc_client := ?st\<lparr>cl_queues := qs\<rparr>\<rparr>"
  let ?g = "\<lambda>qs. rc\<lparr>rc_stop := Stop_vector, rc_client := ?st\<lparr>cl_queues := qs\<rparr>\<rparr>"
  obtain res st1 where res: "c_for 0 MAXCLIENTQUEUES stop_queue (cl_queues ?st) = Ret res"
      "stop_vector (?st\<lparr>cl_queues := (case res of Inl qs \<Rightarrow> qs | Inr qs \<Rightarrow> qs)\<rparr>) = Ret st1" "st' = st1\<lparr>cl_started := False\<rparr>"
    using assms(1) by (auto simp: client_stop_def obind_eq_Ret)
  have step: "race_next e Stopper (?f i qs) = Ret (case r of Inl qs' \<Rightarrow> ?g qs' | Inr qs' \<Rightarrow> ?f (Suc i) qs')"
    if "i < MAXCLIENTQUEUES" "stop_queue i qs = Ret r" for i qs r
    using that by (cases r) (simp_all add: race_next_def stop_next_def)
  have last: "race_next e Stopper (?f MAXCLIENTQUEUES qs) = Ret (?g qs)" for qs
    by (simp add: race_next_def stop_next_def)
  obtain k where k: "k \<le> Suc MAXCLIENTQUEUES"
      "race_run e (replicate k Stopper) (?f 0 (cl_queues ?st)) = Ret (?g (case res of Inl qs \<Rightarrow> qs | Inr qs \<Rightarrow> qs))" 
      using loop_steps [where f = ?f and g = ?g and e = e and t = Stopper, OF res(1) le0 step last] unfolding diff_zero by blast
  have "?f 0 (cl_queues ?st) = rc" using assms(2) by (cases rc) simp
  moreover have "race_next e Stopper (?g (case res of Inl qs \<Rightarrow> qs | Inr qs \<Rightarrow> qs)) = Ret (rc\<lparr>rc_stop := Stop_flag, rc_client := st1\<rparr>)"
    "race_next e Stopper (rc\<lparr>rc_stop := Stop_flag, rc_client := st1\<rparr>) = Ret ?over"
    using res(2,3) by (simp_all add: race_next_def stop_next_def)
  ultimately have "race_run e (replicate (Suc (Suc k)) Stopper) rc = Ret ?over"
    using k(2) by (simp only: race_run_snoc obind.simps)
  moreover have "replicate n Stopper = replicate (Suc (Suc k)) Stopper @ replicate (n - Suc (Suc k)) Stopper"
    unfolding replicate_add [symmetric] using k(1) assms(3) by (simp del: replicate_Suc)
  ultimately show ?thesis by (simp only: race_run_append obind.simps) (simp add: stop_done_stays)
qed


subsection \<open>A flush that is overtaken\<close>

text \<open>What the flush has served does not change what is to be served: the client stays in its invariant.\<close>

lemma active_at:
  assumes "i < length (active st)" and "length (cl_queues st) = MAXCLIENTQUEUES"
  shows "i < MAXCLIENTQUEUES" and "cl_queues st ! i = Some (active st ! i)"
proof -
  have i: "i < length (takeWhile (\<lambda>p. p \<noteq> None) (cl_queues st))" using assms(1) by (simp add: active_def)
  then show "i < MAXCLIENTQUEUES" using assms(2) length_takeWhile_le [of "\<lambda>p. p \<noteq> None" "cl_queues st"] by simp
  have "takeWhile (\<lambda>p. p \<noteq> None) (cl_queues st) ! i \<noteq> None" using i nth_mem set_takeWhileD by fastforce
  then show "cl_queues st ! i = Some (active st ! i)" using i by (auto simp: active_def takeWhile_nth)
qed

lemma flush_serves:
  assumes "client_inv st" and "cl_started st" and "1 \<le> cl_fill st" and "client_env_ok e" and "i \<le> length (active st)"
  shows "\<exists>st'. race_run e (replicate (Suc i) Flusher) (race_start st) = Ret \<lparr>rc_flush = Flush_at i, rc_stop = Stop_at 0, rc_client = st'\<rparr>
    \<and> client_inv st' \<and> cl_started st' \<and> cl_fill st' = cl_fill st \<and> length (active st') = length (active st)"
  using assms(5)
proof (induction i)
  case 0
  have "cl_fill st \<le> HOSTRECORDVECTORLEN" using assms(1) by (simp add: client_inv_def)
  with assms show ?case by (simp add: race_start_def race_next_def flush_next_def c_assert_def)
next
  case (Suc i)
  then obtain st' where st': "race_run e (replicate (Suc i) Flusher) (race_start st) = Ret \<lparr>rc_flush = Flush_at i, rc_stop = Stop_at 0, rc_client = st'\<rparr>"
      "client_inv st'" "cl_started st'" "cl_fill st' = cl_fill st" "length (active st') = length (active st)" by auto
  let ?q = "active st' ! i"
  have i: "i < length (active st')" using Suc.prems st'(5) by simp
  have len: "length (cl_queues st') = MAXCLIENTQUEUES" and fill: "length (pending st') = cl_fill st'"
    and snd: "\<forall>r \<in> set (pending st'). sendable r" "\<not> cl_temp_freed st'" "\<not> cq_freed ?q"
    using st'(2,3) nth_mem [OF i] by (auto simp: client_inv_def)
  note q = active_at [OF i len]
  let ?q' = "?q\<lparr>cq_head := cq_head ?q @ pending st'\<rparr>" and ?qs = "(cl_queues st')[i := Some (?q\<lparr>cq_head := cq_head ?q @ pending st'\<rparr>)]"
  have "client_queue_append (ce_append e i) (pending st') (cl_fill st') ?q = Ret (RETVAL_OK, ?q')"
    using client_queue_append_spec [of "ce_append e i" "cl_fill st'" "pending st'" ?q] assms(3,4) fill snd st'(4)
    by (simp add: client_env_ok_def)
  then have "race_next e Flusher \<lparr>rc_flush = Flush_at i, rc_stop = Stop_at 0, rc_client = st'\<rparr>
      = Ret \<lparr>rc_flush = Flush_at (Suc i), rc_stop = Stop_at 0, rc_client = st'\<lparr>cl_queues := ?qs\<rparr>\<rparr>"
    using q len snd(2) by (simp add: race_next_def flush_next_def flush_queue_def pending_def)
  with st'(1) have run: "race_run e (replicate (Suc (Suc i)) Flusher) (race_start st)
      = Ret \<lparr>rc_flush = Flush_at (Suc i), rc_stop = Stop_at 0, rc_client = st'\<lparr>cl_queues := ?qs\<rparr>\<rparr>"
    by (simp only: race_run_snoc obind.simps)
  have act: "active (st'\<lparr>cl_queues := ?qs\<rparr>) = (active st')[i := ?q']"
    unfolding active_def using q len by (simp add: takeWhile_upd_Some [OF q(2)] map_update active_def del: not_None_eq)
  have mem: "q'' = ?q' \<or> q'' \<in> set (active st')" if "q'' \<in> set ((active st')[i := ?q'])" for q''
    using that set_update_subset_insert [of "active st'" i ?q'] by blast
  have "\<forall>r \<in> set (cq_head ?q'). sendable r" using st'(2) nth_mem [OF i] snd(1) by (auto simp: client_inv_def)
  moreover have "\<forall>q \<in> set (active st'). (\<forall>r \<in> set (cq_head q). sendable r) \<and> \<not> cq_freed q"
    using st'(2,3) by (simp add: client_inv_def)
  moreover have "\<not> cq_freed ?q'" using snd(3) by simp
  ultimately have served: "\<forall>q \<in> set ((active st')[i := ?q']). (\<forall>r \<in> set (cq_head q). sendable r) \<and> \<not> cq_freed q"
    using mem by metis
  have "client_inv (st'\<lparr>cl_queues := ?qs\<rparr>)"
    using st'(2,3) served len unfolding client_inv_def act by (simp add: pending_def)
  with run st'(3-5) act show ?case by simp
qed

text \<open>However far \<^verbatim>\<open>client_stop\<close> has come, the queues it has passed are gone, and the pointers to them are still there.\<close>

definition stopping :: "client_st \<Rightarrow> nat \<Rightarrow> race \<Rightarrow> bool" where
  "stopping st m rc \<longleftrightarrow> (let qs = cl_queues (rc_client rc); a = length (active st) in
     length qs = MAXCLIENTQUEUES \<and> cl_fill (rc_client rc) = cl_fill st
     \<and> (case rc_stop rc of
          Stop_at n \<Rightarrow> n = m \<and> n \<le> a \<and> (\<forall>j \<ge> n. qs ! j = cl_queues st ! j) \<and> (\<forall>j < n. \<exists>q. qs ! j = Some q \<and> cq_freed q)
            \<and> \<not> cl_temp_freed (rc_client rc)
        | Stop_vector \<Rightarrow> (\<forall>j < a. \<exists>q. qs ! j = Some q \<and> cq_freed q) \<and> \<not> cl_temp_freed (rc_client rc)
        | _ \<Rightarrow> \<forall>j < a. \<exists>q. qs ! j = Some q \<and> cq_freed q))"

lemma active_end:
  assumes "length (cl_queues st) = MAXCLIENTQUEUES" and "length (active st) < MAXCLIENTQUEUES"
  shows "cl_queues st ! length (active st) = None"
  using assms nth_length_takeWhile [of "\<lambda>p. p \<noteq> None" "cl_queues st"] by (simp add: active_def)

lemma stop_step:
  assumes st: "client_inv st" "cl_started st" and s: "stopping st m rc"
  shows "\<exists>rc'. race_next e Stopper rc = Ret rc' \<and> stopping st (Suc m) rc' \<and> rc_flush rc' = rc_flush rc"
proof -
  have len: "length (cl_queues st) = MAXCLIENTQUEUES" and live: "\<forall>q \<in> set (active st). \<not> cq_freed q"
    using st by (auto simp: client_inv_def)
  let ?a = "length (active st)"
  show ?thesis
  proof (cases "rc_stop rc")
    case (Stop_at n)
    let ?cl = "rc_client rc"
    have n: "n = m" "n \<le> ?a" "length (cl_queues ?cl) = MAXCLIENTQUEUES" "\<forall>j \<ge> n. cl_queues ?cl ! j = cl_queues st ! j"
        "\<forall>j < n. \<exists>q. cl_queues ?cl ! j = Some q \<and> cq_freed q" "\<not> cl_temp_freed ?cl" "cl_fill ?cl = cl_fill st"
      using s Stop_at by (auto simp: stopping_def Let_def)
    show ?thesis
    proof (cases "n = ?a")
      case True
      then have "race_next e Stopper rc = Ret (rc\<lparr>rc_stop := Stop_vector\<rparr>)"
        using Stop_at n active_end [OF len] by (auto simp: race_next_def stop_next_def stop_queue_def)
      with n True show ?thesis by (simp add: stopping_def Let_def)
    next
      case False
      then have lt: "n < ?a" using n(2) by simp
      note q = active_at [OF lt len]
      have "race_next e Stopper rc = Ret (rc\<lparr>rc_stop := Stop_at (Suc n),
          rc_client := ?cl\<lparr>cl_queues := (cl_queues ?cl)[n := Some (destroyed (active st ! n))]\<rparr>\<rparr>)"
        using Stop_at n q live nth_mem [OF lt]
        by (simp add: race_next_def stop_next_def stop_queue_def client_queue_destroy_Ret)
      with n lt q show ?thesis
        by (auto simp: stopping_def Let_def nth_list_update less_Suc_eq destroyed_def)
    qed
  qed (use s in \<open>auto simp: stopping_def Let_def race_next_def stop_next_def stop_vector_def\<close>)
qed

lemma stop_steps:
  assumes "client_inv st" and "cl_started st"
  shows "\<exists>rc. race_run e (replicate m Stopper) \<lparr>rc_flush = pc, rc_stop = Stop_at 0, rc_client = st\<rparr> = Ret rc
    \<and> stopping st m rc \<and> rc_flush rc = pc"
proof (induction m)
  case 0
  with assms show ?case by (auto simp: stopping_def Let_def client_inv_def)
next
  case (Suc m)
  then obtain rc where "race_run e (replicate m Stopper) \<lparr>rc_flush = pc, rc_stop = Stop_at 0, rc_client = st\<rparr> = Ret rc"
      "stopping st m rc" "rc_flush rc = pc" by blast
  with stop_step [OF assms, of m rc e] show ?case by (auto simp only: race_run_snoc obind.simps)
qed

lemma stopping_freed: "stopping st m rc \<Longrightarrow> i < length (active st) \<Longrightarrow> i < m \<Longrightarrow> \<exists>q. cl_queues (rc_client rc) ! i = Some q \<and> cq_freed q"
  by (auto simp: stopping_def Let_def split: stop_pc.splits)

subsection \<open>Properties\<close>

text \<open>
  C39. \<^verbatim>\<open>main\<close> stops the client while the action thread still runs, without a lock. If one of the two has returned
  before the other begins, all is well. But once the flush has passed its test of \<^verbatim>\<open>client_started\<close> and served \<open>i\<close> queues,
  every call of \<^verbatim>\<open>client_stop\<close> that destroys queue \<open>i\<close> before the flush takes its next turn makes it lock and extend a queue
  that has been freed.
\<close>

theorem client_stop_race:
  assumes "client_inv st" and "cl_started st" and "1 \<le> cl_fill st" and "client_env_ok e" and "i < length (active st)" and "i < m"
    and "MAXCLIENTQUEUES + 3 \<le> n"
  shows "race_run e (replicate (Suc i) Flusher @ replicate m Stopper @ [Flusher]) (race_start st) = Undef
    \<and> returns (race_run e (replicate n Flusher @ replicate n Stopper) (race_start st))
        (\<lambda>rc. rc_flush rc = Flush_done RETVAL_OK \<and> rc_stop rc = Stop_done \<and> \<not> cl_started (rc_client rc))
    \<and> returns (race_run e (replicate n Stopper @ replicate n Flusher) (race_start st))
        (\<lambda>rc. rc_flush rc = Flush_done RETVAL_OK \<and> rc_stop rc = Stop_done \<and> \<not> cl_started (rc_client rc))"
proof (intro conjI)
  obtain st1 where f: "race_run e (replicate (Suc i) Flusher) (race_start st) = Ret \<lparr>rc_flush = Flush_at i, rc_stop = Stop_at 0, rc_client = st1\<rparr>"
      "client_inv st1" "cl_started st1" "cl_fill st1 = cl_fill st" "length (active st1) = length (active st)"
    using flush_serves [OF assms(1-4), of i] assms(5) by auto
  obtain rc where s: "race_run e (replicate m Stopper) \<lparr>rc_flush = Flush_at i, rc_stop = Stop_at 0, rc_client = st1\<rparr> = Ret rc"
      "stopping st1 m rc" "rc_flush rc = Flush_at i" using stop_steps [OF f(2,3)] by blast
  have i: "i < length (active st1)" "i < MAXCLIENTQUEUES" "length (cl_queues (rc_client rc)) = MAXCLIENTQUEUES" "cl_fill (rc_client rc) = cl_fill st"
    using f assms(5) active_at(1) [of i st1] s(2) by (auto simp: client_inv_def stopping_def Let_def)
  obtain q where q: "cl_queues (rc_client rc) ! i = Some q" "cq_freed q" using stopping_freed [OF s(2) i(1) assms(6)] by blast
  have "race_next e Flusher rc = Undef"
    using s(3) i(2-4) q assms(3) by (simp add: race_next_def flush_next_def flush_queue_def client_queue_append_def c_assert_def)
  with f(1) s(1) show "race_run e (replicate (Suc i) Flusher @ replicate m Stopper @ [Flusher]) (race_start st) = Undef"
    by (simp only: race_run_append obind.simps race_run.simps)
next
  let ?rc = "race_start st"
  obtain st1 where f: "client_queue_flush e st = Ret (RETVAL_OK, st1)" "client_inv st1" "cl_started st1"
    using client_queue_flush_spec [OF assms(1,4,2)] unfolding returns_iff by auto
  obtain st2 where s: "client_stop st1 = Ret (RETVAL_OK, st2)" "\<not> cl_started st2"
    using client_stop_spec [OF f(2) client_inv_live [OF f(2,3)]] unfolding returns_iff by auto
  have "race_run e (replicate n Flusher) ?rc = Ret (?rc\<lparr>rc_flush := Flush_done RETVAL_OK, rc_client := st1\<rparr>)"
    by (rule flush_alone) (use f(1) assms(7) in \<open>simp_all add: race_start_def\<close>)
  moreover have "race_run e (replicate n Stopper) (?rc\<lparr>rc_flush := Flush_done RETVAL_OK, rc_client := st1\<rparr>)
      = Ret (?rc\<lparr>rc_flush := Flush_done RETVAL_OK, rc_client := st1\<rparr>\<lparr>rc_stop := Stop_done, rc_client := st2\<rparr>)"
    by (rule stop_alone) (use s(1) assms(7) in \<open>simp_all add: race_start_def\<close>)
  ultimately show "returns (race_run e (replicate n Flusher @ replicate n Stopper) ?rc)
      (\<lambda>rc. rc_flush rc = Flush_done RETVAL_OK \<and> rc_stop rc = Stop_done \<and> \<not> cl_started (rc_client rc))"
    using s(2) by (simp add: race_run_append)
next
  let ?rc = "race_start st"
  obtain st1 where s: "client_stop st = Ret (RETVAL_OK, st1)" "client_inv st1" "\<not> cl_started st1"
    using client_stop_spec [OF assms(1) client_inv_live [OF assms(1,2)]] unfolding returns_iff by auto
  then have f: "client_queue_flush e st1 = Ret (RETVAL_OK, st1)" by (simp add: client_queue_flush_def client_inv_def c_assert_def)
  have "race_run e (replicate n Stopper) ?rc = Ret (?rc\<lparr>rc_stop := Stop_done, rc_client := st1\<rparr>)"
    by (rule stop_alone) (use s(1) assms(7) in \<open>simp_all add: race_start_def\<close>)
  moreover have "race_run e (replicate n Flusher) (?rc\<lparr>rc_stop := Stop_done, rc_client := st1\<rparr>)
      = Ret (?rc\<lparr>rc_stop := Stop_done, rc_client := st1\<rparr>\<lparr>rc_flush := Flush_done RETVAL_OK, rc_client := st1\<rparr>)"
    by (rule flush_alone) (use f assms(7) in \<open>simp_all add: race_start_def\<close>)
  ultimately show "returns (race_run e (replicate n Stopper @ replicate n Flusher) ?rc)
      (\<lambda>rc. rc_flush rc = Flush_done RETVAL_OK \<and> rc_stop rc = Stop_done \<and> \<not> cl_started (rc_client rc))"
    using s(3) by (simp add: race_run_append)
qed

theorem client_stop_race_witness:
  "\<exists>st. client_queue_record calm_client demo_host demo_client = Ret (RETVAL_OK, st)
     \<and> race_run calm_client [Flusher, Stopper, Flusher] (race_start st) = Undef"
proof -
  have "cl_fill demo_client < HOSTRECORDVECTORLEN" by (simp add: demo_client_def HOSTRECORDVECTORLEN_def)
  then obtain st where st: "client_queue_record calm_client demo_host demo_client = Ret (RETVAL_OK, st)" "client_inv st" "cl_started st"
      "pending st = pending demo_client @ [demo_host]" "active st = active demo_client"
    using client_queue_record_room [of demo_client calm_client demo_host] unfolding returns_iff by auto
  have "active demo_client = [demo_queue]" "pending demo_client = []"
    by (simp_all add: demo_client_def active_def pending_def takeWhile_eq_Nil_iff)
  moreover from st(2,4) have "1 \<le> cl_fill st" by (auto simp: client_inv_def)
  ultimately have "race_run calm_client (replicate (Suc 0) Flusher @ replicate 1 Stopper @ [Flusher]) (race_start st) = Undef"
    using client_stop_race [OF st(2,3), of calm_client 0 1 "MAXCLIENTQUEUES + 3"] st(5) by simp
  with st(1) show ?thesis by (intro exI [of _ st]) simp
qed

end
