(* ===== verification/Shutdown.thy ===== *)
theory Shutdown
  imports Program
begin

section \<open>The passes slot by slot, and the way they are stopped\<close>

text \<open>
  The action and the maintenance thread hold \<^verbatim>\<open>vector_mutex\<close> while they walk the table, and they run the script
  under it. \<^verbatim>\<open>main\<close> stops them with \<^verbatim>\<open>pthread_cancel\<close> and \<^verbatim>\<open>pthread_join\<close>. This theory takes the passes apart:
  a thread waits for the mutex, handles one slot at a time, and can be cancelled where POSIX makes a
  call a cancellation point: in \<^verbatim>\<open>nanosleep\<close> and \<^verbatim>\<open>pthread_testcancel\<close> between two passes, and in \<^verbatim>\<open>system\<close> in the middle
  of one; \<^verbatim>\<open>pthread_mutex_lock\<close> is none. No cleanup handler is installed, so a thread that is cancelled in \<^verbatim>\<open>system\<close>
  takes the mutex with it. All other threads take their turns in between.
\<close>

subsection \<open>A pass in pieces\<close>

text \<open>
  Where a thread is: between two passes, at the lock, in the loop at a slot, or in the loop after the script for
  that slot has run, but before the record is marked (\<open>Acted\<close>) or freed (\<open>Called\<close>); in the last part of the
  maintenance; or past the unlock, about to flush. Each place carries what the operating system will answer.
\<close>

datatype pass_pc =
    Outside
  | Waiting
  | Walk action_env nat
  | Acted action_env nat
  | Purge action_env nat
  | Called action_env nat
  | Shrink action_env
  | Flush action_env

fun holds :: "pass_pc \<Rightarrow> bool" where
  "holds Outside = False"
| "holds Waiting = False"
| "holds (Flush e) = False"
| "holds _ = True"

text \<open>The loop of \<^verbatim>\<open>_records_enumerate\<close> with \<^verbatim>\<open>_records_callback_action_new\<close>, up to the return of \<^verbatim>\<open>_do_action\<close>.\<close>

definition action_slot ::
  "action_env \<Rightarrow> config \<Rightarrow> nat \<Rightarrow> records_st \<times> action_st \<Rightarrow> (pass_pc \<times> records_st \<times> action_st) outcome" where
  "action_slot e CONFIG i sts = (case sts of (st, s) \<Rightarrow>
     if i < hr_vector_fill st
     then obind (read_at (hr_vector st) i) (\<lambda>p. case p of
         None \<Rightarrow> Ret (Walk e (Suc i), st, s)
       | Some r \<Rightarrow>
           if hr_action_threshold r <=s hr_occurrences r \<and> hr_processed r = 0
           then obind (do_action e CONFIG AC_NEW r s) (\<lambda>s'. Ret (Acted e i, st, s'))
           else obind (records_callback_action_new e CONFIG r s) (\<lambda>(rv, r', s').
                  Ret (if rv \<noteq> 0 then Flush e else Walk e (Suc i), st\<lparr>hr_vector := (hr_vector st)[i := Some r']\<rparr>, s')))
     else Ret (Flush e, st, s))"

text \<open>The rest of the callback: the record is marked as processed.\<close>

definition action_mark ::
  "action_env \<Rightarrow> nat \<Rightarrow> records_st \<times> action_st \<Rightarrow> (pass_pc \<times> records_st \<times> action_st) outcome" where
  "action_mark e i sts = (case sts of (st, s) \<Rightarrow>
     obind (read_at (hr_vector st) i) (\<lambda>p. case p of
       None \<Rightarrow> Undef
     | Some r \<Rightarrow> Ret (Walk e (Suc i), st\<lparr>hr_vector := (hr_vector st)[i := Some (r\<lparr>hr_processed := 1\<rparr>)]\<rparr>, s)))"

text \<open>The first loop of \<^verbatim>\<open>records_maintenance\<close>, up to the return of the callback, and from there on.\<close>

definition purge_slot ::
  "action_env \<Rightarrow> config \<Rightarrow> nat \<Rightarrow> records_st \<times> action_st \<Rightarrow> (pass_pc \<times> records_st \<times> action_st) outcome" where
  "purge_slot e CONFIG i sts = (case sts of (st, s) \<Rightarrow>
     if i < hr_vector_size st
     then obind (read_at (hr_vector st) i) (\<lambda>p. case p of
         None \<Rightarrow> Ret (Purge e (Suc i), st, s)
       | Some r \<Rightarrow>
           if hr_remove r \<noteq> 0
           then obind (threads_records_callback_action_removal e CONFIG r s) (\<lambda>s'. Ret (Called e i, st, s'))
           else Ret (Purge e (Suc i), st, s))
     else Ret (Shrink e, st, s))"

definition purge_free ::
  "action_env \<Rightarrow> nat \<Rightarrow> records_st \<times> action_st \<Rightarrow> (pass_pc \<times> records_st \<times> action_st) outcome" where
  "purge_free e i sts = (case sts of (st, s) \<Rightarrow>
     Ret (Purge e (Suc i), st\<lparr>hr_vector := (hr_vector st)[i := None]\<rparr>, s))"

definition action_flush :: "action_env \<Rightarrow> config \<Rightarrow> action_st \<Rightarrow> action_st outcome" where
  "action_flush e CONFIG s =
     (if cfg_inform CONFIG = 1 \<and> cfg_inform_agents CONFIG \<noteq> []
      then obind (client_queue_flush (act_client e) (as_client s)) (\<lambda>(rv, cl). Ret (s\<lparr>as_client := cl\<rparr>))
      else Ret s)"

text \<open>One step of a thread from where it is.\<close>

definition pass_next :: "config \<Rightarrow> pass_pc \<Rightarrow> records_st \<times> action_st \<Rightarrow> (pass_pc \<times> records_st \<times> action_st) outcome" where
  "pass_next CONFIG p sts = (case p of
     Walk e i \<Rightarrow> action_slot e CONFIG i sts
   | Acted e i \<Rightarrow> action_mark e i sts
   | Purge e i \<Rightarrow> purge_slot e CONFIG i sts
   | Called e i \<Rightarrow> purge_free e i sts
   | Shrink e \<Rightarrow> (case sts of (st, s) \<Rightarrow> obind (records_shrink (act_sys e) st) (\<lambda>(rv, st'). Ret (Outside, st', s)))
   | Flush e \<Rightarrow> (case sts of (st, s) \<Rightarrow> obind (action_flush e CONFIG s) (\<lambda>s'. Ret (Outside, st, s')))
   | _ \<Rightarrow> Ret (p, sts))"

definition first_pc :: "thread \<Rightarrow> action_env \<Rightarrow> pass_pc" where
  "first_pc t e = (if t = Action_thread then Walk e 0 else Purge e 0)"

subsection \<open>The threads together\<close>

text \<open>
  What \<^verbatim>\<open>main\<close> still has to do in \<^verbatim>\<open>threads_stop\<close>: \<open>None\<close> while it follows the log. A thread that has ended keeps the
  place where it was cancelled.
\<close>

datatype stop_call = Cancel thread | Join thread

definition stop_calls :: "config \<Rightarrow> stop_call list" where
  "stop_calls CONFIG =
     (if cfg_server CONFIG \<noteq> 0 then [Cancel Server_thread, Join Server_thread] else [])
     @ [Cancel Maintenance_thread, Join Maintenance_thread, Cancel Action_thread, Join Action_thread]"

record agent =
  ag_daemon :: daemon
  ag_owner :: "thread option"
  ag_pc :: "thread \<Rightarrow> pass_pc"
  ag_cancel :: "thread \<Rightarrow> bool"
  ag_ended :: "thread \<Rightarrow> bool"
  ag_main :: "stop_call list option"

text \<open>Asleep between two passes, or waiting for the script.\<close>

definition cancel_point :: "records_st \<Rightarrow> pass_pc \<Rightarrow> bool" where
  "cancel_point st p = (case p of
     Outside \<Rightarrow> True
   | Acted e i \<Rightarrow> True
   | Called e i \<Rightarrow> (case hr_vector st ! i of None \<Rightarrow> False | Some r \<Rightarrow> hr_processed r \<noteq> 0)
   | _ \<Rightarrow> False)"

abbreviation ag_table :: "agent \<Rightarrow> records_st \<times> action_st" where
  "ag_table \<sigma> \<equiv> (d_records (ag_daemon \<sigma>), d_action (ag_daemon \<sigma>))"

definition moved :: "thread \<Rightarrow> pass_pc \<Rightarrow> records_st \<Rightarrow> action_st \<Rightarrow> agent \<Rightarrow> agent" where
  "moved t p st s \<sigma> = \<sigma>\<lparr>ag_daemon := (ag_daemon \<sigma>)\<lparr>d_records := st, d_action := s\<rparr>, ag_pc := (ag_pc \<sigma>)(t := p)\<rparr>"

text \<open>
  A section of another thread (a line of the log, a record of a remote agent, the marking behind \<^verbatim>\<open>SIGUSR2\<close>, work on
  the exclusion list or on a queue) runs no script; it waits for the mutex unless it leaves the table alone.
\<close>

inductive agent_step :: "daemon_ext \<Rightarrow> agent \<Rightarrow> agent \<Rightarrow> bool" for x where
  come: "t \<noteq> Server_thread \<Longrightarrow> \<not> ag_ended \<sigma> t \<Longrightarrow> ag_pc \<sigma> t = Outside \<Longrightarrow>
     agent_step x \<sigma> (\<sigma>\<lparr>ag_pc := (ag_pc \<sigma>)(t := Waiting)\<rparr>)"
| lock: "\<not> ag_ended \<sigma> t \<Longrightarrow> ag_pc \<sigma> t = Waiting \<Longrightarrow> ag_owner \<sigma> = None \<Longrightarrow> action_ok e (dx_config x) \<Longrightarrow>
     agent_step x \<sigma> (\<sigma>\<lparr>ag_owner := Some t, ag_pc := (ag_pc \<sigma>)(t := first_pc t e)\<rparr>)"
| inside: "\<not> ag_ended \<sigma> t \<Longrightarrow> holds (ag_pc \<sigma> t) \<Longrightarrow> pass_next (dx_config x) (ag_pc \<sigma> t) (ag_table \<sigma>) = Ret (p, st, s) \<Longrightarrow>
     agent_step x \<sigma> ((moved t p st s \<sigma>)\<lparr>ag_owner := if holds p then Some t else None\<rparr>)"
| flush: "\<not> ag_ended \<sigma> t \<Longrightarrow> ag_pc \<sigma> t = Flush e \<Longrightarrow> pass_next (dx_config x) (Flush e) (ag_table \<sigma>) = Ret (p, st, s) \<Longrightarrow>
     agent_step x \<sigma> (moved t p st s \<sigma>)"
| section_of_other: "daemon_step x (ag_daemon \<sigma>) d' \<Longrightarrow> as_log (d_action d') = as_log (d_action (ag_daemon \<sigma>)) \<Longrightarrow>
     ag_owner \<sigma> = None \<or> d_records d' = d_records (ag_daemon \<sigma>) \<Longrightarrow> agent_step x \<sigma> (\<sigma>\<lparr>ag_daemon := d'\<rparr>)"
| server_ends: "agent_step x \<sigma> (\<sigma>\<lparr>ag_ended := (ag_ended \<sigma>)(Server_thread := True)\<rparr>)"
| leave_follow: "ag_main \<sigma> = None \<Longrightarrow> agent_step x \<sigma> (\<sigma>\<lparr>ag_main := Some (stop_calls (dx_config x))\<rparr>)"
| cancel: "ag_main \<sigma> = Some (Cancel t # cs) \<Longrightarrow>
     agent_step x \<sigma> (\<sigma>\<lparr>ag_main := Some cs, ag_cancel := (ag_cancel \<sigma>)(t := True)\<rparr>)"
| join: "ag_main \<sigma> = Some (Join t # cs) \<Longrightarrow> ag_ended \<sigma> t \<Longrightarrow> agent_step x \<sigma> (\<sigma>\<lparr>ag_main := Some cs\<rparr>)"
| die: "ag_cancel \<sigma> t \<Longrightarrow> \<not> ag_ended \<sigma> t \<Longrightarrow> cancel_point (d_records (ag_daemon \<sigma>)) (ag_pc \<sigma> t) \<Longrightarrow>
     agent_step x \<sigma> (\<sigma>\<lparr>ag_ended := (ag_ended \<sigma>)(t := True)\<rparr>)"

abbreviation agent_steps :: "daemon_ext \<Rightarrow> agent \<Rightarrow> agent \<Rightarrow> bool" where
  "agent_steps x \<equiv> (agent_step x)\<^sup>*\<^sup>*"

definition agent_start :: "daemon \<Rightarrow> agent" where
  "agent_start d = \<lparr>ag_daemon = d, ag_owner = None, ag_pc = (\<lambda>_. Outside), ag_cancel = (\<lambda>_. False), ag_ended = (\<lambda>_. False),
     ag_main = None\<rparr>"

subsection \<open>The books while a record is in hand\<close>

text \<open>
  Between the script and the mark, or the script and the \<^verbatim>\<open>free\<close>, one run of the script is not yet accounted for in
  the table.
\<close>

definition half_done :: "records_st \<Rightarrow> pass_pc \<Rightarrow> (ac_type \<times> string) option" where
  "half_done st p = (case p of
     Acted e i \<Rightarrow> (case hr_vector st ! i of None \<Rightarrow> None | Some r \<Rightarrow> Some (AC_NEW, ip_of r))
   | Called e i \<Rightarrow> (case hr_vector st ! i of None \<Rightarrow> None | Some r \<Rightarrow> if hr_processed r \<noteq> 0 then Some (AC_REMOVE, ip_of r) else None)
   | _ \<Rightarrow> None)"

definition in_hand :: "agent \<Rightarrow> (ac_type \<times> string) option" where
  "in_hand \<sigma> = (case ag_owner \<sigma> of None \<Rightarrow> None | Some t \<Rightarrow> half_done (d_records (ag_daemon \<sigma>)) (ag_pc \<sigma> t))"

definition books :: "records_st \<Rightarrow> action_st \<Rightarrow> (ac_type \<times> string) option \<Rightarrow> bool" where
  "books st s h \<longleftrightarrow> (\<forall>ip. runs AC_NEW ip (as_log s) + (if h = Some (AC_REMOVE, ip) then 1 else 0) =
     runs AC_REMOVE ip (as_log s) + in_effect (records_map st ip) + (if h = Some (AC_NEW, ip) then 1 else 0))"

lemma books_None: "books st s None \<longleftrightarrow> balanced st s"
  by (simp add: books_def balanced_def)

text \<open>What a thread can rely on at each place, and which thread can be there.\<close>

definition pc_ok :: "config \<Rightarrow> records_st \<Rightarrow> pass_pc \<Rightarrow> bool" where
  "pc_ok CONFIG st p = (case p of
     Outside \<Rightarrow> True
   | Waiting \<Rightarrow> True
   | Walk e i \<Rightarrow> action_ok e CONFIG
   | Acted e i \<Rightarrow> action_ok e CONFIG \<and> i < hr_vector_fill st \<and> (\<exists>r. hr_vector st ! i = Some r \<and> due r)
   | Purge e i \<Rightarrow> action_ok e CONFIG \<and> i \<le> hr_vector_size st \<and> (\<forall>j < i. keep_record (hr_vector st ! j) = hr_vector st ! j)
   | Called e i \<Rightarrow> action_ok e CONFIG \<and> i < hr_vector_size st \<and> (\<exists>r. hr_vector st ! i = Some r \<and> hr_remove r \<noteq> 0)
       \<and> (\<forall>j < i. keep_record (hr_vector st ! j) = hr_vector st ! j)
   | Shrink e \<Rightarrow> action_ok e CONFIG \<and> map keep_record (hr_vector st) = hr_vector st
   | Flush e \<Rightarrow> action_ok e CONFIG)"

definition runs_by :: "thread \<Rightarrow> pass_pc \<Rightarrow> bool" where
  "runs_by t p = (case p of
     Outside \<Rightarrow> True
   | Waiting \<Rightarrow> t \<noteq> Server_thread
   | Walk e i \<Rightarrow> t = Action_thread
   | Acted e i \<Rightarrow> t = Action_thread
   | Flush e \<Rightarrow> t = Action_thread
   | _ \<Rightarrow> t = Maintenance_thread)"

lemmas pc_defs = pc_ok_def runs_by_def half_done_def

definition pass_ok :: "daemon_ext \<Rightarrow> daemon \<Rightarrow> pass_pc \<Rightarrow> pass_pc \<times> records_st \<times> action_st \<Rightarrow> bool" where
  "pass_ok x d p r = (case r of (p', st', s') \<Rightarrow> daemon_wf (d\<lparr>d_records := st', d_action := s'\<rparr>)
     \<and> pc_ok (dx_config x) st' p' \<and> (\<forall>t. runs_by t p \<longrightarrow> runs_by t p')
     \<and> (books (d_records d) (d_action d) (half_done (d_records d) p) \<longrightarrow> books st' s' (half_done st' p')))"

lemma slot_fill:
  assumes "records_inv st" and "i < hr_vector_size st" and "hr_vector st ! i = Some r"
  shows "i < hr_vector_fill st" and "Some r \<in> set (hr_vector st)" and "wf_hostrecord r" and "records_map st (ip_of r) = Some r"
proof -
  note d = records_invD [OF assms(1)]
  show "i < hr_vector_fill st" using vec_ok_above [OF d(4), of i] assms(2,3) by (metis option.distinct(1) not_le)
  show s: "Some r \<in> set (hr_vector st)" using assms(2,3) d(2) by (metis nth_mem)
  then show "wf_hostrecord r" by (rule d(5))
  from s show "records_map st (ip_of r) = Some r" using assms(1) by (simp add: records_map_Some)
qed

lemma runs_event: "runs t ip [event_of CONFIG t' r] = (if t = t' \<and> ip_of r = ip then 1 else 0)"
  by (auto simp: runs_def event_of_def)

text \<open>The loop of the action thread.\<close>

lemma action_slot_step:
  assumes d: "daemon_wf d" and p: "pc_ok (dx_config x) (d_records d) (Walk e i)"
  shows "returns (pass_next (dx_config x) (Walk e i) (d_records d, d_action d)) (pass_ok x d (Walk e i))"
proof -
  let ?st = "d_records d" and ?s = "d_action d" and ?c = "dx_config x"
  have e: "action_ok e ?c" and inv: "records_inv ?st" and ai: "action_inv ?s" using assms by (auto simp: pc_ok_def daemon_wf_def)
  note I = records_invD [OF inv]
  show ?thesis
  proof (cases "i < hr_vector_fill ?st")
    case False
    with d e show ?thesis by (simp add: pass_next_def action_slot_def pass_ok_def pc_defs)
  next
    case i: True
    then have rd: "read_at (hr_vector ?st) i = Ret (hr_vector ?st ! i)" and le: "i < hr_vector_size ?st" using I(2,3) by (simp_all add: read_at_def)
    show ?thesis
    proof (cases "hr_vector ?st ! i")
      case None
      with d e i rd show ?thesis by (simp add: pass_next_def action_slot_def pass_ok_def pc_defs)
    next
      case (Some r)
      note sl = slot_fill [OF inv le Some]
      show ?thesis
      proof (cases "due r")
        case True
        have "relayed ?c r \<longrightarrow> sendable r"
          using daemon_wf_actionable [OF d sl(2), of ?c] sl(3) by (simp add: actionable_def sendable_def)
        from do_action_new [OF e sl(3) this ai]
        obtain s' where s': "do_action e ?c AC_NEW r ?s = Ret s'" "action_inv s'" "as_log s' = as_log ?s @ [event_of ?c AC_NEW r]"
          unfolding returns_iff by blast
        have "books ?st s' (Some (AC_NEW, ip_of r))" if "balanced ?st ?s"
          using that s'(3) by (auto simp: books_def balanced_def runs_event)
        with True Some d e i rd s' show ?thesis
          by (simp add: pass_next_def action_slot_def pass_ok_def pc_defs due_def books_None daemon_wf_def)
      next
        case False
        have cb: "records_callback_action_new e ?c r ?s = Ret (0, acted (now (act_sys e)) r, ?s)"
          using False by (auto simp: records_callback_action_new_def acted_def due_def stale_def)
        let ?r = "acted (now (act_sys e)) r"
        note rp = records_replace [OF inv i Some, of ?r, unfolded acted_keeps, OF sl(3) refl]
        have "in_effect (Some ?r) = in_effect (Some r)" using False by (simp add: acted_def in_effect_def)
        then have "balanced (?st\<lparr>hr_vector := (hr_vector ?st)[i := Some ?r]\<rparr>) ?s" if "balanced ?st ?s"
          using balanced_upd [OF that rp(2)] sl(4) by simp
        moreover have "2 < length (ip_of r)" using d sl(4) by (auto simp: daemon_wf_def)
        ultimately show ?thesis
          using False Some d e i rd cb rp
          by (auto simp: pass_next_def action_slot_def pass_ok_def pc_defs due_def books_None daemon_wf_def)
      qed
    qed
  qed
qed

lemma action_mark_step:
  assumes d: "daemon_wf d" and p: "pc_ok (dx_config x) (d_records d) (Acted e i)"
  shows "returns (pass_next (dx_config x) (Acted e i) (d_records d, d_action d)) (pass_ok x d (Acted e i))"
proof -
  let ?st = "d_records d" and ?s = "d_action d"
  obtain r where e: "action_ok e (dx_config x)" and i: "i < hr_vector_fill ?st" and r: "hr_vector ?st ! i = Some r" "due r"
    using p by (auto simp: pc_ok_def)
  have inv: "records_inv ?st" using d by (simp add: daemon_wf_def)
  note I = records_invD [OF inv]
  have le: "i < hr_vector_size ?st" using i I(3) by simp
  note sl = slot_fill [OF inv le r(1)]
  let ?r = "r\<lparr>hr_processed := 1\<rparr>"
  have k: "wf_hostrecord ?r" "ip_of ?r = ip_of r" using sl(3) by (simp_all add: wf_hostrecord_def ip_of_def)
  note rp = records_replace [OF inv i r(1) k]
  have "balanced (?st\<lparr>hr_vector := (hr_vector ?st)[i := Some ?r]\<rparr>) ?s" if "books ?st ?s (Some (AC_NEW, ip_of r))"
    using that r(2) sl(4) by (auto simp: books_def balanced_def rp(2) in_effect_def due_def)
  moreover have "2 < length (ip_of r)" using d sl(4) by (auto simp: daemon_wf_def)
  ultimately show ?thesis
    using d e r(1) rp le I(2) by (auto simp: pass_next_def action_mark_def pass_ok_def pc_defs books_None daemon_wf_def read_at_def)
qed

text \<open>The maintenance.\<close>

lemma purge_slot_step:
  assumes d: "daemon_wf d" and p: "pc_ok (dx_config x) (d_records d) (Purge e i)"
  shows "returns (pass_next (dx_config x) (Purge e i) (d_records d, d_action d)) (pass_ok x d (Purge e i))"
proof -
  let ?st = "d_records d" and ?s = "d_action d" and ?c = "dx_config x"
  have e: "action_ok e ?c" and lt: "i \<le> hr_vector_size ?st" and k: "\<forall>j < i. keep_record (hr_vector ?st ! j) = hr_vector ?st ! j"
    and inv: "records_inv ?st" using assms by (auto simp: pc_ok_def daemon_wf_def)
  note I = records_invD [OF inv]
  show ?thesis
  proof (cases "i < hr_vector_size ?st")
    case False
    then have "map keep_record (hr_vector ?st) = hr_vector ?st" using k lt I(2) by (auto intro: nth_equalityI)
    with False d e show ?thesis by (simp add: pass_next_def purge_slot_def pass_ok_def pc_defs)
  next
    case i: True
    then have rd: "read_at (hr_vector ?st) i = Ret (hr_vector ?st ! i)" using I(2) by (simp add: read_at_def)
    have step: "pc_ok ?c ?st (Purge e (Suc i))" if "keep_record (hr_vector ?st ! i) = hr_vector ?st ! i"
      using e i k that by (auto simp: pc_ok_def less_Suc_eq)
    show ?thesis
    proof (cases "hr_vector ?st ! i")
      case None
      with d i rd step show ?thesis by (simp add: pass_next_def purge_slot_def pass_ok_def pc_defs keep_record_def)
    next
      case (Some r)
      note sl = slot_fill [OF inv i Some]
      show ?thesis
      proof (cases "hr_remove r = 0")
        case True
        with Some d i rd step show ?thesis by (simp add: pass_next_def purge_slot_def pass_ok_def pc_defs keep_record_def)
      next
        case False
        have cb: "threads_records_callback_action_removal e ?c r ?s = Ret (removal_st ?c r ?s)"
          using removal_rm_ok [OF e] sl(3) by (auto simp: rm_ok_def)
        have "daemon_wf (d\<lparr>d_records := ?st, d_action := removal_st ?c r ?s\<rparr>)"
          using d by (simp add: daemon_wf_def action_inv_def removal_st_def)
        moreover have "books ?st (removal_st ?c r ?s) (if hr_processed r \<noteq> 0 then Some (AC_REMOVE, ip_of r) else None)" if "balanced ?st ?s"
          using that by (auto simp: books_def balanced_def removal_st_def runs_event)
        ultimately show ?thesis
          using False Some e i k rd cb
          by (simp add: pass_next_def purge_slot_def pass_ok_def pc_defs books_None)
      qed
    qed
  qed
qed

lemma purge_free_step:
  assumes d: "daemon_wf d" and p: "pc_ok (dx_config x) (d_records d) (Called e i)"
  shows "returns (pass_next (dx_config x) (Called e i) (d_records d, d_action d)) (pass_ok x d (Called e i))"
proof -
  let ?st = "d_records d" and ?s = "d_action d"
  obtain r where e: "action_ok e (dx_config x)" and i: "i < hr_vector_size ?st" and r: "hr_vector ?st ! i = Some r"
    and k: "\<forall>j < i. keep_record (hr_vector ?st ! j) = hr_vector ?st ! j"
    using p by (auto simp: pc_ok_def)
  have inv: "records_inv ?st" using d by (simp add: daemon_wf_def)
  note sl = slot_fill [OF inv i r] and I = records_invD [OF inv]
  note fr = records_free [OF inv sl(1) r]
  have "balanced (?st\<lparr>hr_vector := (hr_vector ?st)[i := None]\<rparr>) ?s"
    if "books ?st ?s (if hr_processed r \<noteq> 0 then Some (AC_REMOVE, ip_of r) else None)"
    unfolding balanced_def
  proof
    fix ip
    from that sl(4) have "runs AC_NEW ip (as_log ?s) + (if hr_processed r \<noteq> 0 \<and> ip_of r = ip then 1 else 0) =
        runs AC_REMOVE ip (as_log ?s) + in_effect (records_map ?st ip)"
      by (auto simp: books_def split: if_splits)
    with sl(4) show "runs AC_NEW ip (as_log ?s) =
        runs AC_REMOVE ip (as_log ?s) + in_effect (records_map (?st\<lparr>hr_vector := (hr_vector ?st)[i := None]\<rparr>) ip)"
      by (auto simp: fr(2) in_effect_def split: if_splits)
  qed
  moreover have "keep_record ((hr_vector ?st)[i := None] ! j) = (hr_vector ?st)[i := None] ! j" if "j < Suc i" for j
    using that k i I(2) by (cases "j = i") (auto simp: keep_record_def)
  ultimately show ?thesis
    using d e i r fr by (auto simp: pass_next_def purge_free_def pass_ok_def pc_defs books_None daemon_wf_def)
qed

lemma shrink_step:
  assumes d: "daemon_wf d" and p: "pc_ok (dx_config x) (d_records d) (Shrink e)"
  shows "returns (pass_next (dx_config x) (Shrink e) (d_records d, d_action d)) (pass_ok x d (Shrink e))"
proof -
  let ?st = "d_records d"
  have e: "realloc_ok (act_sys e)" and k: "map keep_record (hr_vector ?st) = hr_vector ?st" and inv: "records_inv ?st"
    using assms by (auto simp: pc_ok_def daemon_wf_def action_ok_def sys_ok_def)
  have keep: "keep_record (records_map ?st ip) = records_map ?st ip" for ip
  proof (cases "records_map ?st ip")
    case (Some r)
    then have "Some r \<in> set (map keep_record (hr_vector ?st))" using inv unfolding k by (simp add: records_map_Some)
    then obtain q where "keep_record q = Some r" by (metis imageE set_map)
    with Some show ?thesis by (auto simp: keep_record_def Option.bind_eq_Some_conv split: if_splits)
  qed (simp add: keep_record_def)
  from records_shrink_spec [OF inv, of "act_sys e", unfolded k]
  have "returns (records_shrink (act_sys e) ?st) (\<lambda>(rv, st'). records_inv st' \<and> records_map st' = records_map ?st)"
    using e keep by (auto simp: maintained_def elim!: ospec_mono)
  then show ?thesis
    using d by (auto simp: returns_iff pass_next_def pass_ok_def pc_defs daemon_wf_def books_def)
qed

lemma flush_step:
  assumes d: "daemon_wf d" and p: "pc_ok (dx_config x) (d_records d) (Flush e)"
  shows "returns (pass_next (dx_config x) (Flush e) (d_records d, d_action d))
    (\<lambda>(p', st', s'). p' = Outside \<and> st' = d_records d \<and> as_log s' = as_log (d_action d) \<and> action_inv s')"
proof -
  have c: "client_inv (as_client (d_action d))" "client_env_ok (act_client e)" "action_inv (d_action d)"
    using assms by (auto simp: pc_ok_def daemon_wf_def action_ok_def action_inv_def)
  from flush_returns [OF c(1,2)] c(3) show ?thesis
    by (auto simp: pass_next_def action_flush_def returns_iff action_inv_def)
qed

lemma inside_step:
  assumes "daemon_wf d" and "pc_ok (dx_config x) (d_records d) p" and "holds p"
  shows "returns (pass_next (dx_config x) p (d_records d, d_action d)) (pass_ok x d p)"
  using assms by (cases p) (simp_all add: action_slot_step action_mark_step purge_slot_step purge_free_step shrink_step)

subsection \<open>The invariant of the threads\<close>

text \<open>\<^verbatim>\<open>main\<close> joins a thread only after it has cancelled it.\<close>

primrec joins_ok :: "(thread \<Rightarrow> bool) \<Rightarrow> stop_call list \<Rightarrow> bool" where
  "joins_ok c [] = True"
| "joins_ok c (call # cs) = (case call of Cancel t \<Rightarrow> joins_ok (c(t := True)) cs | Join t \<Rightarrow> c t \<and> joins_ok c cs)"

lemma joins_ok_mono: "joins_ok c cs \<Longrightarrow> (\<And>t. c t \<Longrightarrow> c' t) \<Longrightarrow> joins_ok c' cs"
proof (induction cs arbitrary: c c')
  case (Cons call cs)
  then show ?case by (cases call) (auto elim!: Cons.IH)
qed simp

lemma stop_calls_joins: "joins_ok c (stop_calls CONFIG)" "t \<noteq> Server_thread \<Longrightarrow> Join t \<in> set (stop_calls CONFIG)"
  by (cases t; simp add: stop_calls_def)+

definition agent_inv :: "daemon_ext \<Rightarrow> agent \<Rightarrow> bool" where
  "agent_inv x \<sigma> \<longleftrightarrow> daemon_wf (ag_daemon \<sigma>)
     \<and> books (d_records (ag_daemon \<sigma>)) (d_action (ag_daemon \<sigma>)) (in_hand \<sigma>)
     \<and> (\<forall>t. holds (ag_pc \<sigma> t) \<longleftrightarrow> ag_owner \<sigma> = Some t)
     \<and> (\<forall>t. pc_ok (dx_config x) (d_records (ag_daemon \<sigma>)) (ag_pc \<sigma> t) \<and> runs_by t (ag_pc \<sigma> t))
     \<and> (\<forall>cs. ag_main \<sigma> = Some cs \<longrightarrow> joins_ok (ag_cancel \<sigma>) cs)
     \<and> (\<forall>cs t. ag_main \<sigma> = Some cs \<longrightarrow> t \<noteq> Server_thread \<longrightarrow> Join t \<in> set cs \<or> ag_ended \<sigma> t)"

lemma agent_invD:
  assumes "agent_inv x \<sigma>"
  shows "daemon_wf (ag_daemon \<sigma>)" and "books (d_records (ag_daemon \<sigma>)) (d_action (ag_daemon \<sigma>)) (in_hand \<sigma>)"
    and "holds (ag_pc \<sigma> t) \<longleftrightarrow> ag_owner \<sigma> = Some t" and "pc_ok (dx_config x) (d_records (ag_daemon \<sigma>)) (ag_pc \<sigma> t)"
    and "runs_by t (ag_pc \<sigma> t)" and "ag_main \<sigma> = Some cs \<Longrightarrow> joins_ok (ag_cancel \<sigma>) cs"
    and "ag_main \<sigma> = Some cs \<Longrightarrow> t \<noteq> Server_thread \<Longrightarrow> Join t \<in> set cs \<or> ag_ended \<sigma> t"
  using assms by (auto simp: agent_inv_def)

text \<open>Without the mutex, nothing about the table is relied on.\<close>

lemma pc_ok_outside: "\<not> holds p \<Longrightarrow> pc_ok c st p \<Longrightarrow> pc_ok c st' p" and half_done_outside: "\<not> holds p \<Longrightarrow> half_done st p = None"
  by (cases p; simp add: pc_defs)+

lemma in_hand_free: "ag_owner \<sigma> = None \<Longrightarrow> in_hand \<sigma> = None"
  by (simp add: in_hand_def)

lemma in_hand_elsewhere:
  "ag_owner \<sigma> \<noteq> Some t \<Longrightarrow> st = d_records (ag_daemon \<sigma>) \<Longrightarrow> in_hand (moved t p st s \<sigma>) = in_hand \<sigma>"
  by (auto simp: in_hand_def moved_def split: option.splits)

lemma in_hand_upd [simp]:
  "in_hand (\<sigma>\<lparr>ag_main := m\<rparr>) = in_hand \<sigma>" "in_hand (\<sigma>\<lparr>ag_cancel := c\<rparr>) = in_hand \<sigma>" "in_hand (\<sigma>\<lparr>ag_ended := b\<rparr>) = in_hand \<sigma>"
  "d_records d' = d_records (ag_daemon \<sigma>) \<Longrightarrow> in_hand (\<sigma>\<lparr>ag_daemon := d'\<rparr>) = in_hand \<sigma>"
  by (simp_all add: in_hand_def cong: option.case_cong)

lemma agent_start_inv: "daemon_inv d \<Longrightarrow> agent_inv x (agent_start d)"
  by (simp add: agent_inv_def agent_start_def daemon_inv_def in_hand_def books_None pc_defs)

lemma agent_step_inv:
  assumes "agent_step x \<sigma> \<sigma>'" and "ext_ok x" and "agent_inv x \<sigma>"
  shows "agent_inv x \<sigma>'"
  using assms
proof (induction rule: agent_step.induct)
  case (come t \<sigma>)
  have "ag_owner \<sigma> \<noteq> Some t" using agent_invD(3) [OF come(5), of t] come(3) by simp
  with come show ?case by (auto simp: agent_inv_def in_hand_def pc_defs split: option.splits)
next
  case (lock \<sigma> t e)
  have "t \<noteq> Server_thread" using agent_invD(5) [OF lock(6), of t] lock(2) by (simp add: runs_by_def)
  moreover have "half_done st (first_pc t e) = None" for st by (simp add: first_pc_def half_done_def)
  ultimately show ?case using lock
    by (cases t) (auto simp: agent_inv_def in_hand_def first_pc_def pc_ok_def runs_by_def split: option.splits)
next
  case (inside \<sigma> t p st s)
  note I = agent_invD [OF inside(5)]
  have own: "ag_owner \<sigma> = Some t" using inside(2) I(3) by simp
  have ok: "pass_ok x (ag_daemon \<sigma>) (ag_pc \<sigma> t) (p, st, s)"
    using inside_step [OF I(1,4) inside(2)] inside(3) by simp
  have "books st s (half_done st p)" using ok I(2) own by (simp add: pass_ok_def in_hand_def)
  moreover have "pc_ok (dx_config x) st (ag_pc \<sigma> t')" if "t' \<noteq> t" for t'
    using that own I(3,4) [of t'] pc_ok_outside by auto
  ultimately show ?case
    using ok own I(3,5-7) half_done_outside [of p st]
    by (auto simp: agent_inv_def pass_ok_def moved_def in_hand_def)
next
  case (flush \<sigma> t e p st s)
  note I = agent_invD [OF flush(5)]
  have r: "p = Outside \<and> st = d_records (ag_daemon \<sigma>) \<and> as_log s = as_log (d_action (ag_daemon \<sigma>)) \<and> action_inv s"
    using flush_step [OF I(1), of x e] I(4) [of t] flush(2,3) by simp
  have own: "ag_owner \<sigma> \<noteq> Some t" using I(3) [of t] flush(2) by simp
  have "daemon_wf ((ag_daemon \<sigma>)\<lparr>d_records := st, d_action := s\<rparr>)" using I(1) r by (simp add: daemon_wf_def)
  moreover have "books st s (in_hand (moved t p st s \<sigma>))" using I(2) r own by (simp add: in_hand_elsewhere books_def)
  ultimately show ?case
    using I(3-7) r own by (auto simp: agent_inv_def moved_def pc_ok_def runs_by_def)
next
  case (section_of_other \<sigma> d')
  note I = agent_invD [OF section_of_other(5)]
  show ?case
  proof (cases "d_records d' = d_records (ag_daemon \<sigma>)")
    case True
    with daemon_side_wf [OF section_of_other(1,4) I(1)] section_of_other(2) I show ?thesis
      by (simp add: agent_inv_def) (simp add: books_def)
  next
    case False
    with section_of_other(3) have own: "ag_owner \<sigma> = None" by simp
    with I(1,2) have "daemon_inv (ag_daemon \<sigma>)" by (simp add: daemon_inv_def in_hand_def books_None)
    moreover have "pc_ok (dx_config x) (d_records d') (ag_pc \<sigma> t)" for t
      by (rule pc_ok_outside [OF _ I(4)]) (use I(3) own in simp)
    ultimately show ?thesis
      using daemon_step_inv [OF section_of_other(1,4)] own I by (auto simp: agent_inv_def daemon_inv_def in_hand_def books_None)
  qed
next
  case (cancel \<sigma> t cs)
  then show ?case by (auto simp: agent_inv_def)
next
  case (join \<sigma> t cs)
  then show ?case by (auto simp: agent_inv_def)
qed (simp_all add: agent_inv_def stop_calls_joins)

lemma agent_steps_inv:
  assumes "agent_steps x \<sigma> \<sigma>'" and "ext_ok x" and "agent_inv x \<sigma>"
  shows "agent_inv x \<sigma>'"
  using assms by (induction rule: rtranclp_induct) (auto intro: agent_step_inv)

lemma agent_reach_inv:
  "daemon_start x d0 \<Longrightarrow> ext_ok x \<Longrightarrow> agent_steps x (agent_start d0) \<sigma> \<Longrightarrow> agent_inv x \<sigma>"
  by (blast intro: agent_steps_inv agent_start_inv daemon_start_inv)

text \<open>Only \<^verbatim>\<open>pthread_cancel\<close> ends the action and the maintenance thread.\<close>

definition ended_cancelled :: "agent \<Rightarrow> bool" where
  "ended_cancelled \<sigma> \<longleftrightarrow> (\<forall>t. t \<noteq> Server_thread \<longrightarrow> ag_ended \<sigma> t \<longrightarrow> ag_cancel \<sigma> t)"

lemma agent_step_cancelled: "agent_step x \<sigma> \<sigma>' \<Longrightarrow> ended_cancelled \<sigma> \<Longrightarrow> ended_cancelled \<sigma>'"
  by (induction rule: agent_step.induct) (auto simp: ended_cancelled_def moved_def)

lemma agent_reach_cancelled:
  assumes "agent_steps x (agent_start d) \<sigma>"
  shows "ended_cancelled \<sigma>"
proof -
  have "ended_cancelled (agent_start d)" by (simp add: ended_cancelled_def agent_start_def)
  with assms show ?thesis by (induction rule: rtranclp_induct) (auto intro: agent_step_cancelled)
qed

text \<open>When all threads have been joined: what is in hand belongs to one that was cancelled, and the rest is released.\<close>

lemma hand_of_ended:
  assumes "agent_inv x \<sigma>" and "ag_main \<sigma> = Some []" and "in_hand \<sigma> \<noteq> None"
  shows "\<exists>t. t \<noteq> Server_thread \<and> ag_owner \<sigma> = Some t \<and> ag_ended \<sigma> t"
proof -
  note I = agent_invD [OF assms(1)]
  obtain t where t: "ag_owner \<sigma> = Some t" using assms(3) by (auto simp: in_hand_def split: option.splits)
  then have "t \<noteq> Server_thread" using I(3,5) [of t] by (cases "ag_pc \<sigma> t") (auto simp: runs_by_def)
  with t I(7) [OF assms(2)] show ?thesis by auto
qed

lemma hand_of_cancelled:
  "agent_inv x \<sigma> \<Longrightarrow> ag_main \<sigma> = Some [] \<Longrightarrow> ended_cancelled \<sigma> \<Longrightarrow> in_hand \<sigma> \<noteq> None \<longrightarrow> (\<exists>t. ag_owner \<sigma> = Some t \<and> ag_cancel \<sigma> t)"
  using hand_of_ended [of x \<sigma>] by (auto simp: ended_cancelled_def)

lemma destroyed_books:
  assumes "agent_inv x \<sigma>" and "action_ok e (dx_config x)"
  shows "returns (records_destroy (act_sys e) (Some (threads_records_callback_action_removal e (dx_config x))) (ag_table \<sigma>))
      (\<lambda>(st, s). \<forall>ip. runs AC_NEW ip (as_log s) + (if in_hand \<sigma> = Some (AC_REMOVE, ip) then 1 else 0) =
        runs AC_REMOVE ip (as_log s) + (if in_hand \<sigma> = Some (AC_NEW, ip) then 1 else 0))"
proof -
  note I = agent_invD [OF assms(1)]
  have inv: "records_inv (d_records (ag_daemon \<sigma>))" using I(1) by (simp add: daemon_wf_def)
  have eq: "in_effect p = (case p of None \<Rightarrow> 0 | Some r \<Rightarrow> if hr_processed r \<noteq> 0 then 1 else 0)" for p
    by (simp add: in_effect_def)
  show ?thesis
    unfolding records_destroy_spec [OF inv removal_rm_ok [OF assms(2)] TrueI]
    using I(2) by (simp add: removal_fold books_def runs_pass [OF inv] runs_other eq)
qed

subsection \<open>A pass that is not disturbed\<close>

text \<open>The measure of a pass: what is left of it shrinks with every step.\<close>

definition todo :: "records_st \<Rightarrow> pass_pc \<Rightarrow> nat" where
  "todo st p = (case p of
     Walk e i \<Rightarrow> 2 * (hr_vector_fill st - i) + 1
   | Acted e i \<Rightarrow> 2 * (hr_vector_fill st - i)
   | Purge e i \<Rightarrow> 2 * (hr_vector_size st - i) + 2
   | Called e i \<Rightarrow> 2 * (hr_vector_size st - i) + 1
   | Shrink e \<Rightarrow> 1
   | _ \<Rightarrow> 0)"

lemma pass_next_todo:
  assumes "pass_next CONFIG p (st, s) = Ret (p', st', s')" and "holds p" and "pc_ok CONFIG st p"
  shows "todo st' p' < todo st p"
  using assms
  by (cases p) (auto simp: pass_next_def action_slot_def action_mark_def purge_slot_def purge_free_def todo_def pc_ok_def obind_eq_Ret
      split: option.splits if_splits)

text \<open>The part of the state that a thread leaves to the others.\<close>

definition same_control :: "agent \<Rightarrow> agent \<Rightarrow> bool" where
  "same_control \<sigma> \<sigma>' \<longleftrightarrow> ag_main \<sigma>' = ag_main \<sigma> \<and> ag_cancel \<sigma>' = ag_cancel \<sigma> \<and> ag_ended \<sigma>' = ag_ended \<sigma>"

lemma same_control_trans: "same_control \<sigma> \<sigma>' \<Longrightarrow> same_control \<sigma>' \<sigma>'' \<Longrightarrow> same_control \<sigma> \<sigma>''"
  by (simp add: same_control_def)

text \<open>A living thread that has the mutex gets to the unlock.\<close>

lemma reach_unlock:
  assumes "ext_ok x" and "agent_inv x \<sigma>" and "ag_owner \<sigma> = Some t" and "\<not> ag_ended \<sigma> t"
  shows "\<exists>\<sigma>' q. agent_steps x \<sigma> \<sigma>' \<and> ag_owner \<sigma>' = None \<and> ag_pc \<sigma>' = (ag_pc \<sigma>)(t := q) \<and> \<not> holds q \<and> q \<noteq> Waiting
    \<and> same_control \<sigma> \<sigma>'"
  using assms(2-4)
proof (induction "todo (d_records (ag_daemon \<sigma>)) (ag_pc \<sigma> t)" arbitrary: \<sigma> rule: less_induct)
  case (less \<sigma>)
  note I = agent_invD [OF less(2)]
  have h: "holds (ag_pc \<sigma> t)" using I(3) less(3) by simp
  from inside_step [OF I(1,4) h] obtain p st s
    where n: "pass_next (dx_config x) (ag_pc \<sigma> t) (ag_table \<sigma>) = Ret (p, st, s)"
    unfolding returns_iff by auto
  let ?\<sigma> = "(moved t p st s \<sigma>)\<lparr>ag_owner := if holds p then Some t else None\<rparr>"
  have st: "agent_step x \<sigma> ?\<sigma>" by (rule agent_step.inside [OF less(4) h n])
  have sc: "same_control \<sigma> ?\<sigma>" "ag_pc ?\<sigma> = (ag_pc \<sigma>)(t := p)" by (simp_all add: same_control_def moved_def)
  show ?case
  proof (cases "holds p")
    case True
    have "todo (d_records (ag_daemon ?\<sigma>)) (ag_pc ?\<sigma> t) < todo (d_records (ag_daemon \<sigma>)) (ag_pc \<sigma> t)"
      using pass_next_todo [OF n h I(4)] by (simp add: moved_def)
    from less(1) [OF this agent_step_inv [OF st assms(1) less(2)]] True less(4)
    obtain \<sigma>' q where "agent_steps x ?\<sigma> \<sigma>'" "ag_owner \<sigma>' = None" "ag_pc \<sigma>' = (ag_pc ?\<sigma>)(t := q)" "\<not> holds q" "q \<noteq> Waiting"
        "same_control ?\<sigma> \<sigma>'"
      by (auto simp: moved_def)
    with st sc show ?thesis by (metis converse_rtranclp_into_rtranclp fun_upd_upd same_control_trans)
  next
    case False
    have "p \<noteq> Waiting"
      using n h by (cases "ag_pc \<sigma> t") (auto simp: pass_next_def action_slot_def action_mark_def purge_slot_def purge_free_def obind_eq_Ret
        split: option.splits if_splits)
    with False st sc show ?thesis by (intro exI [of _ ?\<sigma>] exI [of _ p]) auto
  qed
qed

lemma finish_flush:
  assumes "ext_ok x" and "agent_inv x \<sigma>" and "\<not> ag_ended \<sigma> t" and "\<not> holds (ag_pc \<sigma> t)" and "ag_pc \<sigma> t \<noteq> Waiting"
  shows "\<exists>\<sigma>'. agent_steps x \<sigma> \<sigma>' \<and> ag_owner \<sigma>' = ag_owner \<sigma> \<and> ag_pc \<sigma>' = (ag_pc \<sigma>)(t := Outside) \<and> same_control \<sigma> \<sigma>'"
proof (cases "ag_pc \<sigma> t")
  case Outside
  then show ?thesis by (intro exI [of _ \<sigma>]) (auto simp: same_control_def)
next
  case (Flush e)
  note I = agent_invD [OF assms(2)]
  obtain st s where n: "pass_next (dx_config x) (Flush e) (ag_table \<sigma>) = Ret (Outside, st, s)"
    using flush_step [OF I(1), of x e] I(4) [of t] Flush unfolding returns_iff by auto
  from agent_step.flush [OF assms(3) Flush n] show ?thesis
    by (intro exI [of _ "moved t Outside st s \<sigma>"]) (auto simp: moved_def same_control_def)
qed (use assms in auto)

text \<open>A living thread gets out of its pass, unless it waits for a mutex that another thread has.\<close>

lemma go_outside:
  assumes x: "ext_ok x" and inv: "agent_inv x \<sigma>" and t: "\<not> ag_ended \<sigma> t" and e: "action_ok e (dx_config x)"
    and w: "ag_pc \<sigma> t = Waiting \<Longrightarrow> ag_owner \<sigma> = None"
  shows "\<exists>\<sigma>'. agent_steps x \<sigma> \<sigma>' \<and> ag_owner \<sigma>' = (if ag_owner \<sigma> = Some t then None else ag_owner \<sigma>)
    \<and> ag_pc \<sigma>' = (ag_pc \<sigma>)(t := Outside) \<and> same_control \<sigma> \<sigma>'"
proof -
  have run: "\<exists>\<sigma>''. agent_steps x \<sigma>' \<sigma>'' \<and> ag_owner \<sigma>'' = None \<and> ag_pc \<sigma>'' = (ag_pc \<sigma>')(t := Outside) \<and> same_control \<sigma>' \<sigma>''"
    if a: "agent_inv x \<sigma>'" "ag_owner \<sigma>' = Some t" "\<not> ag_ended \<sigma>' t" for \<sigma>'
  proof -
    obtain \<sigma>1 q where 1: "agent_steps x \<sigma>' \<sigma>1" "ag_owner \<sigma>1 = None" "ag_pc \<sigma>1 = (ag_pc \<sigma>')(t := q)" "\<not> holds q" "q \<noteq> Waiting"
        "same_control \<sigma>' \<sigma>1"
      using reach_unlock [OF x a] by blast
    have "agent_inv x \<sigma>1" by (rule agent_steps_inv [OF 1(1) x a(1)])
    then obtain \<sigma>2 where "agent_steps x \<sigma>1 \<sigma>2" "ag_owner \<sigma>2 = None" "ag_pc \<sigma>2 = (ag_pc \<sigma>1)(t := Outside)" "same_control \<sigma>1 \<sigma>2"
      using finish_flush [OF x, of \<sigma>1 t] 1 a(3) by (auto simp: same_control_def)
    with 1 show ?thesis by (metis fun_upd_upd rtranclp_trans same_control_trans)
  qed
  note own = agent_invD(3) [OF inv, of t]
  consider (waits) "ag_pc \<sigma> t = Waiting" | (has) "ag_owner \<sigma> = Some t" | (out) "\<not> holds (ag_pc \<sigma> t)" "ag_pc \<sigma> t \<noteq> Waiting"
    using own by blast
  then show ?thesis
  proof cases
    case waits
    let ?\<sigma> = "\<sigma>\<lparr>ag_owner := Some t, ag_pc := (ag_pc \<sigma>)(t := first_pc t e)\<rparr>"
    have st: "agent_step x \<sigma> ?\<sigma>" using agent_step.lock [OF t waits w [OF waits] e] .
    obtain \<sigma>2 where "agent_steps x ?\<sigma> \<sigma>2" "ag_owner \<sigma>2 = None" "ag_pc \<sigma>2 = (ag_pc ?\<sigma>)(t := Outside)" "same_control ?\<sigma> \<sigma>2"
      using run [OF agent_step_inv [OF st x inv]] t by auto
    with st w [OF waits] show ?thesis
      by (intro exI [of _ \<sigma>2]) (auto simp: same_control_def intro: converse_rtranclp_into_rtranclp)
  next
    case has
    with run [OF inv has t] show ?thesis by auto
  next
    case out
    with finish_flush [OF x inv t out] own show ?thesis by auto
  qed
qed

subsection \<open>When the program ends\<close>

text \<open>
  A shutdown is blocked when a thread that is still to be joined waits for a mutex whose owner has ended.
\<close>

definition blocked_by :: "thread \<Rightarrow> thread \<Rightarrow> agent \<Rightarrow> bool" where
  "blocked_by t t' \<sigma> \<longleftrightarrow> ag_owner \<sigma> = Some t \<and> ag_ended \<sigma> t \<and> ag_pc \<sigma> t' = Waiting \<and> \<not> ag_ended \<sigma> t'
     \<and> (case ag_main \<sigma> of None \<Rightarrow> False | Some cs \<Rightarrow> Join t' \<in> set cs)"

definition blocked :: "agent \<Rightarrow> bool" where
  "blocked \<sigma> \<longleftrightarrow> (\<exists>t t'. blocked_by t t' \<sigma>)"

lemma blocked_step:
  assumes "agent_step x \<sigma> \<sigma>'" and "agent_inv x \<sigma>" and b: "blocked_by t t' \<sigma>"
  shows "blocked_by t t' \<sigma>'"
proof -
  have h: "holds (ag_pc \<sigma> u) \<longleftrightarrow> u = t" for u using agent_invD(3) [OF assms(2), of u] b by (auto simp: blocked_by_def)
  have srv: "t' \<noteq> Server_thread" using agent_invD(5) [OF assms(2), of t'] b by (simp add: blocked_by_def runs_by_def)
  have c: "\<not> cancel_point st Waiting" for st by (simp add: cancel_point_def)
  show ?thesis
    using assms(1) b h srv c by cases (auto simp: blocked_by_def moved_def)
qed

lemma blocked_for_ever:
  assumes "agent_steps x \<sigma> \<sigma>'" and "ext_ok x" and "agent_inv x \<sigma>" and "blocked \<sigma>"
  shows "ag_main \<sigma>' \<noteq> Some []"
proof -
  obtain t t' where b: "blocked_by t t' \<sigma>" using assms(4) by (auto simp: blocked_def)
  from assms(1) have "agent_inv x \<sigma>' \<and> blocked_by t t' \<sigma>'"
    using assms(2,3) b by (induction rule: rtranclp_induct) (auto intro: agent_step_inv blocked_step)
  then show ?thesis by (auto simp: blocked_by_def)
qed

lemma blocked_mono:
  assumes "ag_owner \<sigma>' = None \<or> ag_owner \<sigma>' = ag_owner \<sigma>" and "\<And>u. ag_pc \<sigma>' u = Waiting \<Longrightarrow> ag_pc \<sigma> u = Waiting"
    and "same_control \<sigma> \<sigma>'" and "blocked \<sigma>'"
  shows "blocked \<sigma>"
proof -
  obtain t t' where "blocked_by t t' \<sigma>'" using assms(4) by (auto simp: blocked_def)
  with assms(1,3) assms(2) [of t'] have "blocked_by t t' \<sigma>" by (auto simp: blocked_by_def same_control_def)
  then show ?thesis by (auto simp: blocked_def)
qed

text \<open>A thread that is next to be joined gets out of its pass, unless the shutdown is blocked.\<close>

lemma clear_thread:
  assumes x: "ext_ok x" and e: "action_ok e (dx_config x)" and inv: "agent_inv x \<sigma>" and t: "\<not> ag_ended \<sigma> t"
    and m: "ag_main \<sigma> = Some cs" "Join t \<in> set cs" and nb: "\<not> blocked \<sigma>"
  shows "\<exists>\<sigma>'. agent_steps x \<sigma> \<sigma>' \<and> ag_pc \<sigma>' t = Outside \<and> same_control \<sigma> \<sigma>' \<and> \<not> blocked \<sigma>'"
proof -
  have out: "\<exists>\<sigma>''. agent_steps x \<sigma>' \<sigma>'' \<and> ag_pc \<sigma>'' t = Outside \<and> same_control \<sigma>' \<sigma>'' \<and> \<not> blocked \<sigma>''"
    if "agent_inv x \<sigma>'" "ag_pc \<sigma>' t = Waiting \<Longrightarrow> ag_owner \<sigma>' = None" "\<not> ag_ended \<sigma>' t" "\<not> blocked \<sigma>'" for \<sigma>'
    using go_outside [OF x that(1,3) e that(2)] blocked_mono [of _ \<sigma>'] that(4) by (auto split: if_splits) force+
  show ?thesis
  proof (cases "ag_pc \<sigma> t = Waiting \<and> ag_owner \<sigma> \<noteq> None")
    case False
    then show ?thesis using out [OF inv _ t nb] by auto
  next
    case True
    then obtain u where u: "ag_owner \<sigma> = Some u" by auto
    then have "\<not> ag_ended \<sigma> u" using nb True t m by (auto simp: blocked_def blocked_by_def)
    moreover have h: "holds (ag_pc \<sigma> u)" using agent_invD(3) [OF inv] u by simp
    ultimately obtain \<sigma>1 where 1: "agent_steps x \<sigma> \<sigma>1" "ag_owner \<sigma>1 = None" "ag_pc \<sigma>1 = (ag_pc \<sigma>)(u := Outside)" "same_control \<sigma> \<sigma>1"
      using go_outside [OF x inv _ e, of u] u by fastforce
    have "\<not> blocked \<sigma>1" using 1(2) by (simp add: blocked_def blocked_by_def)
    then obtain \<sigma>2 where "agent_steps x \<sigma>1 \<sigma>2" "ag_pc \<sigma>2 t = Outside" "same_control \<sigma>1 \<sigma>2" "\<not> blocked \<sigma>2"
      using out [OF agent_steps_inv [OF 1(1) x inv]] 1(2,4) t by (auto simp: same_control_def)
    with 1 show ?thesis by (meson rtranclp_trans same_control_trans)
  qed
qed

lemma finish_calls:
  assumes x: "ext_ok x" and e: "action_ok e (dx_config x)"
  shows "agent_inv x \<sigma> \<Longrightarrow> ag_main \<sigma> = Some cs \<Longrightarrow> \<not> blocked \<sigma> \<Longrightarrow> \<exists>\<sigma>'. agent_steps x \<sigma> \<sigma>' \<and> ag_main \<sigma>' = Some []"
proof (induction cs arbitrary: \<sigma>)
  case Nil
  then show ?case by blast
next
  case (Cons call cs)
  have go: "\<exists>\<sigma>''. agent_steps x \<sigma>' \<sigma>'' \<and> ag_main \<sigma>'' = Some []"
    if "agent_step x \<sigma>' \<sigma>1" "agent_inv x \<sigma>'" "ag_main \<sigma>1 = Some cs" "\<not> blocked \<sigma>1" for \<sigma>' \<sigma>1
    using Cons.IH [OF agent_step_inv [OF that(1) x that(2)] that(3,4)] that(1) by (meson converse_rtranclp_into_rtranclp)
  show ?case
  proof (cases call)
    case (Cancel t)
    with Cons.prems have "agent_step x \<sigma> (\<sigma>\<lparr>ag_main := Some cs, ag_cancel := (ag_cancel \<sigma>)(t := True)\<rparr>)"
      by (intro agent_step.cancel) simp
    then show ?thesis using Cons.prems by (elim go) (auto simp: blocked_def blocked_by_def)
  next
    case (Join t)
    have joined: "\<exists>\<sigma>''. agent_steps x \<sigma>' \<sigma>'' \<and> ag_main \<sigma>'' = Some []"
      if "agent_inv x \<sigma>'" "ag_main \<sigma>' = Some (Join t # cs)" "ag_ended \<sigma>' t" "\<not> blocked \<sigma>'" for \<sigma>'
    proof -
      have "agent_step x \<sigma>' (\<sigma>'\<lparr>ag_main := Some cs\<rparr>)" using that(2,3) by (rule agent_step.join)
      then show ?thesis using that by (elim go) (auto simp: blocked_def blocked_by_def)
    qed
    have m: "ag_main \<sigma> = Some (Join t # cs)" using Cons.prems(2) Join by simp
    show ?thesis
    proof (cases "ag_ended \<sigma> t")
      case True
      then show ?thesis using joined [OF Cons.prems(1) m] Cons.prems(3) by blast
    next
      case False
      obtain \<sigma>1 where 1: "agent_steps x \<sigma> \<sigma>1" "ag_pc \<sigma>1 t = Outside" "same_control \<sigma> \<sigma>1" "\<not> blocked \<sigma>1"
        using clear_thread [OF x e Cons.prems(1) False m] Cons.prems(3) by auto
      have "ag_cancel \<sigma>1 t" using agent_invD(6) [OF Cons.prems(1) m] 1(3) by (simp add: same_control_def)
      then have st: "agent_step x \<sigma>1 (\<sigma>1\<lparr>ag_ended := (ag_ended \<sigma>1)(t := True)\<rparr>)"
        using 1(2,3) False by (intro agent_step.die) (auto simp: same_control_def cancel_point_def)
      have own: "ag_owner \<sigma>1 \<noteq> Some t" using agent_invD(3) [OF agent_steps_inv [OF 1(1) x Cons.prems(1)], of t] 1(2) by simp
      have "\<exists>\<sigma>''. agent_steps x (\<sigma>1\<lparr>ag_ended := (ag_ended \<sigma>1)(t := True)\<rparr>) \<sigma>'' \<and> ag_main \<sigma>'' = Some []"
        using 1 own m by (intro joined agent_step_inv [OF st x agent_steps_inv [OF 1(1) x Cons.prems(1)]])
          (auto simp: same_control_def blocked_def blocked_by_def split: if_splits)
      with 1(1) st show ?thesis by (meson converse_rtranclp_into_rtranclp rtranclp_trans)
    qed
  qed
qed

subsection \<open>A pass of one piece is a pass in pieces\<close>

definition placed :: "thread \<Rightarrow> pass_pc \<Rightarrow> records_st \<Rightarrow> action_st \<Rightarrow> agent \<Rightarrow> agent" where
  "placed t p st s \<sigma> = (moved t p st s \<sigma>)\<lparr>ag_owner := if holds p then Some t else None\<rparr>"

lemma placed_again [simp]: "placed t p st s (placed t p' st' s' \<sigma>) = placed t p st s \<sigma>"
  by (simp add: placed_def moved_def)

lemma placed_sel [simp]: "ag_ended (placed t p st s \<sigma>) = ag_ended \<sigma>" "ag_pc (placed t p st s \<sigma>) = (ag_pc \<sigma>)(t := p)"
    "ag_daemon (placed t p st s \<sigma>) = (ag_daemon \<sigma>)\<lparr>d_records := st, d_action := s\<rparr>"
    "ag_owner (placed t p st s \<sigma>) = (if holds p then Some t else None)" "ag_main (placed t p st s \<sigma>) = ag_main \<sigma>"
    "ag_cancel (placed t p st s \<sigma>) = ag_cancel \<sigma>"
  by (simp_all add: placed_def moved_def)

lemma placed_step:
  assumes "\<not> ag_ended \<sigma> t" and "holds p" and "pass_next (dx_config x) p (st, s) = Ret (p', st', s')"
  shows "agent_step x (placed t p st s \<sigma>) (placed t p' st' s' \<sigma>)"
proof -
  have "agent_step x (placed t p st s \<sigma>) (placed t p' st' s' (placed t p st s \<sigma>))"
    unfolding placed_def [of t p' st' s'] by (rule agent_step.inside) (use assms in simp_all)
  then show ?thesis by simp
qed

text \<open>A loop is run when each of its iterations is.\<close>

lemma c_for_run:
  assumes "\<And>i s b. i < n \<Longrightarrow> body i s = Ret b \<Longrightarrow> R\<^sup>*\<^sup>* (f i s) (case b of Inl s' \<Rightarrow> g s' | Inr s' \<Rightarrow> f (Suc i) s')"
    and "\<And>i s. n \<le> i \<Longrightarrow> R\<^sup>*\<^sup>* (f i s) (g s)" and "c_for i n body s = Ret res"
  shows "R\<^sup>*\<^sup>* (f i s) (case res of Inl s' \<Rightarrow> g s' | Inr s' \<Rightarrow> g s')"
  using assms(3)
proof (induction "n - i" arbitrary: i s)
  case 0
  then show ?case using assms(2) by auto
next
  case (Suc k)
  then have i: "i < n" "k = n - Suc i" by auto
  obtain b where b: "body i s = Ret b" using Suc.prems by (subst (asm) c_for_step [OF i(1)]) (auto simp: obind_eq_Ret)
  note st = assms(1) [OF i(1) b]
  show ?case
  proof (cases b)
    case (Inl s')
    with Suc.prems have "res = Inl s'" by (simp add: c_for_step [OF i(1)] b)
    with Inl st show ?thesis by simp
  next
    case (Inr s')
    with Suc.prems have "c_for (Suc i) n body s' = Ret res" by (simp add: c_for_step [OF i(1)] b)
    from Suc.hyps(1) [OF i(2) this] Inr st show ?thesis by (auto intro: rtranclp_trans)
  qed
qed

text \<open>One slot of the enumeration.\<close>

lemma walk_slot_run:
  assumes t: "\<not> ag_ended \<sigma> t" and i: "i < hr_vector_fill st"
    and b: "obind (read_at v i) (\<lambda>p. case p of
             None \<Rightarrow> Ret (Inr (v, s))
           | Some r \<Rightarrow> obind (records_callback_action_new e (dx_config x) r s) (\<lambda>(rv, r', s').
               if rv \<noteq> 0 then Ret (Inl (v[i := Some r'], s')) else Ret (Inr (v[i := Some r'], s')))) = Ret b"
  shows "agent_steps x (placed t (Walk e i) (st\<lparr>hr_vector := v\<rparr>) s \<sigma>) (case b of
      Inl (v', s') \<Rightarrow> placed t (Flush e) (st\<lparr>hr_vector := v'\<rparr>) s' \<sigma> | Inr (v', s') \<Rightarrow> placed t (Walk e (Suc i)) (st\<lparr>hr_vector := v'\<rparr>) s' \<sigma>)"
proof -
  obtain p where p: "read_at v i = Ret p" using b by (auto simp: obind_eq_Ret)
  note N = pass_next_def action_slot_def p i and step = placed_step [OF t, of _ x]
  show ?thesis
  proof (cases p)
    case None
    with b p show ?thesis using step [of "Walk e i" "st\<lparr>hr_vector := v\<rparr>" s] by (auto simp: N)
  next
    case (Some r)
    then obtain rv r' s' where cb: "records_callback_action_new e (dx_config x) r s = Ret (rv, r', s')"
      using b p by (auto simp: obind_eq_Ret)
    show ?thesis
    proof (cases "due r")
      case False
      then have "pass_next (dx_config x) (Walk e i) (st\<lparr>hr_vector := v\<rparr>, s) =
          Ret (if rv \<noteq> 0 then Flush e else Walk e (Suc i), st\<lparr>hr_vector := v[i := Some r']\<rparr>, s')"
        using Some cb by (auto simp: N due_def)
      from step [OF _ this] b p Some cb show ?thesis by (auto split: if_splits)
    next
      case True
      with cb have da: "do_action e (dx_config x) AC_NEW r s = Ret s'" "rv = 0" "r' = r\<lparr>hr_processed := 1\<rparr>"
        by (auto simp: records_callback_action_new_def due_def obind_eq_Ret)
      then have "agent_step x (placed t (Walk e i) (st\<lparr>hr_vector := v\<rparr>) s \<sigma>) (placed t (Acted e i) (st\<lparr>hr_vector := v\<rparr>) s' \<sigma>)"
        using True Some by (intro step) (simp_all add: N due_def)
      moreover have "agent_step x (placed t (Acted e i) (st\<lparr>hr_vector := v\<rparr>) s' \<sigma>)
          (placed t (Walk e (Suc i)) (st\<lparr>hr_vector := v[i := Some r']\<rparr>) s' \<sigma>)"
        using da(3) Some by (intro step) (simp_all add: pass_next_def action_mark_def p)
      ultimately show ?thesis using b p Some cb da(2) by auto
    qed
  qed
qed

text \<open>One slot of the maintenance.\<close>

lemma purge_slot_run:
  assumes t: "\<not> ag_ended \<sigma> t" and i: "i < hr_vector_size st"
    and b: "obind (read_at v i) (\<lambda>p. case p of
           None \<Rightarrow> Ret (Inr (v, s))
         | Some r \<Rightarrow>
             if hr_remove r \<noteq> 0
             then obind (threads_records_callback_action_removal e (dx_config x) r s) (\<lambda>s'. Ret (Inr (v[i := None], s')))
             else Ret (Inr (v, s))) = Ret b"
  shows "agent_steps x (placed t (Purge e i) (st\<lparr>hr_vector := v\<rparr>) s \<sigma>) (case b of
      Inl (v', s') \<Rightarrow> placed t (Shrink e) (st\<lparr>hr_vector := v'\<rparr>) s' \<sigma> | Inr (v', s') \<Rightarrow> placed t (Purge e (Suc i)) (st\<lparr>hr_vector := v'\<rparr>) s' \<sigma>)"
proof -
  obtain p where p: "read_at v i = Ret p" using b by (auto simp: obind_eq_Ret)
  note N = pass_next_def purge_slot_def p i and step = placed_step [OF t, of _ x]
  show ?thesis
  proof (cases "p = None \<or> hr_remove (the p) = 0")
    case True
    with b p show ?thesis using step [of "Purge e i" "st\<lparr>hr_vector := v\<rparr>" s] by (auto simp: N split: option.splits)
  next
    case False
    then obtain r s' where r: "p = Some r" "hr_remove r \<noteq> 0" "threads_records_callback_action_removal e (dx_config x) r s = Ret s'"
      using b p by (auto simp: obind_eq_Ret)
    then have "agent_step x (placed t (Purge e i) (st\<lparr>hr_vector := v\<rparr>) s \<sigma>) (placed t (Called e i) (st\<lparr>hr_vector := v\<rparr>) s' \<sigma>)"
      by (intro step) (simp_all add: N)
    moreover have "agent_step x (placed t (Called e i) (st\<lparr>hr_vector := v\<rparr>) s' \<sigma>)
        (placed t (Purge e (Suc i)) (st\<lparr>hr_vector := v[i := None]\<rparr>) s' \<sigma>)"
      by (intro step) (simp_all add: pass_next_def purge_free_def)
    ultimately show ?thesis using b p r by auto
  qed
qed

text \<open>A whole pass of either thread, with nobody else running.\<close>

lemma begin_pass:
  assumes t: "t \<noteq> Server_thread" "\<not> ag_ended \<sigma> t" "ag_pc \<sigma> t = Outside" and o: "ag_owner \<sigma> = None" and e: "action_ok e (dx_config x)"
  shows "agent_steps x \<sigma> (placed t (first_pc t e) (d_records (ag_daemon \<sigma>)) (d_action (ag_daemon \<sigma>)) \<sigma>)"
proof -
  let ?\<sigma> = "\<sigma>\<lparr>ag_pc := (ag_pc \<sigma>)(t := Waiting)\<rparr>"
  have h: "holds (first_pc t e)" by (simp add: first_pc_def)
  have "agent_step x \<sigma> ?\<sigma>" using t by (rule agent_step.come)
  moreover have "agent_step x ?\<sigma> (placed t (first_pc t e) (d_records (ag_daemon \<sigma>)) (d_action (ag_daemon \<sigma>)) \<sigma>)"
    using agent_step.lock [of ?\<sigma> t e x] t(2) o e h by (cases \<sigma>) (simp add: placed_def moved_def)
  ultimately show ?thesis by auto
qed

lemma end_pass: "placed t Outside st s (agent_start d) = agent_start (d\<lparr>d_records := st, d_action := s\<rparr>)"
  by (simp add: placed_def moved_def agent_start_def fun_upd_idem)

lemma enumerate_run:
  assumes sys: "lock_rv (act_sys e) = 0" "unlock_rv (act_sys e) = 0" and t: "\<not> ag_ended \<sigma> t"
    and en: "records_enumerate (act_sys e) (records_callback_action_new e (dx_config x)) SYNC (st, s) = Ret (rv, th, st', s')"
  shows "agent_steps x (placed t (Walk e 0) st s \<sigma>) (placed t (Flush e) st' s' \<sigma>)"
proof -
  let ?body = "\<lambda>i (v, s). obind (read_at v i) (\<lambda>p. case p of
             None \<Rightarrow> Ret (Inr (v, s))
           | Some r \<Rightarrow> obind (records_callback_action_new e (dx_config x) r s) (\<lambda>(rv, r', s').
               if rv \<noteq> 0 then Ret (Inl (v[i := Some r'], s')) else Ret (Inr (v[i := Some r'], s'))))"
  let ?f = "\<lambda>i (v, s). placed t (Walk e i) (st\<lparr>hr_vector := v\<rparr>) s \<sigma>" and ?g = "\<lambda>(v, s). placed t (Flush e) (st\<lparr>hr_vector := v\<rparr>) s \<sigma>"
  have fin: "agent_steps x (?f i vs) (?g vs)" if "hr_vector_fill st \<le> i" for i vs
    using that placed_step [OF t, of "Walk e i" x "st\<lparr>hr_vector := fst vs\<rparr>" "snd vs"]
    by (cases vs) (auto simp: pass_next_def action_slot_def)
  have slot: "agent_steps x (?f i vs) (case b of Inl vs' \<Rightarrow> ?g vs' | Inr vs' \<Rightarrow> ?f (Suc i) vs')"
    if "i < hr_vector_fill st" "?body i vs = Ret b" for i vs b
    using walk_slot_run [OF t that(1)] that(2) by (cases vs) auto
  show ?thesis
  proof (cases "c_for 0 (hr_vector_fill st) ?body (hr_vector st, s)")
    case (Ret res)
    from c_for_run [of "hr_vector_fill st" ?body "agent_step x" ?f ?g, OF slot fin Ret]
    have "agent_steps x (placed t (Walk e 0) st s \<sigma>) (case res of Inl vs \<Rightarrow> ?g vs | Inr vs \<Rightarrow> ?g vs)" by simp
    moreover have "(case res of Inl vs \<Rightarrow> ?g vs | Inr vs \<Rightarrow> ?g vs) = placed t (Flush e) st' s' \<sigma>"
      using en sys Ret by (cases res) (auto simp: records_enumerate_def records_enumerate_sync_def with_mutex_def c_assert_def split: if_splits)
    ultimately show ?thesis by simp
  qed (use en sys in \<open>auto simp: records_enumerate_def records_enumerate_sync_def with_mutex_def c_assert_def split: if_splits\<close>)
qed

lemma action_pass_run:
  assumes e: "action_ok e (dx_config x)"
    and p: "action_thread_pass e (dx_config x) (d_records d, d_action d) = Ret (st', s')"
  shows "agent_steps x (agent_start d) (agent_start (d\<lparr>d_records := st', d_action := s'\<rparr>))"
proof -
  let ?\<sigma> = "agent_start d" and ?t = Action_thread
  have t: "\<not> ag_ended ?\<sigma> ?t" by (simp add: agent_start_def)
  have sys: "lock_rv (act_sys e) = 0" "unlock_rv (act_sys e) = 0" using e by (auto simp: action_ok_def sys_ok_def)
  obtain rv th s where en: "records_enumerate (act_sys e) (records_callback_action_new e (dx_config x)) SYNC (d_records d, d_action d) = Ret (rv, th, st', s)"
      and fl: "action_flush e (dx_config x) s = Ret s'"
    using p by (auto simp: action_thread_pass_def action_flush_def obind_eq_Ret split: if_splits)
  have "agent_steps x ?\<sigma> (placed ?t (Walk e 0) (d_records d) (d_action d) ?\<sigma>)"
    using begin_pass [of ?t ?\<sigma> e x] e by (simp add: first_pc_def agent_start_def)
  also note enumerate_run [OF sys t en]
  also have "agent_step x (placed ?t (Flush e) st' s ?\<sigma>) (placed ?t Outside st' s' ?\<sigma>)"
    using agent_step.flush [of "placed ?t (Flush e) st' s ?\<sigma>" ?t e x Outside st' s'] fl t
    by (simp add: pass_next_def placed_def moved_def agent_start_def)
  finally show ?thesis by (simp add: end_pass)
qed

lemma purge_run:
  assumes t: "\<not> ag_ended \<sigma> t"
    and pu: "records_purge (Some (threads_records_callback_action_removal e (dx_config x))) (st, s) = Ret (v', s')"
  shows "agent_steps x (placed t (Purge e 0) st s \<sigma>) (placed t (Shrink e) (st\<lparr>hr_vector := v'\<rparr>) s' \<sigma>)"
proof -
  let ?body = "\<lambda>i (v, s). obind (read_at v i) (\<lambda>p. case p of
           None \<Rightarrow> Ret (Inr (v, s))
         | Some r \<Rightarrow>
             if hr_remove r \<noteq> 0
             then obind (threads_records_callback_action_removal e (dx_config x) r s) (\<lambda>s'. Ret (Inr (v[i := None], s')))
             else Ret (Inr (v, s)))"
  let ?f = "\<lambda>i (v, s). placed t (Purge e i) (st\<lparr>hr_vector := v\<rparr>) s \<sigma>" and ?g = "\<lambda>(v, s). placed t (Shrink e) (st\<lparr>hr_vector := v\<rparr>) s \<sigma>"
  have fin: "agent_steps x (?f i vs) (?g vs)" if "hr_vector_size st \<le> i" for i vs
    using that placed_step [OF t, of "Purge e i" x "st\<lparr>hr_vector := fst vs\<rparr>" "snd vs"]
    by (cases vs) (auto simp: pass_next_def purge_slot_def)
  have slot: "agent_steps x (?f i vs) (case b of Inl vs' \<Rightarrow> ?g vs' | Inr vs' \<Rightarrow> ?f (Suc i) vs')"
    if "i < hr_vector_size st" "?body i vs = Ret b" for i vs b
    using purge_slot_run [OF t that(1)] that(2) by (cases vs) auto
  have "obind (c_for 0 (hr_vector_size st) ?body (hr_vector st, s)) (\<lambda>res. case res of Inl vs \<Rightarrow> Ret vs | Inr vs \<Rightarrow> Ret vs) = Ret (v', s')"
    using pu by (simp add: records_purge_def cong: if_cong option.case_cong)
  then obtain res where res: "c_for 0 (hr_vector_size st) ?body (hr_vector st, s) = Ret res"
      "(case res of Inl vs \<Rightarrow> Ret vs | Inr vs \<Rightarrow> Ret vs) = Ret (v', s')"
    unfolding obind_eq_Ret by blast
  from c_for_run [of "hr_vector_size st" ?body "agent_step x" ?f ?g, OF slot fin res(1)] res(2)
  show ?thesis by (cases res) auto
qed

lemma maintenance_pass_run:
  assumes e: "action_ok e (dx_config x)"
    and p: "maintenance_thread_pass e (dx_config x) (d_records d, d_action d) = Ret (st', s')"
  shows "agent_steps x (agent_start d) (agent_start (d\<lparr>d_records := st', d_action := s'\<rparr>))"
proof -
  let ?\<sigma> = "agent_start d" and ?t = Maintenance_thread
  have t: "\<not> ag_ended ?\<sigma> ?t" by (simp add: agent_start_def)
  have sys: "lock_rv (act_sys e) = 0" "unlock_rv (act_sys e) = 0" using e by (auto simp: action_ok_def sys_ok_def)
  obtain v rv where pu: "records_purge (Some (threads_records_callback_action_removal e (dx_config x))) (d_records d, d_action d) = Ret (v, s')"
      and sh: "records_shrink (act_sys e) (d_records d\<lparr>hr_vector := v\<rparr>) = Ret (rv, st')"
    using p sys by (auto simp: maintenance_thread_pass_def records_maintenance_def with_mutex_def c_assert_def obind_eq_Ret split: if_splits)
  have "agent_steps x ?\<sigma> (placed ?t (Purge e 0) (d_records d) (d_action d) ?\<sigma>)"
    using begin_pass [of ?t ?\<sigma> e x] e by (simp add: first_pc_def agent_start_def)
  also note purge_run [OF t pu]
  also have "agent_step x (placed ?t (Shrink e) (d_records d\<lparr>hr_vector := v\<rparr>) s' ?\<sigma>) (placed ?t Outside st' s' ?\<sigma>)"
    using sh by (intro placed_step [OF t]) (simp_all add: pass_next_def)
  finally show ?thesis by (simp add: end_pass)
qed

text \<open>So whatever the daemon of whole passes can do, the threads can do in pieces.\<close>

lemma daemon_step_run:
  assumes "daemon_step x d d'"
  shows "agent_steps x (agent_start d) (agent_start d')"
proof -
  have "agent_step x (agent_start d) (agent_start d')" if "as_log (d_action d') = as_log (d_action d)"
    using agent_step.section_of_other [of x "agent_start d" d'] assms that by (simp add: agent_start_def)
  with assms show ?thesis
    by cases (auto simp: set_queue_def intro: action_pass_run maintenance_pass_run)
qed

lemma daemon_reach_run: "daemon_reach x d0 d \<Longrightarrow> agent_steps x (agent_start d0) (agent_start d)"
  by (induction rule: daemon_reach.induct) (auto intro: daemon_step_run rtranclp_trans)

subsection \<open>How a shutdown comes to be blocked\<close>

text \<open>A maintenance pass over a table with a processed record that is to be removed gets to the script.\<close>

lemma reach_script:
  assumes t: "\<not> ag_ended \<sigma> t" and e: "action_ok e (dx_config x)"
    and v: "length v = hr_vector_size st" "\<And>r. Some r \<in> set v \<Longrightarrow> wf_hostrecord r"
    and k: "i \<le> k" "k < length v" "v ! k = Some q" "hr_remove q \<noteq> 0" "hr_processed q \<noteq> 0"
  shows "\<exists>v' s' j r. agent_steps x (placed t (Purge e i) (st\<lparr>hr_vector := v\<rparr>) s \<sigma>) (placed t (Called e j) (st\<lparr>hr_vector := v'\<rparr>) s' \<sigma>)
    \<and> j < length v' \<and> v' ! j = Some r \<and> hr_processed r \<noteq> 0"
  using v k
proof (induction "length v - i" arbitrary: i v s)
  case 0
  then show ?case by simp
next
  case (Suc n)
  let ?st = "st\<lparr>hr_vector := v\<rparr>"
  have i: "i < length v" "n = length v - Suc i" using Suc.hyps(2) by auto
  note N = pass_next_def purge_slot_def read_at_def and step = placed_step [OF t, of _ x]
  have next_slot: ?case if "agent_steps x (placed t (Purge e i) ?st s \<sigma>) (placed t (Purge e (Suc i)) (st\<lparr>hr_vector := w\<rparr>) s' \<sigma>)"
    "length w = length v" "set w \<subseteq> insert None (set v)" "w ! k = v ! k" "i \<noteq> k" for w s'
  proof -
    have "\<exists>v' s'' j r. agent_steps x (placed t (Purge e (Suc i)) (st\<lparr>hr_vector := w\<rparr>) s' \<sigma>) (placed t (Called e j) (st\<lparr>hr_vector := v'\<rparr>) s'' \<sigma>)
        \<and> j < length v' \<and> v' ! j = Some r \<and> hr_processed r \<noteq> 0"
      using that Suc.prems i(2) by (intro Suc.hyps(1)) auto
    then show ?thesis using rtranclp_trans [OF that(1)] by blast
  qed
  show ?case
  proof (cases "v ! i")
    case None
    have "agent_step x (placed t (Purge e i) ?st s \<sigma>) (placed t (Purge e (Suc i)) ?st s \<sigma>)"
      by (intro step) (use None i Suc.prems(1) in \<open>simp_all add: N\<close>)
    then show ?thesis by (intro next_slot [OF r_into_rtranclp]) (use None Suc.prems in auto)
  next
    case (Some r)
    then have "wf_hostrecord r" using Suc.prems(2) i(1) by (metis nth_mem)
    then have cb: "threads_records_callback_action_removal e (dx_config x) r s = Ret (removal_st (dx_config x) r s)"
      using removal_rm_ok [OF e] by (auto simp: rm_ok_def)
    have kept: "agent_step x (placed t (Purge e i) ?st s \<sigma>) (placed t (Purge e (Suc i)) ?st s \<sigma>)" if "hr_remove r = 0"
      by (intro step) (use that Some i Suc.prems(1) in \<open>simp_all add: N\<close>)
    have called: "agent_step x (placed t (Purge e i) ?st s \<sigma>) (placed t (Called e i) ?st (removal_st (dx_config x) r s) \<sigma>)" if "hr_remove r \<noteq> 0"
      by (intro step) (use that Some cb i Suc.prems(1) in \<open>simp_all add: N\<close>)
    have freed: "agent_step x (placed t (Called e i) ?st s' \<sigma>) (placed t (Purge e (Suc i)) (st\<lparr>hr_vector := v[i := None]\<rparr>) s' \<sigma>)" for s'
      by (intro step) (simp_all add: pass_next_def purge_free_def)
    consider "hr_remove r = 0" | "hr_remove r \<noteq> 0" "hr_processed r = 0" | "hr_remove r \<noteq> 0" "hr_processed r \<noteq> 0" by blast
    then show ?thesis
    proof cases
      case 1
      then show ?thesis using kept Some Suc.prems by (intro next_slot [OF r_into_rtranclp]) auto
    next
      case 2
      then have "agent_steps x (placed t (Purge e i) ?st s \<sigma>) (placed t (Purge e (Suc i)) (st\<lparr>hr_vector := v[i := None]\<rparr>) (removal_st (dx_config x) r s) \<sigma>)"
        using called freed [of "removal_st (dx_config x) r s"] by (intro converse_rtranclp_into_rtranclp [OF _ r_into_rtranclp])
      moreover have "i \<noteq> k" using 2 Some Suc.prems(5,7) by auto
      ultimately show ?thesis using Some Suc.prems set_update_subset_insert [of v i None] by (intro next_slot [of "v[i := None]"]) auto
    next
      case 3
      then have "agent_steps x (placed t (Purge e i) ?st s \<sigma>) (placed t (Called e i) ?st (removal_st (dx_config x) r s) \<sigma>)"
        using called by (intro r_into_rtranclp)
      with 3 Some i(1) show ?thesis by - (rule exI [of _ v], rule exI, rule exI [of _ i], rule exI [of _ r], simp)
    qed
  qed
qed

text \<open>The first part of \<^verbatim>\<open>threads_stop\<close>, up to the maintenance thread.\<close>

lemma stop_server:
  assumes "ag_main \<sigma> = None"
  shows "\<exists>\<sigma>'. agent_steps x \<sigma> \<sigma>' \<and> ag_daemon \<sigma>' = ag_daemon \<sigma> \<and> ag_pc \<sigma>' = ag_pc \<sigma> \<and> ag_owner \<sigma>' = ag_owner \<sigma>
    \<and> (\<forall>t. t \<noteq> Server_thread \<longrightarrow> ag_ended \<sigma>' t = ag_ended \<sigma> t)
    \<and> ag_main \<sigma>' = Some [Cancel Maintenance_thread, Join Maintenance_thread, Cancel Action_thread, Join Action_thread]"
proof -
  let ?m = "[Cancel Maintenance_thread, Join Maintenance_thread, Cancel Action_thread, Join Action_thread]"
  let ?\<sigma> = "\<sigma>\<lparr>ag_main := Some (stop_calls (dx_config x))\<rparr>"
  have 0: "agent_step x \<sigma> ?\<sigma>" using assms by (rule agent_step.leave_follow)
  show ?thesis
  proof (cases "cfg_server (dx_config x) = 0")
    case True
    with 0 show ?thesis by (intro exI [of _ ?\<sigma>]) (auto simp: stop_calls_def)
  next
    case False
    let ?\<sigma>1 = "?\<sigma>\<lparr>ag_main := Some (Join Server_thread # ?m), ag_cancel := (ag_cancel \<sigma>)(Server_thread := True)\<rparr>"
    let ?\<sigma>2 = "?\<sigma>1\<lparr>ag_ended := (ag_ended \<sigma>)(Server_thread := True)\<rparr>"
    have 1: "agent_step x ?\<sigma> ?\<sigma>1"
      using agent_step.cancel [of ?\<sigma> Server_thread "Join Server_thread # ?m"] False by (simp add: stop_calls_def)
    have 2: "agent_step x ?\<sigma>1 ?\<sigma>2" using agent_step.server_ends [of x ?\<sigma>1] by simp
    have 3: "agent_step x ?\<sigma>2 (?\<sigma>2\<lparr>ag_main := Some ?m\<rparr>)" by (rule agent_step.join [of _ Server_thread]) simp_all
    from 0 1 2 3 have "agent_steps x \<sigma> (?\<sigma>2\<lparr>ag_main := Some ?m\<rparr>)" by (meson converse_rtranclp_into_rtranclp rtranclp.rtrancl_refl)
    then show ?thesis by (intro exI [of _ "?\<sigma>2\<lparr>ag_main := Some ?m\<rparr>"]) simp
  qed
qed

text \<open>
  The maintenance thread is cancelled in the script, with the action thread asleep or waiting for the mutex.
\<close>

lemma reach_cancelled:
  assumes p: "p = Outside \<or> p = Waiting" and e: "action_ok e (dx_config x)" and d: "daemon_inv d"
    and r: "records_map (d_records d) ip = Some r" "hr_remove r \<noteq> 0" "hr_processed r \<noteq> 0"
  shows "\<exists>\<sigma>. agent_steps x (agent_start d) \<sigma> \<and> ag_owner \<sigma> = Some Maintenance_thread \<and> ag_ended \<sigma> Maintenance_thread
    \<and> ag_pc \<sigma> Action_thread = p \<and> \<not> ag_ended \<sigma> Action_thread \<and> ag_main \<sigma> = Some [Cancel Action_thread, Join Action_thread]
    \<and> (\<exists>ip. in_hand \<sigma> = Some (AC_REMOVE, ip))"
proof -
  let ?\<sigma> = "(agent_start d)\<lparr>ag_pc := (\<lambda>_. Outside)(Action_thread := p)\<rparr>" and ?t = Maintenance_thread
  have inv: "records_inv (d_records d)" using d by (simp add: daemon_inv_iff)
  note I = records_invD [OF inv]
  obtain k where k: "k < length (hr_vector (d_records d))" "hr_vector (d_records d) ! k = Some r"
    using r(1) inv by (metis in_set_conv_nth records_map_Some)
  have "agent_steps x (agent_start d) ?\<sigma>"
    using p agent_step.come [of Action_thread "agent_start d" x] by (auto simp: agent_start_def fun_upd_idem)
  then have 1: "agent_steps x (agent_start d) (placed ?t (Purge e 0) (d_records d) (d_action d) ?\<sigma>)"
    using begin_pass [of ?t ?\<sigma> e x] e by (auto simp: agent_start_def first_pc_def intro: rtranclp_trans)
  obtain v s j q where 2: "agent_steps x (placed ?t (Purge e 0) (d_records d) (d_action d) ?\<sigma>) (placed ?t (Called e j) (d_records d\<lparr>hr_vector := v\<rparr>) s ?\<sigma>)"
      and q: "v ! j = Some q" "hr_processed q \<noteq> 0"
    using reach_script [of ?\<sigma> ?t e x "hr_vector (d_records d)" "d_records d" 0 k r "d_action d"] e I(2,5) k r
    by (auto simp: agent_start_def)
  let ?\<sigma>1 = "placed ?t (Called e j) (d_records d\<lparr>hr_vector := v\<rparr>) s ?\<sigma>"
  obtain \<sigma>2 where 3: "agent_steps x ?\<sigma>1 \<sigma>2" and s2: "ag_daemon \<sigma>2 = ag_daemon ?\<sigma>1" "ag_pc \<sigma>2 = ag_pc ?\<sigma>1" "ag_owner \<sigma>2 = ag_owner ?\<sigma>1"
      "\<And>t. t \<noteq> Server_thread \<Longrightarrow> ag_ended \<sigma>2 t = ag_ended ?\<sigma>1 t"
      "ag_main \<sigma>2 = Some [Cancel ?t, Join ?t, Cancel Action_thread, Join Action_thread]"
    using stop_server [of ?\<sigma>1 x] by (auto simp: agent_start_def)
  let ?\<sigma>3 = "\<sigma>2\<lparr>ag_main := Some [Join ?t, Cancel Action_thread, Join Action_thread], ag_cancel := (ag_cancel \<sigma>2)(?t := True)\<rparr>"
  let ?\<sigma>4 = "?\<sigma>3\<lparr>ag_ended := (ag_ended \<sigma>2)(?t := True)\<rparr>"
  let ?\<sigma>5 = "?\<sigma>4\<lparr>ag_main := Some [Cancel Action_thread, Join Action_thread]\<rparr>"
  have 4: "agent_step x \<sigma>2 ?\<sigma>3" using s2(5) by (rule agent_step.cancel)
  have 5: "agent_step x ?\<sigma>3 ?\<sigma>4"
    using agent_step.die [of ?\<sigma>3 ?t x] s2(1,2,4) q by (simp add: cancel_point_def agent_start_def)
  have 6: "agent_step x ?\<sigma>4 ?\<sigma>5" by (rule agent_step.join [of _ ?t]) simp_all
  have "agent_steps x (agent_start d) ?\<sigma>5"
    using 1 2 3 4 5 6 by (meson rtranclp.rtrancl_into_rtrancl rtranclp_trans)
  moreover have "in_hand ?\<sigma>5 = Some (AC_REMOVE, ip_of q)" using s2(1-3) q by (simp add: in_hand_def half_done_def)
  ultimately show ?thesis using s2(2-4) by (intro exI [of _ ?\<sigma>5]) (simp add: agent_start_def)
qed

lemma demo_marked:
  "\<exists>d r. daemon_reach demo_ext demo_daemon d \<and> records_map (d_records d) ''10.1.2.3'' = Some r \<and> hr_remove r \<noteq> 0 \<and> hr_processed r \<noteq> 0"
proof -
  let ?c = "demo_config\<lparr>cfg_action_threshold := 1\<rparr>"
  have x: "demo_ext\<lparr>dx_config := ?c\<rparr> = demo_ext" by (simp add: demo_ext_def)
  obtain d where d: "daemon_reach demo_ext demo_daemon d"
      "records_map (d_records d) ''10.1.2.3'' = Some ((fresh_record ?c 1000 ''10.1.2.3'')\<lparr>hr_processed := 1\<rparr>)"
    using demo_run_record [of ?c] unfolding x by auto
  have "records_inv (d_records d)"
    using daemon_reach_inv [OF d(1) demo_ext_ok(1) daemon_start_inv [OF demo_daemon_start]] by (simp add: daemon_inv_iff)
  from remove_all_spec [OF this, of calm_env "()"]
  obtain st where st: "records_enumerate_thread calm_env records_callback_remove_all (d_records d, ()) = Ret (st, ())"
      "records_map st = (\<lambda>ip. map_option (\<lambda>r. r\<lparr>hr_remove := 1\<rparr>) (records_map (d_records d) ip))"
    unfolding returns_iff by (auto simp: calm_env_def sys_ok_def)
  have "daemon_reach demo_ext demo_daemon (d\<lparr>d_records := st\<rparr>)"
    by (rule daemon_reach.step [OF d(1) daemon_step.remove_all [OF _ st(1)]]) (simp add: calm_env_def sys_ok_def)
  with d(2) st(2) show ?thesis by (intro exI [of _ "d\<lparr>d_records := st\<rparr>"]) auto
qed

lemma demo_cancelled:
  assumes "p = Outside \<or> p = Waiting"
  shows "\<exists>\<sigma>. agent_steps demo_ext (agent_start demo_daemon) \<sigma> \<and> ag_owner \<sigma> = Some Maintenance_thread \<and> ag_ended \<sigma> Maintenance_thread
    \<and> ag_pc \<sigma> Action_thread = p \<and> \<not> ag_ended \<sigma> Action_thread \<and> ag_main \<sigma> = Some [Cancel Action_thread, Join Action_thread]
    \<and> (\<exists>ip. in_hand \<sigma> = Some (AC_REMOVE, ip))"
proof -
  obtain d r where d: "daemon_reach demo_ext demo_daemon d" "records_map (d_records d) ''10.1.2.3'' = Some r" "hr_remove r \<noteq> 0" "hr_processed r \<noteq> 0"
    using demo_marked by blast
  have "daemon_inv d" by (rule daemon_reach_inv [OF d(1) demo_ext_ok(1) daemon_start_inv [OF demo_daemon_start]])
  from reach_cancelled [OF assms demo_ext_ok(2) this d(2-4)] show ?thesis
    using rtranclp_trans [OF daemon_reach_run [OF d(1)]] by fast
qed

lemma demo_ended:
  "\<exists>\<sigma> ip. agent_steps demo_ext (agent_start demo_daemon) \<sigma> \<and> ag_main \<sigma> = Some [] \<and> in_hand \<sigma> = Some (AC_REMOVE, ip)"
proof -
  let ?a = Action_thread
  obtain \<sigma> ip where s: "agent_steps demo_ext (agent_start demo_daemon) \<sigma>" "ag_pc \<sigma> ?a = Outside" "\<not> ag_ended \<sigma> ?a"
      "ag_main \<sigma> = Some [Cancel ?a, Join ?a]" "in_hand \<sigma> = Some (AC_REMOVE, ip)"
    using demo_cancelled [of Outside] by auto
  let ?\<sigma>1 = "\<sigma>\<lparr>ag_main := Some [Join ?a], ag_cancel := (ag_cancel \<sigma>)(?a := True)\<rparr>"
  let ?\<sigma>2 = "?\<sigma>1\<lparr>ag_ended := (ag_ended \<sigma>)(?a := True)\<rparr>"
  have 1: "agent_step demo_ext \<sigma> ?\<sigma>1" using s(4) by (rule agent_step.cancel)
  have 2: "agent_step demo_ext ?\<sigma>1 ?\<sigma>2" using agent_step.die [of ?\<sigma>1 ?a demo_ext] s(2,3) by (simp add: cancel_point_def)
  have 3: "agent_step demo_ext ?\<sigma>2 (?\<sigma>2\<lparr>ag_main := Some []\<rparr>)" by (rule agent_step.join [of _ ?a]) simp_all
  have "agent_steps demo_ext (agent_start demo_daemon) (?\<sigma>2\<lparr>ag_main := Some []\<rparr>)"
    using s(1) 1 2 3 by (meson rtranclp.rtrancl_into_rtrancl)
  with s(5) show ?thesis by (intro exI [of _ "?\<sigma>2\<lparr>ag_main := Some []\<rparr>"] exI [of _ ip]) simp
qed

subsection \<open>Properties\<close>

text \<open>
  C14. The books of the action script at every instant, also in the middle of a pass and after a thread has been
  cancelled: the table satisfies its invariant, at most one thread is between the lock and the unlock, and for
  every address the script has been run with \<^verbatim>\<open>new\<close> once more than with \<^verbatim>\<open>remove\<close> if a processed record is in the table, and
  equally often if not, except for the one address whose script has just been run and whose record has not been
  marked or freed yet.
\<close>

theorem interleaved_books:
  assumes "daemon_start x d0" and "ext_ok x" and "agent_steps x (agent_start d0) \<sigma>"
  shows "records_inv (d_records (ag_daemon \<sigma>)) \<and> (\<forall>t t'. holds (ag_pc \<sigma> t) \<and> holds (ag_pc \<sigma> t') \<longrightarrow> t = t')
    \<and> (\<forall>ip. runs AC_NEW ip (as_log (d_action (ag_daemon \<sigma>))) + (if in_hand \<sigma> = Some (AC_REMOVE, ip) then 1 else 0) =
        runs AC_REMOVE ip (as_log (d_action (ag_daemon \<sigma>))) + in_effect (records_map (d_records (ag_daemon \<sigma>)) ip)
          + (if in_hand \<sigma> = Some (AC_NEW, ip) then 1 else 0))"
proof -
  note I = agent_invD [OF agent_reach_inv [OF assms]]
  show ?thesis using I(1,2) by (auto simp: daemon_wf_def books_def I(3))
qed

theorem interleaved_books_witness:
  "\<exists>\<sigma> ip. agent_steps demo_ext (agent_start demo_daemon) \<sigma> \<and> in_hand \<sigma> = Some (AC_REMOVE, ip)
     \<and> runs AC_NEW ip (as_log (d_action (ag_daemon \<sigma>))) + 1 =
        runs AC_REMOVE ip (as_log (d_action (ag_daemon \<sigma>))) + in_effect (records_map (d_records (ag_daemon \<sigma>)) ip)"
proof -
  obtain \<sigma> ip where s: "agent_steps demo_ext (agent_start demo_daemon) \<sigma>" "in_hand \<sigma> = Some (AC_REMOVE, ip)"
    using demo_cancelled [of Outside] by auto
  from interleaved_books [OF demo_daemon_start demo_ext_ok(1) s(1)] s show ?thesis
    by (intro exI [of _ \<sigma>] exI [of _ ip]) (auto dest: spec [of _ ip])
qed

text \<open>
  C19. The daemon whose passes are atomic is a view of the threads that take them in pieces: every state it can
  reach is reached by the threads, step by step under the mutex, with all of them asleep.
\<close>

theorem atomic_passes_refined:
  assumes "daemon_reach x d0 d"
  shows "agent_steps x (agent_start d0) (agent_start d)"
  using assms by (rule daemon_reach_run)

theorem atomic_passes_refined_witness:
  "\<exists>d. agent_steps demo_ext (agent_start demo_daemon) (agent_start d) \<and> runs AC_NEW ''10.1.2.3'' (as_log (d_action d)) = 1"
  using demo_run atomic_passes_refined by blast

text \<open>
  C16. When a shutdown can still end: from every state the program can reach after it has begun to stop its threads,
  \<^verbatim>\<open>threads_stop\<close> can return if and only if no thread that is still to be joined waits for a mutex whose owner has
  been cancelled.
\<close>

theorem shutdown_ends_iff:
  assumes "daemon_start x d0" and "ext_ok x" and "agent_steps x (agent_start d0) \<sigma>" and "ag_main \<sigma> = Some cs"
    and "action_ok e (dx_config x)"
  shows "(\<exists>\<sigma>'. agent_steps x \<sigma> \<sigma>' \<and> ag_main \<sigma>' = Some []) \<longleftrightarrow> \<not> blocked \<sigma>"
proof -
  have inv: "agent_inv x \<sigma>" by (rule agent_reach_inv [OF assms(1-3)])
  show ?thesis using blocked_for_ever [OF _ assms(2) inv] finish_calls [OF assms(2,5) inv assms(4)] by blast
qed

theorem shutdown_ends_iff_witness:
  "(\<exists>\<sigma> \<sigma>'. agent_steps demo_ext (agent_start demo_daemon) \<sigma> \<and> ag_main \<sigma> = Some [Cancel Action_thread, Join Action_thread]
      \<and> agent_steps demo_ext \<sigma> \<sigma>' \<and> ag_main \<sigma>' = Some [])
   \<and> (\<exists>\<sigma>. agent_steps demo_ext (agent_start demo_daemon) \<sigma> \<and> ag_main \<sigma> = Some [Cancel Action_thread, Join Action_thread]
      \<and> \<not> (\<exists>\<sigma>'. agent_steps demo_ext \<sigma> \<sigma>' \<and> ag_main \<sigma>' = Some []))"
proof -
  obtain \<sigma> where s: "agent_steps demo_ext (agent_start demo_daemon) \<sigma>" "ag_ended \<sigma> Maintenance_thread" "ag_pc \<sigma> Action_thread = Outside"
      "ag_main \<sigma> = Some [Cancel Action_thread, Join Action_thread]"
    using demo_cancelled [of Outside] by auto
  have nb: "\<not> blocked \<sigma>" using s(3,4) by (auto simp: blocked_def blocked_by_def)
  obtain \<sigma>1 where s1: "agent_steps demo_ext (agent_start demo_daemon) \<sigma>1" "ag_owner \<sigma>1 = Some Maintenance_thread"
      "ag_ended \<sigma>1 Maintenance_thread" "ag_pc \<sigma>1 Action_thread = Waiting" "\<not> ag_ended \<sigma>1 Action_thread"
      "ag_main \<sigma>1 = Some [Cancel Action_thread, Join Action_thread]"
    using demo_cancelled [of Waiting] by auto
  have b: "blocked \<sigma>1" using s1(2-6) by (auto simp: blocked_def blocked_by_def)
  note iff = shutdown_ends_iff [OF demo_daemon_start demo_ext_ok(1) _ _ demo_ext_ok(2)]
  from iff [OF s(1,4)] nb s iff [OF s1(1,6)] b s1 show ?thesis by blast
qed

text \<open>
  C38. A shutdown can hang: in every state of the daemon in which a processed record is marked for removal, the
  maintenance thread can be cancelled while it waits for the script; the mutex stays locked, the action thread
  waits for it, and \<^verbatim>\<open>pthread_join\<close> of the action thread never returns, whatever the threads do from then on.
\<close>

theorem shutdown_can_hang:
  assumes "daemon_start x d0" and "ext_ok x" and "daemon_reach x d0 d" and "action_ok e (dx_config x)"
    and "records_map (d_records d) ip = Some r" and "hr_remove r \<noteq> 0" and "hr_processed r \<noteq> 0"
  shows "\<exists>\<sigma>. agent_steps x (agent_start d0) \<sigma> \<and> ag_owner \<sigma> = Some Maintenance_thread \<and> ag_ended \<sigma> Maintenance_thread
    \<and> ag_main \<sigma> = Some [Cancel Action_thread, Join Action_thread]
    \<and> (\<forall>\<sigma>'. agent_steps x \<sigma> \<sigma>' \<longrightarrow> ag_main \<sigma>' \<noteq> Some [])"
proof -
  have "daemon_inv d" by (rule daemon_reach_inv [OF assms(3,2) daemon_start_inv [OF assms(1)]])
  then obtain \<sigma> where s: "agent_steps x (agent_start d) \<sigma>" "ag_owner \<sigma> = Some Maintenance_thread" "ag_ended \<sigma> Maintenance_thread"
      "ag_pc \<sigma> Action_thread = Waiting" "\<not> ag_ended \<sigma> Action_thread" "ag_main \<sigma> = Some [Cancel Action_thread, Join Action_thread]"
    using reach_cancelled [of Waiting e x d ip r] assms(4-7) by auto
  have r: "agent_steps x (agent_start d0) \<sigma>" using daemon_reach_run [OF assms(3)] s(1) by (rule rtranclp_trans)
  have "blocked \<sigma>" using s(2-6) by (auto simp: blocked_def blocked_by_def)
  with blocked_for_ever [OF _ assms(2) agent_reach_inv [OF assms(1,2) r]] r s show ?thesis by blast
qed

theorem shutdown_can_hang_witness:
  "\<exists>\<sigma>. agent_steps demo_ext (agent_start demo_daemon) \<sigma> \<and> ag_main \<sigma> = Some [Cancel Action_thread, Join Action_thread]
     \<and> (\<forall>\<sigma>'. agent_steps demo_ext \<sigma> \<sigma>' \<longrightarrow> ag_main \<sigma>' \<noteq> Some [])"
  using demo_marked shutdown_can_hang [OF demo_daemon_start demo_ext_ok(1) _ demo_ext_ok(2)] by meson

text \<open>
  C15. What a shutdown leaves behind: when \<^verbatim>\<open>threads_stop\<close> has returned, whatever was cancelled where, \<^verbatim>\<open>records_destroy\<close> makes
  the runs of the script with \<^verbatim>\<open>new\<close> and with \<^verbatim>\<open>remove\<close> equal for every address but at most one, the one a cancelled thread
  had in hand: it has one \<^verbatim>\<open>new\<close> without a \<^verbatim>\<open>remove\<close> if the action thread was cancelled in the script, and one \<^verbatim>\<open>remove\<close> too
  many if the maintenance thread was.
\<close>

theorem shutdown_books:
  assumes "daemon_start x d0" and "ext_ok x" and "agent_steps x (agent_start d0) \<sigma>" and "ag_main \<sigma> = Some []"
    and "action_ok e (dx_config x)"
  shows "returns (records_destroy (act_sys e) (Some (threads_records_callback_action_removal e (dx_config x))) (ag_table \<sigma>))
      (\<lambda>(st, s). \<forall>ip. runs AC_NEW ip (as_log s) + (if in_hand \<sigma> = Some (AC_REMOVE, ip) then 1 else 0) =
        runs AC_REMOVE ip (as_log s) + (if in_hand \<sigma> = Some (AC_NEW, ip) then 1 else 0))
    \<and> (in_hand \<sigma> \<noteq> None \<longrightarrow> (\<exists>t. t \<noteq> Server_thread \<and> ag_owner \<sigma> = Some t \<and> ag_ended \<sigma> t))"
  using destroyed_books [OF agent_reach_inv [OF assms(1-3)] assms(5)] hand_of_ended [OF agent_reach_inv [OF assms(1-3)] assms(4)] by blast

theorem shutdown_books_witness:
  "\<exists>\<sigma> ip. agent_steps demo_ext (agent_start demo_daemon) \<sigma> \<and> ag_main \<sigma> = Some [] \<and> in_hand \<sigma> = Some (AC_REMOVE, ip)
     \<and> returns (records_destroy (act_sys calm_action) (Some (threads_records_callback_action_removal calm_action (dx_config demo_ext))) (ag_table \<sigma>))
         (\<lambda>(st, s). runs AC_REMOVE ip (as_log s) = runs AC_NEW ip (as_log s) + 1)"
proof -
  obtain \<sigma> ip where s: "agent_steps demo_ext (agent_start demo_daemon) \<sigma>" "ag_main \<sigma> = Some []" "in_hand \<sigma> = Some (AC_REMOVE, ip)"
    using demo_ended by blast
  note b = shutdown_books [OF demo_daemon_start demo_ext_ok(1) s(1,2) demo_ext_ok(2)]
  have "returns (records_destroy (act_sys calm_action) (Some (threads_records_callback_action_removal calm_action (dx_config demo_ext))) (ag_table \<sigma>))
      (\<lambda>(st, s). runs AC_REMOVE ip (as_log s) = runs AC_NEW ip (as_log s) + 1)"
    by (rule ospec_mono [OF b [THEN conjunct1]]) (auto simp: s(3) dest: spec [of _ ip])
  with s show ?thesis by blast
qed

end
