(* ===== verification/Life.thy ===== *)
theory Life
  imports Shutdown
begin

section \<open>The life of the program (main.c)\<close>

text \<open>
  From the options to \<^verbatim>\<open>exit(0)\<close>, with the threads of \<open>Shutdown\<close> in between: their passes go slot by slot, they can be
  cancelled in the middle of one, and \<^verbatim>\<open>threads_stop\<close> waits for them. Starting and stopping the client are sections of \<^verbatim>\<open>main\<close>
  among theirs; what happens when \<^verbatim>\<open>client_stop\<close> overtakes a flush is in \<open>Client_Stop\<close>. The lemmas show
  that those two are steps of the threads, and what the statements after \<^verbatim>\<open>threads_stop\<close> leave. The other theorem of this
  theory says which sections never end the program.
\<close>

subsection \<open>The client\<close>

lemma main_client_start_step:
  assumes "main_client_start e (dx_config x) d = Ret d'" and "\<And>i. sys_ok (me_sys_client e i)" and "me_cond_client e = (\<lambda>_. 0)"
    and "agents_ok (cfg_inform_agents (dx_config x))"
  shows "d' = d \<or> daemon_step x d d' \<and> d_records d' = d_records d \<and> as_log (d_action d') = as_log (d_action d)"
proof (cases "cfg_inform (dx_config x) = 1 \<and> cfg_inform_agents (dx_config x) \<noteq> []")
  case True
  then obtain rv cl where "client_start (me_ndebug e) (me_sys_client e) (\<lambda>_. 0) (cfg_inform_agents (dx_config x)) (as_client (d_action d)) = Ret (rv, cl)"
      "d' = d\<lparr>d_action := (d_action d)\<lparr>as_client := cl\<rparr>\<rparr>"
    using assms(1,3) by (auto simp: main_client_start_def obind_eq_Ret split: if_splits)
  with daemon_step.client_up [of x "me_sys_client e", OF _ _ assms(4,2)] True show ?thesis by auto
qed (use assms(1) in \<open>auto simp: main_client_start_def split: if_splits\<close>)

lemma main_client_stop_step:
  assumes "main_client_stop CONFIG d = Ret d'"
  shows "d' = d \<or> daemon_step x d d' \<and> d_records d' = d_records d \<and> as_log (d_action d') = as_log (d_action d)"
  using assms by (auto simp: main_client_stop_def obind_eq_Ret split: if_splits intro: daemon_step.client_down)

lemma section_steps:
  assumes "d' = ag_daemon \<sigma> \<or> daemon_step x (ag_daemon \<sigma>) d' \<and> d_records d' = d_records (ag_daemon \<sigma>)
    \<and> as_log (d_action d') = as_log (d_action (ag_daemon \<sigma>))"
  shows "agent_steps x \<sigma> (\<sigma>\<lparr>ag_daemon := d'\<rparr>)"
  using assms agent_step.section_of_other [of x \<sigma> d'] by (cases \<sigma>) auto

subsection \<open>What the way down leaves\<close>

lemma out_done_closed: "\<not> ot_SYSLOG_INIT (out_done st)"
  by (simp add: out_done_def)

text \<open>After \<^verbatim>\<open>threads_stop\<close>, every part of the shutdown succeeds, and the books are closed but for what a thread had in hand.\<close>

lemma main_end_spec:
  assumes p: "main_start e o' = Ret p" and inv: "agent_inv x \<sigma>" and x: "dx_config x = pr_config p"
    and a: "action_ok (ee_action ee) (pr_config p)"
  shows "returns (main_end e ee o' (main_started e p) (ag_daemon \<sigma>)) (\<lambda>q. pe_status q = 0
    \<and> (\<forall>ip. runs AC_NEW ip (as_log (pe_action q)) + (if in_hand \<sigma> = Some (AC_REMOVE, ip) then 1 else 0) =
        runs AC_REMOVE ip (as_log (pe_action q)) + (if in_hand \<sigma> = Some (AC_NEW, ip) then 1 else 0))
    \<and> ssl_ctx_client (pe_tls q) = None \<and> ssl_ctx_server (pe_tls q) = None
    \<and> (ee_unlink ee = 0 \<longrightarrow> pe_pidfile q = None) \<and> \<not> ot_SYSLOG_INIT (pe_out q)
    \<and> pe_freed q = cfg_listen (pr_config p) @ cfg_inform_agents (pr_config p))"
proof -
  let ?c = "pr_config p"
  note parts = main_start_parts [OF p]
  obtain rs s where rs: "records_destroy (act_sys (ee_action ee)) (Some (threads_records_callback_action_removal (ee_action ee) ?c))
      (ag_table \<sigma>) = Ret (rs, s)" "\<forall>ip. runs AC_NEW ip (as_log s) + (if in_hand \<sigma> = Some (AC_REMOVE, ip) then 1 else 0) =
        runs AC_REMOVE ip (as_log s) + (if in_hand \<sigma> = Some (AC_NEW, ip) then 1 else 0)"
    using destroyed_books [OF inv a [folded x]] x unfolding returns_iff by auto
  obtain ex where ex: "exclude_destroy (d_exclude (ag_daemon \<sigma>)) = Ret ex"
    using agent_invD(1) [OF inv] exclude_destroy_ok unfolding daemon_wf_def by blast
  obtain tls where tls: "main_tls_stop e ?c (pr_tls p) = Ret tls" "ssl_ctx_client tls = None" "ssl_ctx_server tls = None"
    using main_tls_start_stop [OF parts(6)] .
  have pf: "opt_daemonmode o' \<Longrightarrow> terminated (cfg_pidfile ?c)" "\<not> opt_daemonmode o' \<Longrightarrow> pr_pidfile p = None"
    using parts(2) by (auto simp: main_pidfile_def obind_eq_Ret c_string_eq_Ret)
  show ?thesis
    using rs ex tls pf out_done_closed
    by (cases "opt_daemonmode o'") (simp_all add: main_end_def main_started_def c_string_def Let_def config_free_def)
qed

text \<open>For a witness: two sleeping threads are cancelled and joined one after the other.\<close>

lemma stop_sleeping:
  assumes "ag_main \<sigma> = Some (Cancel t # Join t # cs)" and "ag_pc \<sigma> t = Outside" and "\<not> ag_ended \<sigma> t"
  shows "agent_steps x \<sigma> (\<sigma>\<lparr>ag_main := Some cs, ag_cancel := (ag_cancel \<sigma>)(t := True), ag_ended := (ag_ended \<sigma>)(t := True)\<rparr>)"
proof -
  let ?s1 = "\<sigma>\<lparr>ag_main := Some (Join t # cs), ag_cancel := (ag_cancel \<sigma>)(t := True)\<rparr>"
  let ?s2 = "?s1\<lparr>ag_ended := (ag_ended \<sigma>)(t := True)\<rparr>"
  have "agent_step x \<sigma> ?s1" using assms(1) by (rule agent_step.cancel)
  moreover have "agent_step x ?s1 ?s2" using agent_step.die [of ?s1 t x] assms(2,3) by (simp add: cancel_point_def)
  moreover have "agent_step x ?s2 (?s2\<lparr>ag_main := Some cs\<rparr>)" by (rule agent_step.join [of _ t]) simp_all
  ultimately have "agent_steps x \<sigma> (?s2\<lparr>ag_main := Some cs\<rparr>)"
    by (meson converse_rtranclp_into_rtranclp rtranclp.rtrancl_refl)
  then show ?thesis by (cases \<sigma>) simp
qed

lemma stop_idle:
  assumes "ag_main \<sigma> = None" and "ag_owner \<sigma> = None" and "\<And>t. ag_pc \<sigma> t = Outside" and "\<And>t. \<not> ag_ended \<sigma> t"
  shows "\<exists>\<sigma>'. agent_steps x \<sigma> \<sigma>' \<and> ag_main \<sigma>' = Some [] \<and> in_hand \<sigma>' = None"
proof -
  obtain \<sigma>1 where s1: "agent_steps x \<sigma> \<sigma>1" "ag_pc \<sigma>1 = ag_pc \<sigma>" "ag_owner \<sigma>1 = ag_owner \<sigma>"
      "\<And>t. t \<noteq> Server_thread \<Longrightarrow> ag_ended \<sigma>1 t = ag_ended \<sigma> t"
      "ag_main \<sigma>1 = Some [Cancel Maintenance_thread, Join Maintenance_thread, Cancel Action_thread, Join Action_thread]"
    using stop_server [OF assms(1), of x] by blast
  let ?s2 = "\<sigma>1\<lparr>ag_main := Some [Cancel Action_thread, Join Action_thread], ag_cancel := (ag_cancel \<sigma>1)(Maintenance_thread := True),
      ag_ended := (ag_ended \<sigma>1)(Maintenance_thread := True)\<rparr>"
  let ?s3 = "?s2\<lparr>ag_main := Some [], ag_cancel := (ag_cancel ?s2)(Action_thread := True), ag_ended := (ag_ended ?s2)(Action_thread := True)\<rparr>"
  have "agent_steps x \<sigma>1 ?s2" by (rule stop_sleeping) (use s1 assms in simp_all)
  moreover have "agent_steps x ?s2 ?s3" by (rule stop_sleeping) (use s1 assms in simp_all)
  ultimately have "agent_steps x \<sigma> ?s3" using s1(1) by (meson rtranclp_trans)
  moreover have "in_hand ?s3 = None" using s1(3) assms(2) by (simp add: in_hand_def)
  ultimately show ?thesis by (intro exI [of _ ?s3]) simp
qed

subsection \<open>Properties\<close>

text \<open>
  C2. The life of the program. \<^verbatim>\<open>main\<close> has come up; the threads take any steps before the client is started, while the log is
  followed, while the client is being stopped (as one section) and while they are cancelled and joined; and \<^verbatim>\<open>threads_stop\<close>
  has returned, which it need not (C38 and C16 say when). Then the rest of the way down returns with status 0. The action and the maintenance thread have
  ended. For every address the script has been run with \<^verbatim>\<open>new\<close> as often as with \<^verbatim>\<open>remove\<close>, but for at most one, the one a
  thread that was cancelled in the script had in hand. Both TLS contexts are freed, every address the configuration
  resolved is freed once, the log is closed, and the pid file is gone if it could be removed.
\<close>

theorem program_life:
  assumes "main_start e o' = Ret p" and "sys_ok (me_sys_records e)" and "sys_ok (me_sys_exclude e)"
    and "\<And>i. sys_ok (me_sys_client e i)" and "me_cond_client e = (\<lambda>_. 0)" and "length (me_DEFAULT_PIDFILE e) < MAX_PATH"
    and "dx_config x = pr_config p" and "ext_ok x" and "agents_ok (cfg_inform_agents (pr_config p))"
    and "agent_steps x (agent_start (pr_daemon p)) \<sigma>1" and "ag_main \<sigma>1 = None" and "main_client_start e (pr_config p) (ag_daemon \<sigma>1) = Ret d2"
    and "agent_steps x (\<sigma>1\<lparr>ag_daemon := d2\<rparr>) \<sigma>3" and "ag_main \<sigma>3 = None" and "main_client_stop (pr_config p) (ag_daemon \<sigma>3) = Ret d4"
    and "agent_steps x (\<sigma>3\<lparr>ag_daemon := d4\<rparr>) \<sigma>5" and "ag_main \<sigma>5 = Some []"
    and "sys_ok (act_sys (ee_action ee))" and "act_access (ee_action ee) = 0" and "client_env_ok (act_client (ee_action ee))"
  shows "returns (main_end e ee o' (main_started e p) (ag_daemon \<sigma>5)) (\<lambda>q. pe_status q = 0
    \<and> (\<forall>ip. runs AC_NEW ip (as_log (pe_action q)) + (if in_hand \<sigma>5 = Some (AC_REMOVE, ip) then 1 else 0) =
        runs AC_REMOVE ip (as_log (pe_action q)) + (if in_hand \<sigma>5 = Some (AC_NEW, ip) then 1 else 0))
    \<and> ssl_ctx_client (pe_tls q) = None \<and> ssl_ctx_server (pe_tls q) = None
    \<and> (ee_unlink ee = 0 \<longrightarrow> pe_pidfile q = None) \<and> \<not> ot_SYSLOG_INIT (pe_out q)
    \<and> pe_freed q = cfg_listen (pr_config p) @ cfg_inform_agents (pr_config p))
    \<and> ag_ended \<sigma>5 Action_thread \<and> ag_ended \<sigma>5 Maintenance_thread
    \<and> (in_hand \<sigma>5 \<noteq> None \<longrightarrow> (\<exists>t. ag_owner \<sigma>5 = Some t \<and> ag_cancel \<sigma>5 t))"
proof -
  have "agent_steps x \<sigma>1 (\<sigma>1\<lparr>ag_daemon := d2\<rparr>)"
    using main_client_start_step [of e x "ag_daemon \<sigma>1" d2] assms(4,5,7,9,12) by (intro section_steps) simp
  moreover have "agent_steps x \<sigma>3 (\<sigma>3\<lparr>ag_daemon := d4\<rparr>)" by (rule section_steps [OF main_client_stop_step [OF assms(15)]])
  ultimately have "agent_steps x (agent_start (pr_daemon p)) \<sigma>5" using assms(10,13,16) by (meson rtranclp_trans)
  with main_start_daemon [OF assms(1-3)] have inv: "agent_inv x \<sigma>5" and "ended_cancelled \<sigma>5"
    using agent_reach_inv [OF _ assms(8)] agent_reach_cancelled by blast+
  have "action_ok (ee_action ee) (pr_config p)"
    using main_configure_typed [OF main_start_parts(1) [OF assms(1)] assms(6)] assms(18-20) by (simp add: action_ok_def)
  from main_end_spec [OF assms(1) inv assms(7) this] hand_of_cancelled [OF inv assms(17) \<open>ended_cancelled \<sigma>5\<close>] agent_invD(7) [OF inv assms(17)]
  show ?thesis by auto
qed

definition demo_end :: end_env where
  "demo_end = \<lparr>ee_action = calm_action, ee_cancel = (\<lambda>_. 0), ee_join = (\<lambda>_. 0), ee_unlink = 0\<rparr>"

theorem program_life_witness:
  "\<exists>p d \<sigma>. main_start demo_main (options_start\<lparr>opt_daemonmode := False\<rparr>) = Ret p
     \<and> agent_steps (demo_ext\<lparr>dx_config := pr_config p\<rparr>) (agent_start (pr_daemon p)) (agent_start d) \<and> runs AC_NEW ''10.1.2.3'' (as_log (d_action d)) = 1
     \<and> agent_steps (demo_ext\<lparr>dx_config := pr_config p\<rparr>) (agent_start d) \<sigma> \<and> ag_main \<sigma> = Some []
     \<and> returns (main_end demo_main demo_end (options_start\<lparr>opt_daemonmode := False\<rparr>) (main_started demo_main p) (ag_daemon \<sigma>))
         (\<lambda>q. pe_status q = 0 \<and> runs AC_NEW ''10.1.2.3'' (as_log (pe_action q)) = runs AC_REMOVE ''10.1.2.3'' (as_log (pe_action q)))"
proof -
  let ?o = "options_start\<lparr>opt_daemonmode := False\<rparr>"
  obtain p where p: "main_start demo_main ?o = Ret p" "pr_daemon p = demo_daemon" "cfg_action_threshold (pr_config p) = 1"
      "cfg_inform (pr_config p) = 0" "cfg_inform_agents (pr_config p) = []"
    using demo_main_start by blast
  let ?x = "demo_ext\<lparr>dx_config := pr_config p\<rparr>"
  have me: "sys_ok (me_sys_records demo_main)" "sys_ok (me_sys_exclude demo_main)" "\<And>i. sys_ok (me_sys_client demo_main i)"
      "me_cond_client demo_main = (\<lambda>_. 0)" "length (me_DEFAULT_PIDFILE demo_main) < MAX_PATH"
    by (simp_all add: demo_main_def MAX_PATH_def)
  have t: "terminated (cfg_action (pr_config p))"
    using main_configure_typed [OF main_start_parts(1) [OF p(1)] me(5)] .
  obtain d where d: "daemon_reach ?x demo_daemon d" "runs AC_NEW ''10.1.2.3'' (as_log (d_action d)) = 1"
    using demo_run_config [OF p(3,4) t] by blast
  have run: "agent_steps ?x (agent_start (pr_daemon p)) (agent_start d)" using daemon_reach_run [OF d(1)] p(2) by simp
  have up: "ag_main (agent_start d) = None" "ag_daemon (agent_start d) = d" "(agent_start d)\<lparr>ag_daemon := d\<rparr> = agent_start d"
    by (simp_all add: agent_start_def)
  obtain \<sigma> where s: "agent_steps ?x (agent_start d) \<sigma>" "ag_main \<sigma> = Some []" "in_hand \<sigma> = None"
    using stop_idle [of "agent_start d" ?x] by (auto simp: agent_start_def)
  have x: "dx_config ?x = pr_config p" "ext_ok ?x" "agents_ok (cfg_inform_agents (pr_config p))"
    using demo_ext_ok(1) p(5) by (simp_all add: ext_ok_def agents_ok_def)
  have cl: "main_client_start demo_main (pr_config p) (ag_daemon (agent_start d)) = Ret d"
      "main_client_stop (pr_config p) (ag_daemon (agent_start d)) = Ret d"
    using p(4) up(2) by (simp_all add: main_client_start_def main_client_stop_def)
  have ee: "sys_ok (act_sys (ee_action demo_end))" "act_access (ee_action demo_end) = 0" "client_env_ok (act_client (ee_action demo_end))"
    by (simp_all add: demo_end_def calm_action_def)
  have "agent_steps ?x ((agent_start d)\<lparr>ag_daemon := d\<rparr>) (agent_start d)" "agent_steps ?x ((agent_start d)\<lparr>ag_daemon := d\<rparr>) \<sigma>"
    using up(3) s(1) by simp_all
  from program_life [OF p(1) me x run up(1) cl(1) this(1) up(1) cl(2) this(2) s(2) ee]
  have "returns (main_end demo_main demo_end ?o (main_started demo_main p) (ag_daemon \<sigma>))
      (\<lambda>q. pe_status q = 0 \<and> runs AC_NEW ''10.1.2.3'' (as_log (pe_action q)) = runs AC_REMOVE ''10.1.2.3'' (as_log (pe_action q)))"
    using s(3) by (auto elim!: ospec_mono)
  with p(1) run d(2) s(1,2) show ?thesis by blast
qed

text \<open>
  C3. No section ends the program. In every state the daemon can reach, these return as long as the system calls they make
  succeed: a log line of which the expression captures an address or nothing; an \<^verbatim>\<open>ADD\<close> command with at least as many
  occurrences as its threshold and a terminated address, as agents send them (C10; C40 says what others can do); a pass of the action and of the
  maintenance thread; a pass of the sending thread of every queue of the client, whether its server can be reached or not; the printing of the table behind \<^verbatim>\<open>SIGUSR1\<close>, the
  marking behind \<^verbatim>\<open>SIGUSR2\<close>, the clearing and each line behind \<^verbatim>\<open>SIGHUP\<close>; starting the client, and stopping a client
  that runs. None of them violates an assertion, leaves an array, uses what has been freed, dereferences a null pointer or exits.
\<close>

theorem daemon_never_stuck:
  assumes "daemon_start x d0" and "ext_ok x" and "daemon_reach x d0 d" and "sys_ok e" and "action_ok ae (dx_config x)"
    and "length line < BUFFSIZE" and "is_cstring line" and "\<And>ip. capture (dx_pcre x) line = Some ip \<Longrightarrow> good_addr ip"
    and "good_remote hr" and "line_safe (dx_pton x) l" and "\<And>r. Some r \<in> set (hr_vector (d_records d)) \<Longrightarrow> ctime_ok ctime_r r"
    and "tls_ready (tr_tls tr) (tr_fd tr)" and "length buff = REMOTE_COMMAND_SIZE"
    and "agents_ok agents" and "agents \<noteq> []" and "\<And>i. sys_ok (es i)"
  shows "(\<exists>r. regex_do e (dx_config x) (dx_pcre_info x) (dx_pcre x) (dx_pton x) (d_exclude d) line (True, d_records d) = Ret (True, r))
    \<and> (\<exists>r. worker_command e (dx_config x) (dx_pton x) (Some host) (d_exclude d) ADD hr (d_records d) = Ret (True, r))
    \<and> (\<exists>r. action_thread_pass ae (dx_config x) (d_records d, d_action d) = Ret r)
    \<and> (\<exists>r. maintenance_thread_pass ae (dx_config x) (d_records d, d_action d) = Ret r)
    \<and> (\<forall>q \<in> set (active (as_client (d_action d))). \<exists>r. client_queue_worker nd (dx_config x) tr buff tls_null q = Ret r)
    \<and> (\<exists>r. records_enumerate_thread e (records_callback_output True ctime_r) (d_records d, out) = Ret r)
    \<and> (\<exists>r. records_enumerate_thread e records_callback_remove_all (d_records d, ()) = Ret r)
    \<and> (\<exists>r. exclude_clear e (d_exclude d) = Ret (RETVAL_OK, r))
    \<and> (\<exists>r. exclude_read_line e (dx_pton x) l (d_exclude d) = Ret r)
    \<and> (\<exists>r. client_start nd es (\<lambda>_. 0) agents (as_client (d_action d)) = Ret (RETVAL_OK, r))
    \<and> (cl_started (as_client (d_action d)) \<longrightarrow> (\<exists>r. client_stop (as_client (d_action d)) = Ret (RETVAL_OK, r)))"
proof -
  note d = daemon_reach_inv [OF assms(3,2) daemon_start_inv [OF assms(1)]]
  note s = daemon_sections_return [OF d assms(2)] and c = client_sections_return [OF d]
  have inv: "records_inv (d_records d)" using d by (simp add: daemon_inv_iff)
  have dump: "\<exists>r. records_enumerate_thread e (records_callback_output True ctime_r) (d_records d, out) = Ret r"
    using dump_spec [OF inv assms(4,11), of out] unfolding returns_iff by blast
  show ?thesis
    by (intro conjI ballI impI s(1) [OF assms(4,6,7,8)] s(2) [OF assms(4,9)] s(3) [OF assms(5)] s(4) [OF assms(5)] s(5,6) [OF assms(4)]
        s(7) [OF assms(4,10)] dump c(1) [OF _ assms(12,13)] c(2) [OF assms(14-16)] c(3))
qed

theorem daemon_never_stuck_witness:
  "\<exists>d. daemon_reach demo_ext demo_daemon d \<and> runs AC_NEW ''10.1.2.3'' (as_log (d_action d)) = 1
     \<and> (\<exists>r. worker_command calm_env (dx_config demo_ext) demo_pton (Some ''10.9.9.9'') (d_exclude d) ADD demo_remote (d_records d) = Ret (True, r))
     \<and> (\<exists>r. action_thread_pass calm_action (dx_config demo_ext) (d_records d, d_action d) = Ret r)
     \<and> (\<exists>r. exclude_read_line calm_env demo_pton ''# none'' (d_exclude d) = Ret r)
     \<and> (\<exists>r. client_start False (\<lambda>_. calm_env) (\<lambda>_. 0) [[demo_addrinfo]] (as_client (d_action d)) = Ret (RETVAL_OK, r))"
proof -
  obtain d where d: "daemon_reach demo_ext demo_daemon d" "runs AC_NEW ''10.1.2.3'' (as_log (d_action d)) = 1"
    using demo_run by blast
  have c: "capture (dx_pcre demo_ext) ''session opened'' = None" "dx_pton demo_ext = demo_pton"
    by (simp_all add: demo_ext_def capture_def demo_pcre_def)
  have safe: "line_safe (dx_pton demo_ext) ''# none''" by (simp add: line_safe_def exclude_line_def cstr_def)
  have tr: "tls_ready (tr_tls demo_transport) (tr_fd demo_transport)" "length (replicate 144 (0 :: u8)) = REMOTE_COMMAND_SIZE"
      "agents_ok [[demo_addrinfo]]"
    by (simp_all add: demo_transport_def tls_ready_def REMOTE_COMMAND_SIZE_def agents_ok_def demo_addrinfo_def AF_INET_NUM_def)
  have line: "length ''session opened'' < BUFFSIZE" "is_cstring ''session opened''" by (simp_all add: BUFFSIZE_def is_cstring_def)
  note ok = daemon_never_stuck [OF demo_daemon_start demo_ext_ok(1) d(1) calm_env_ok(1) demo_ext_ok(2) line _ demo_remote_good(1) safe demo_world_ctime tr,
      of "\<lambda>_. calm_env" "''10.9.9.9''" False]
  with c d show ?thesis by (intro exI [of _ d]) simp
qed

end
