(* ===== verification/Network.thy ===== *)
theory Network
  imports Progress
begin

section \<open>Agents that inform each other\<close>

text \<open>
  Several instances of the program, each with its own configuration, log and table. Queue \<open>k\<close> of agent \<open>i\<close> is
  connected to agent \<open>peer i k\<close>, which knows agent \<open>i\<close> by the numeric name \<open>name i\<close>. \<open>net_step\<close> interleaves the
  critical sections of every agent (\<open>own_step\<close>: the rules of \<open>daemon_step\<close> but the two that belong to the network) with
  what connects them: a pass of a sending thread writes commands, a worker of the peer reads and handles one, and a
  command can be lost with its connection. What is shown: no agent trips over what another sends, though it
  trusts it; what an agent has heard from another it does not pass on; and what one agent finds in its log makes the others
  act.
\<close>

subsection \<open>The network\<close>

text \<open>
  \<open>nw_sent i k\<close> has the commands written by queue \<open>k\<close> of agent \<open>i\<close>, as bytes, and \<open>nw_read i k\<close> how many of them the peer
  is done with; \<open>nw_seen i ip\<close> counts the lines in the log of agent \<open>i\<close> that name the host.
\<close>

record network =
  nw_agents :: "nat \<Rightarrow> daemon"
  nw_sent :: "nat \<Rightarrow> nat \<Rightarrow> u8 list list"
  nw_read :: "nat \<Rightarrow> nat \<Rightarrow> nat"
  nw_seen :: "nat \<Rightarrow> string \<Rightarrow> nat"

definition upd2 :: "('a \<Rightarrow> 'b \<Rightarrow> 'c) \<Rightarrow> 'a \<Rightarrow> 'b \<Rightarrow> 'c \<Rightarrow> 'a \<Rightarrow> 'b \<Rightarrow> 'c" where
  "upd2 f i k v = f(i := (f i)(k := v))"

lemma upd2_apply: "upd2 f i k v i' k' = (if i' = i \<and> k' = k then v else f i' k')"
  by (simp add: upd2_def)

inductive own_step :: "daemon_ext \<Rightarrow> string option \<Rightarrow> daemon \<Rightarrow> daemon \<Rightarrow> bool" for x where
  own_line: "sys_ok e \<Longrightarrow> length line < BUFFSIZE \<Longrightarrow> is_cstring line \<Longrightarrow>
     (\<And>ip. capture (dx_pcre x) line = Some ip \<Longrightarrow> good_addr ip) \<Longrightarrow>
     regex_do e (dx_config x) (dx_pcre_info x) (dx_pcre x) (dx_pton x) (d_exclude d) line (True, d_records d) = Ret (c, st) \<Longrightarrow>
     own_step x (capture (dx_pcre x) line) d (d\<lparr>d_records := st\<rparr>)"
| own_action: "action_ok e (dx_config x) \<Longrightarrow>
     action_thread_pass e (dx_config x) (d_records d, d_action d) = Ret (st, s) \<Longrightarrow>
     own_step x None d (d\<lparr>d_records := st, d_action := s\<rparr>)"
| own_maintenance: "action_ok e (dx_config x) \<Longrightarrow>
     maintenance_thread_pass e (dx_config x) (d_records d, d_action d) = Ret (st, s) \<Longrightarrow>
     own_step x None d (d\<lparr>d_records := st, d_action := s\<rparr>)"
| own_remove_all: "sys_ok e \<Longrightarrow>
     records_enumerate_thread e records_callback_remove_all (d_records d, ()) = Ret (st, u) \<Longrightarrow>
     own_step x None d (d\<lparr>d_records := st\<rparr>)"
| own_reread_clear: "sys_ok e \<Longrightarrow> exclude_clear e (d_exclude d) = Ret (rv, ex) \<Longrightarrow>
     own_step x None d (d\<lparr>d_exclude := ex\<rparr>)"
| own_reread_line: "sys_ok e \<Longrightarrow> line_safe (dx_pton x) l \<Longrightarrow> exclude_read_line e (dx_pton x) l (d_exclude d) = Ret ex \<Longrightarrow>
     own_step x None d (d\<lparr>d_exclude := ex\<rparr>)"
| own_client_up: "cfg_inform (dx_config x) = 1 \<Longrightarrow> cfg_inform_agents (dx_config x) \<noteq> [] \<Longrightarrow>
     agents_ok (cfg_inform_agents (dx_config x)) \<Longrightarrow> (\<And>i. sys_ok (es i)) \<Longrightarrow>
     client_start nd es (\<lambda>_. 0) (cfg_inform_agents (dx_config x)) (as_client (d_action d)) = Ret (rv, cl) \<Longrightarrow>
     own_step x None d (d\<lparr>d_action := (d_action d)\<lparr>as_client := cl\<rparr>\<rparr>)"
| own_client_down: "client_stop (as_client (d_action d)) = Ret (rv, cl) \<Longrightarrow>
     own_step x None d (d\<lparr>d_action := (d_action d)\<lparr>as_client := cl\<rparr>\<rparr>)"

lemma own_step_daemon: "own_step x h d d' \<Longrightarrow> daemon_step x d d'"
  by (induction rule: own_step.induct) (blast intro: daemon_step.intros)+

inductive net_step :: "(nat \<Rightarrow> daemon_ext) \<Rightarrow> (nat \<Rightarrow> string) \<Rightarrow> (nat \<Rightarrow> nat \<Rightarrow> nat) \<Rightarrow> network \<Rightarrow> network \<Rightarrow> bool"
  for x name peer where
  net_own: "own_step (x i) h (nw_agents n i) d \<Longrightarrow>
     net_step x name peer n (n\<lparr>nw_agents := (nw_agents n)(i := d),
       nw_seen := (case h of None \<Rightarrow> nw_seen n | Some ip \<Rightarrow> upd2 (nw_seen n) i ip (Suc (nw_seen n i ip)))\<rparr>)"
| net_write: "d = nw_agents n i \<Longrightarrow> k < length (active (as_client (d_action d))) \<Longrightarrow>
     tls_ready (tr_tls tr) (tr_fd tr) \<Longrightarrow> length buff = REMOTE_COMMAND_SIZE \<Longrightarrow>
     client_queue_worker nd (dx_config (x i)) tr buff tls_null (active (as_client (d_action d)) ! k) = Ret (Some lg, q) \<Longrightarrow>
     net_step x name peer n (n\<lparr>nw_agents := (nw_agents n)(i := d\<lparr>d_action := set_queue k q (d_action d)\<rparr>),
       nw_sent := upd2 (nw_sent n) i k (nw_sent n i k @ pl_sent lg)\<rparr>)"
| net_handle: "nw_read n i k < length (nw_sent n i k) \<Longrightarrow> d = nw_agents n (peer i k) \<Longrightarrow> sys_ok e \<Longrightarrow>
     worker_loop nd (\<lambda>_. e) (dx_config (x (peer i k))) (dx_pton (x (peer i k))) (Some (name i)) (d_exclude d) 0
       [RecvBytes (nw_sent n i k ! nw_read n i k)] (d_records d) = Ret (st, handled) \<Longrightarrow>
     net_step x name peer n (n\<lparr>nw_agents := (nw_agents n)(peer i k := d\<lparr>d_records := st\<rparr>),
       nw_read := upd2 (nw_read n) i k (Suc (nw_read n i k))\<rparr>)"
| net_lose: "nw_read n i k < length (nw_sent n i k) \<Longrightarrow>
     net_step x name peer n (n\<lparr>nw_read := upd2 (nw_read n) i k (Suc (nw_read n i k))\<rparr>)"

inductive net_reach :: "(nat \<Rightarrow> daemon_ext) \<Rightarrow> (nat \<Rightarrow> string) \<Rightarrow> (nat \<Rightarrow> nat \<Rightarrow> nat) \<Rightarrow> network \<Rightarrow> network \<Rightarrow> bool"
  for x name peer n0 where
  net_start: "net_reach x name peer n0 n0"
| net_next: "net_reach x name peer n0 n \<Longrightarrow> net_step x name peer n n' \<Longrightarrow> net_reach x name peer n0 n'"

definition network_start :: "(nat \<Rightarrow> daemon_ext) \<Rightarrow> network \<Rightarrow> bool" where
  "network_start x n \<longleftrightarrow> (\<forall>i. daemon_start (x i) (nw_agents n i) \<and> ext_ok (x i))
     \<and> nw_sent n = (\<lambda>_ _. []) \<and> nw_read n = (\<lambda>_ _. 0) \<and> nw_seen n = (\<lambda>_ _. 0)"

text \<open>A numeric name, as \<^verbatim>\<open>getnameinfo\<close> gives it, fits the field of the record and is not the word for a local origin.\<close>

definition numeric_name :: "string \<Rightarrow> bool" where
  "numeric_name h \<longleftrightarrow> is_cstring h \<and> length h < IPADDR_SIZE \<and> h \<noteq> LOCALHOST"

subsection \<open>What is held and what has been told\<close>

definition queued :: "string \<Rightarrow> hostrecord list \<Rightarrow> nat" where
  "queued ip rs = length (filter (\<lambda>r. ip_of r = ip) rs)"

lemma queued_simps [simp]: "queued ip [] = 0" "queued ip (rs @ rs') = queued ip rs + queued ip rs'"
  by (simp_all add: queued_def)

text \<open>What queue \<open>k\<close> is still to send, the vector of the client included.\<close>

definition stream_of :: "daemon \<Rightarrow> nat \<Rightarrow> hostrecord list" where
  "stream_of d k = (let ls = streams (as_client (d_action d)) in if k < length ls then ls ! k else [])"

text \<open>The commands among those written that name the host.\<close>

definition command_ip :: "u8 list \<Rightarrow> string option" where
  "command_ip b = (case net_buff_to_command True b of Ret (n, rcommand, hr) \<Rightarrow> Some (ip_of hr) | _ \<Rightarrow> None)"

definition commands :: "string \<Rightarrow> u8 list list \<Rightarrow> nat" where
  "commands ip bs = length (filter (\<lambda>b. command_ip b = Some ip) bs)"

lemma commands_simps [simp]: "commands ip [] = 0" "commands ip (bs @ bs') = commands ip bs + commands ip bs'"
  by (simp_all add: commands_def)

lemma command_ip_wire: "wf_hostrecord r \<Longrightarrow> command_ip (wire c r) = Some (ip_of r)"
  by (simp add: command_ip_def net_buff_to_command_ok)

text \<open>Whether a host is in the table as a find of this agent that has not been acted upon.\<close>

definition undisclosed :: "hostrecord option \<Rightarrow> nat" where
  "undisclosed p = (case p of None \<Rightarrow> 0 | Some r \<Rightarrow> if hr_processed r = 0 \<and> cstr (hr_origin r) = LOCALHOST then 1 else 0)"

definition held :: "daemon \<Rightarrow> nat \<Rightarrow> string \<Rightarrow> nat" where
  "held d k ip = queued ip (stream_of d k) + undisclosed (records_map (d_records d) ip)"

text \<open>A record an agent tells the others: its own find, and one their workers can take.\<close>

definition own_record :: "hostrecord \<Rightarrow> bool" where
  "own_record r \<longleftrightarrow> good_remote r \<and> cstr (hr_origin r) = LOCALHOST"

definition agent_inv :: "daemon \<Rightarrow> bool" where
  "agent_inv d \<longleftrightarrow> daemon_inv d \<and> (\<forall>ip r. records_map (d_records d) ip = Some r \<longrightarrow> good_addr ip)
     \<and> (\<forall>l \<in> set (streams (as_client (d_action d))). list_all own_record l)"

lemma good_remote_addr: "good_remote r \<Longrightarrow> good_addr (ip_of r)"
  using length_cstr [of "hr_ipaddr r"]
  by (auto simp: good_remote_def good_addr_def valid_ip_def ip_of_def wf_hostrecord_def)

lemma due_good_remote: "wf_hostrecord r \<Longrightarrow> good_addr (ip_of r) \<Longrightarrow> due r \<Longrightarrow> good_remote r"
  by (auto simp: good_remote_def good_addr_def due_def)

subsection \<open>Sections of one agent\<close>

lemma undisclosed_le_Suc [simp]: "undisclosed p \<le> Suc n"
  by (simp add: undisclosed_def split: option.splits)

lemma undisclosed_bump [simp]: "undisclosed (Some (bump_record t r)) = undisclosed (Some r)"
  by (simp add: undisclosed_def)

lemma undisclosed_kept: "undisclosed (keep_record p) \<le> undisclosed p"
  by (auto simp: undisclosed_def keep_record_def split: option.splits)

lemma undisclosed_marked: "undisclosed (map_option (\<lambda>r. r\<lparr>hr_remove := 1\<rparr>) p) = undisclosed p"
  by (simp add: undisclosed_def split: option.splits)

text \<open>What a pass of the action thread tells the others is paid for by what was not disclosed.\<close>

lemma undisclosed_acted:
  "(case p of None \<Rightarrow> 0 | Some r \<Rightarrow> if due r \<and> relayed CONFIG r then 1 else 0) + undisclosed (map_option (acted t) p) \<le> undisclosed p"
  by (auto simp: undisclosed_def acted_def due_def relayed_def split: option.splits)

lemma queued_relayed:
  assumes "records_inv st"
  shows "queued ip (filter (relayed CONFIG) (filter due (somes (hr_vector st)))) =
    (case records_map st ip of None \<Rightarrow> 0 | Some r \<Rightarrow> if due r \<and> relayed CONFIG r then 1 else 0)"
proof -
  have d: "distinct (map ip_of (somes (hr_vector st)))"
    using records_invD(6) [OF assms] by (simp add: keys_unique_def)
  have "filter (\<lambda>r. ip_of r = ip) (filter (relayed CONFIG) (filter due xs)) =
      filter (\<lambda>r. ip_of r = ip \<and> (due r \<and> relayed CONFIG r)) xs" for xs
    by (simp add: conj_commute conj_left_commute)
  then show ?thesis by (simp only: queued_def count_unique_keys [OF d] records_map_def slot_map_def)
qed

lemma stream_of_map:
  "streams (as_client (d_action d')) = map f (streams (as_client (d_action d))) \<Longrightarrow>
    stream_of d' k = (if k < length (streams (as_client (d_action d))) then f (stream_of d k) else [])"
  by (simp add: stream_of_def Let_def)

lemma agent_own_record:
  assumes "agent_inv d" and "Some r \<in> set (hr_vector (d_records d))" and "due r" and "relayed c r"
  shows "own_record r"
proof -
  have inv: "records_inv (d_records d)" using assms(1) by (simp add: agent_inv_def daemon_inv_iff)
  with assms(2) have "records_map (d_records d) (ip_of r) = Some r" by (simp add: records_map_Some)
  with assms(1) have "good_addr (ip_of r)" by (auto simp: agent_inv_def)
  then show ?thesis
    using due_good_remote [OF records_invD(5) [OF inv assms(2)]] assms(3,4) by (simp add: own_record_def relayed_def)
qed

text \<open>A step that leaves the client alone: what it does to the table is all there is to see.\<close>

lemma agent_table:
  assumes "agent_inv d" and "daemon_inv d'" and "streams (as_client (d_action d')) = streams (as_client (d_action d))"
    and "\<And>ip. records_map (d_records d') ip \<noteq> None \<Longrightarrow> records_map (d_records d) ip \<noteq> None \<or> good_addr ip"
    and "undisclosed (records_map (d_records d') ip) \<le> undisclosed (records_map (d_records d) ip) + n"
  shows "agent_inv d' \<and> held d' k ip \<le> held d k ip + n"
  using assms unfolding agent_inv_def held_def stream_of_def by fastforce

text \<open>A step that leaves the table alone and adds nothing to what is to be sent.\<close>

lemma agent_client:
  assumes "agent_inv d" and "daemon_inv d'" and "d_records d' = d_records d"
    and "\<And>l. l \<in> set (streams (as_client (d_action d'))) \<Longrightarrow> list_all own_record l"
    and "queued ip (stream_of d' k) \<le> queued ip (stream_of d k)"
  shows "agent_inv d' \<and> held d' k ip \<le> held d k ip"
  using assms by (simp add: agent_inv_def held_def)

lemma own_step_gossip:
  assumes "own_step x h d d'" and "ext_ok x" and "agent_inv d"
  shows "agent_inv d' \<and> held d' k ip \<le> held d k ip + (if h = Some ip then 1 else 0)"
proof -
  have di: "daemon_inv d" and d': "daemon_inv d'"
    using assms(3) daemon_step_inv [OF own_step_daemon [OF assms(1)] assms(2)] by (auto simp: agent_inv_def)
  then have inv: "records_inv (d_records d)" and ai: "action_inv (d_action d)" by (auto simp: daemon_inv_iff)
  have ci: "client_inv (as_client (d_action d))" using ai by (simp add: action_inv_def)
  obtain N where N: "exclude_nets N (d_exclude d)" using di by (auto simp: daemon_inv_iff)
  have own: "list_all own_record l" if "l \<in> set (streams (as_client (d_action d)))" for l
    using assms(3) that by (simp add: agent_inv_def)
  from assms(1) show ?thesis
  proof cases
    case (own_line e line c st)
    have pt: "pton_ok (dx_pton x)" and pc: "pcre_ok (dx_pcre x)" using assms(2) by (auto simp: ext_ok_def)
    have st: "records_map st = log_effect (dx_config x) (dx_pcre x) (dx_pton x) N (now e) line (records_map (d_records d))"
      using regex_do_spec [OF inv N pt pc own_line(3-6), of "dx_config x" "dx_pcre_info x"] own_line(7) by auto
    show ?thesis
      by (rule agent_table [OF assms(3) d'])
        (use own_line st in \<open>auto simp: log_effect_def host_seen_bump split: option.splits if_splits\<close>)
  next
    case (own_action e st s)
    note p = action_thread_pass_spec [OF inv own_action(3) ai daemon_actionable [OF di], unfolded own_action(4), simplified]
    let ?new = "filter (relayed (dx_config x)) (filter due (somes (hr_vector (d_records d))))"
    have new: "list_all own_record ?new" using agent_own_record [OF assms(3)] by (auto simp: list_all_iff set_somes)
    have "queued ip (stream_of d' k) \<le> queued ip (stream_of d k) + queued ip ?new"
      using p own_action(2) by (auto simp: stream_of_def Let_def relay_streams_def)
    moreover have "queued ip ?new + undisclosed (records_map (d_records d') ip) \<le> undisclosed (records_map (d_records d) ip)"
      using p own_action(2) undisclosed_acted by (simp add: queued_relayed [OF inv, unfolded filter_filter])
    ultimately have "held d' k ip \<le> held d k ip" by (simp add: held_def)
    moreover have "agent_inv d'"
      using d' p own_action(2) own new assms(3) by (auto simp: agent_inv_def relay_streams_def)
    ultimately show ?thesis by simp
  next
    case (own_maintenance e st s)
    note p = maintenance_thread_pass_spec [OF inv own_maintenance(3), of "d_action d", unfolded own_maintenance(4), simplified]
    have "\<And>ip r. keep_record (records_map (d_records d) ip) = Some r \<Longrightarrow> records_map (d_records d) ip \<noteq> None"
      by (auto dest: keep_record_SomeD)
    then show ?thesis
      by (intro agent_table [OF assms(3) d'])
        (use own_maintenance p undisclosed_kept in \<open>auto simp: maintained_def\<close>)
  next
    case (own_remove_all e st u)
    have "records_map st = (\<lambda>ip. map_option (\<lambda>r. r\<lparr>hr_remove := 1\<rparr>) (records_map (d_records d) ip))"
      using remove_all_spec [OF inv own_remove_all(3), of "()"] own_remove_all(4) by auto
    then show ?thesis
      by (intro agent_table [OF assms(3) d']) (use own_remove_all undisclosed_marked in auto)
  next
    case (own_reread_clear e rv ex)
    then show ?thesis by (intro agent_table [OF assms(3) d']) auto
  next
    case (own_reread_line e l ex)
    then show ?thesis by (intro agent_table [OF assms(3) d']) auto
  next
    case (own_client_up es nd rv cl)
    have "streams cl = map (\<lambda>_. []) (take MAXCLIENTQUEUES (cfg_inform_agents (dx_config x)))"
      using client_start_spec [of "cfg_inform_agents (dx_config x)" es nd "as_client (d_action d)", OF own_client_up(5,4,6)] own_client_up(7)
      by (auto simp: streams_def new_queue_def comp_def)
    then have st: "streams (as_client (d_action d')) = map (\<lambda>_. []) (take MAXCLIENTQUEUES (cfg_inform_agents (dx_config x)))"
      by (simp add: own_client_up(2))
    have "agent_inv d' \<and> held d' k ip \<le> held d k ip"
    proof (rule agent_client [OF assms(3) d'])
      show "queued ip (stream_of d' k) \<le> queued ip (stream_of d k)" unfolding stream_of_def st Let_def by auto
      show "list_all own_record l" if "l \<in> set (streams (as_client (d_action d')))" for l using that st by auto
    qed (simp add: own_client_up(2))
    then show ?thesis by simp
  next
    case (own_client_down rv cl)
    from client_stop_spec [OF ci client_stop_live [OF own_client_down(3) ci]] own_client_down(3)
    have "active cl = map destroyed (active (as_client (d_action d)))" "pending cl = pending (as_client (d_action d))" by simp_all
    then have st: "streams cl = map (\<lambda>_. pending (as_client (d_action d))) (streams (as_client (d_action d)))"
      by (simp add: streams_def destroyed_def)
    have "list_all own_record (pending (as_client (d_action d)))" if "l \<in> set (streams (as_client (d_action d)))" for l
    proof -
      from that obtain q where "q \<in> set (active (as_client (d_action d)))"
        by (cases "active (as_client (d_action d))") (auto simp: streams_def)
      then have "cq_head q @ pending (as_client (d_action d)) \<in> set (streams (as_client (d_action d)))" by (simp add: streams_def)
      from own [OF this] show ?thesis by simp
    qed
    with st own_client_down(2) have st: "streams (as_client (d_action d')) = map (\<lambda>_. pending (as_client (d_action d))) (streams (as_client (d_action d)))"
      and own': "\<And>l. l \<in> set (streams (as_client (d_action d'))) \<Longrightarrow> list_all own_record l"
      by auto
    have "agent_inv d' \<and> held d' k ip \<le> held d k ip"
    proof (rule agent_client [OF assms(3) d'])
      show "queued ip (stream_of d' k) \<le> queued ip (stream_of d k)"
        unfolding stream_of_map [OF st] by (auto simp: stream_of_def streams_def)
    qed (use own' own_client_down(2) in auto)
    then show ?thesis by simp
  qed
qed

subsection \<open>Sections of the network\<close>

text \<open>A pass of a sending thread takes its queue; what it has written are images of records that were queued.\<close>

lemma queued_nths: "queued ip (map ((!) xs) (filter P [0..<length xs])) \<le> queued ip xs"
proof (induction xs rule: rev_induct)
  case Nil
  then show ?case by simp
next
  case (snoc x xs)
  have "map ((!) (xs @ [x])) (filter P [0..<length (xs @ [x])]) =
      map ((!) xs) (filter P [0..<length xs]) @ (if P (length xs) then [x] else [])"
    by (simp add: nth_append)
  with snoc show ?case by (simp only: queued_simps) (simp add: queued_def)
qed

lemma commands_wires:
  assumes "\<forall>r \<in> set rs. wf_hostrecord r"
  shows "commands ip (map (wire ADD) rs) = queued ip rs"
  using assms by (induction rs) (simp_all add: commands_def queued_def command_ip_wire)

lemma send_pass:
  assumes q: "\<forall>r \<in> set (cq_head q). own_record r" and "tls_ready (tr_tls tr) (tr_fd tr)" and "length buff = REMOTE_COMMAND_SIZE"
    and r: "client_queue_worker nd CONFIG tr buff tls_null q = Ret (Some lg, q')"
  obtains rs where "pl_sent lg = map (wire ADD) rs" and "set rs \<subseteq> set (cq_head q)" and "queued ip rs \<le> queued ip (cq_head q)"
    and "q' = q\<lparr>cq_head := []\<rparr>"
proof -
  have ne: "cq_head q \<noteq> []" using r by (auto simp: client_queue_worker_def)
  have "\<forall>r \<in> set (cq_head q). sendable r" using q by (auto simp: own_record_def intro: good_remote_sendable)
  from client_queue_worker_spec [OF ne this assms(3,2), of nd CONFIG] r
  have s: "q' = q\<lparr>cq_head := []\<rparr>" "pl_sent lg = (if reachable_server CONFIG tr
      then map (\<lambda>i. wire ADD (cq_head q ! i)) (filter (tr_write tr) [0..<length (cq_head q)]) else [])"
    by (auto split: if_splits)
  let ?rs = "if reachable_server CONFIG tr then map ((!) (cq_head q)) (filter (tr_write tr) [0..<length (cq_head q)]) else []"
  show ?thesis
  proof (rule that [of ?rs])
    show "pl_sent lg = map (wire ADD) ?rs" using s(2) by simp
    show "set ?rs \<subseteq> set (cq_head q)" by auto
    show "queued ip ?rs \<le> queued ip (cq_head q)" using queued_nths by simp
  qed (fact s(1))
qed

lemma set_queue_streams:
  assumes "client_inv (as_client s)" and "k < length (active (as_client s))" and "q = (active (as_client s) ! k)\<lparr>cq_head := []\<rparr>"
  shows "streams (as_client (set_queue k q s)) = (streams (as_client s))[k := pending (as_client s)]"
proof -
  have len: "k < length (cl_queues (as_client s))" "k < length (takeWhile (\<lambda>p. p \<noteq> None) (cl_queues (as_client s)))"
    using assms(2) length_takeWhile_le [of "\<lambda>p. p \<noteq> None" "cl_queues (as_client s)"] by (simp_all add: active_def)
  then obtain q0 where "cl_queues (as_client s) ! k = Some q0"
    using takeWhile_nth [of k "\<lambda>p. p \<noteq> None" "cl_queues (as_client s)"] nth_mem set_takeWhileD by fastforce
  then have "active (as_client (set_queue k q s)) = (active (as_client s))[k := q]"
    unfolding set_queue_def active_def using len by (simp add: takeWhile_upd_Some map_update del: not_None_eq)
  then show ?thesis using assms(3) by (simp add: streams_def set_queue_def map_update pending_def)
qed

lemma agent_write:
  assumes d: "agent_inv d" and k: "k < length (active (as_client (d_action d)))"
    and "tls_ready (tr_tls tr) (tr_fd tr)" and "length buff = REMOTE_COMMAND_SIZE"
    and r: "client_queue_worker nd (dx_config x) tr buff tls_null (active (as_client (d_action d)) ! k) = Ret (Some lg, q)"
    and x: "ext_ok x"
  shows "agent_inv (d\<lparr>d_action := set_queue k q (d_action d)\<rparr>)"
    and "\<forall>b \<in> set (pl_sent lg). \<exists>r. b = wire ADD r \<and> own_record r"
    and "commands ip (pl_sent lg) + held (d\<lparr>d_action := set_queue k q (d_action d)\<rparr>) k ip \<le> held d k ip"
    and "j \<noteq> k \<Longrightarrow> held (d\<lparr>d_action := set_queue k q (d_action d)\<rparr>) j ip = held d j ip"
proof -
  let ?cl = "as_client (d_action d)" and ?d = "d\<lparr>d_action := set_queue k q (d_action d)\<rparr>"
  let ?q = "active ?cl ! k"
  have di: "daemon_inv d" and ci: "client_inv ?cl" using d by (auto simp: agent_inv_def daemon_inv_iff action_inv_def)
  have nth: "streams ?cl ! k = cq_head ?q @ pending ?cl" "k < length (streams ?cl)" using k by (simp_all add: streams_def)
  then have own: "list_all own_record (cq_head ?q @ pending ?cl)" using d by (metis agent_inv_def nth_mem)
  then have hd: "\<forall>r \<in> set (cq_head ?q). own_record r" by (simp add: list_all_iff)
  obtain rs where rs: "pl_sent lg = map (wire ADD) rs" "set rs \<subseteq> set (cq_head ?q)" "queued ip rs \<le> queued ip (cq_head ?q)"
      "q = ?q\<lparr>cq_head := []\<rparr>"
    by (rule send_pass [OF hd assms(3,4) r])
  note st = set_queue_streams [OF ci k rs(4)]
  show "\<forall>b \<in> set (pl_sent lg). \<exists>r. b = wire ADD r \<and> own_record r" using rs(1,2) hd by auto
  have "\<forall>r \<in> set rs. wf_hostrecord r" using rs(2) hd by (auto simp: own_record_def good_remote_def)
  then show "commands ip (pl_sent lg) + held ?d k ip \<le> held d k ip"
    using rs(1,3) nth by (simp add: commands_wires held_def stream_of_def st Let_def)
  show "held ?d j ip = held d j ip" if "j \<noteq> k"
    using that by (simp add: held_def stream_of_def st Let_def)
  have kl: "k < length (cl_queues ?cl)" "k < length (takeWhile (\<lambda>p. p \<noteq> None) (cl_queues ?cl))"
    using k length_takeWhile_le [of "\<lambda>p. p \<noteq> None" "cl_queues ?cl"] by (simp_all add: active_def)
  then have "takeWhile (\<lambda>p. p \<noteq> None) (cl_queues ?cl) ! k \<noteq> None" using nth_mem set_takeWhileD by fastforce
  then have "cl_queues ?cl ! k = Some ?q" "k < MAXCLIENTQUEUES"
    using kl ci by (simp_all add: active_def takeWhile_nth client_inv_def)
  then have "daemon_step x d ?d" using r by (intro daemon_step.send)
  then have "daemon_inv ?d" using x di by (rule daemon_step_inv)
  moreover have "list_all own_record l" if "l \<in> set (streams (as_client (d_action ?d)))" for l
  proof -
    have "l = pending ?cl \<or> l \<in> set (streams ?cl)"
      using that set_update_subset_insert [of "streams ?cl" k "pending ?cl"] st by auto
    with own d show ?thesis by (auto simp: agent_inv_def)
  qed
  ultimately show "agent_inv ?d" using d by (simp add: agent_inv_def)
qed

text \<open>A command of another agent: it is taken, and what it brings will not be told again.\<close>

lemma adopt_record_foreign:
  assumes "numeric_name h"
  shows "cstr (hr_origin (adopt_record h hr)) = h" and "undisclosed (Some (merge_record t (adopt_record h hr) old)) = 0"
    and "undisclosed (Some (adopt_record h hr)) = 0"
proof -
  show o': "cstr (hr_origin (adopt_record h hr)) = h"
    using assms cstr_strncpy [of h IPADDR_SIZE] by (simp add: adopt_record_def numeric_name_def IPADDR_SIZE_def)
  then show "undisclosed (Some (adopt_record h hr)) = 0" using assms by (simp add: undisclosed_def numeric_name_def)
  from o' show "undisclosed (Some (merge_record t (adopt_record h hr) old)) = 0"
    using assms by (simp add: undisclosed_def merge_record_def numeric_name_def)
qed

lemma agent_receive:
  assumes d: "agent_inv d" and x: "ext_ok x" and e: "sys_ok e" and hr: "good_remote hr" and h: "numeric_name h"
  shows "returns (worker_loop nd (\<lambda>_. e) (dx_config x) (dx_pton x) (Some h) (d_exclude d) 0 [RecvBytes (wire ADD hr)] (d_records d))
    (\<lambda>(st, n). n = 1 \<and> agent_inv (d\<lparr>d_records := st\<rparr>) \<and> (\<forall>k ip. held (d\<lparr>d_records := st\<rparr>) k ip \<le> held d k ip))"
proof -
  have di: "daemon_inv d" using d by (simp add: agent_inv_def)
  then obtain N where N: "exclude_nets N (d_exclude d)" and inv: "records_inv (d_records d)" by (auto simp: daemon_inv_iff)
  have pt: "pton_ok (dx_pton x)" using x by (simp add: ext_ok_def)
  from worker_command_good [OF inv N pt e hr, of "dx_config x" h]
  obtain st where st: "worker_command e (dx_config x) (dx_pton x) (Some h) (d_exclude d) ADD hr (d_records d) = Ret (True, st)"
      "records_map st = remote_effect (dx_config x) (dx_pton x) N h (now e) hr (records_map (d_records d))"
    unfolding returns_iff by auto
  have "daemon_inv (d\<lparr>d_records := st\<rparr>)"
    using daemon_step_inv [OF daemon_step.remote_add [where x = x and d = d, OF e hr st(1)] x di] by simp
  moreover have "good_addr (ip_of hr)" using good_remote_addr [OF hr] .
  ultimately have "agent_inv (d\<lparr>d_records := st\<rparr>) \<and> held (d\<lparr>d_records := st\<rparr>) k ip \<le> held d k ip + 0" for k ip
    using st(2) adopt_record_foreign [OF h] adopt_record_wf(2) hr
    by (intro agent_table [OF d]) (auto simp: remote_effect_adopt host_merge_record good_remote_def split: option.splits if_splits)
  moreover have "wf_hostrecord hr" using hr by (simp add: good_remote_def)
  ultimately show ?thesis using st(1) by (simp add: length_wire net_buff_to_command_ok)
qed

subsection \<open>Every reachable network\<close>

definition net_inv :: "network \<Rightarrow> bool" where
  "net_inv n \<longleftrightarrow> (\<forall>i. agent_inv (nw_agents n i))
     \<and> (\<forall>i k. \<forall>b \<in> set (nw_sent n i k). \<exists>r. b = wire ADD r \<and> own_record r)
     \<and> (\<forall>i k ip. commands ip (nw_sent n i k) + held (nw_agents n i) k ip \<le> nw_seen n i ip)"

lemma net_inv_sent: "net_inv n \<Longrightarrow> b \<in> set (nw_sent n i k) \<Longrightarrow> \<exists>r. b = wire ADD r \<and> own_record r"
  unfolding net_inv_def by blast

lemma net_inv_start:
  assumes "network_start x n"
  shows "net_inv n"
proof -
  have "agent_inv (nw_agents n i) \<and> held (nw_agents n i) k ip = 0" for i k ip
  proof -
    have s: "daemon_start (x i) (nw_agents n i)" using assms by (simp add: network_start_def)
    then obtain e where "records_init e records_start = Ret (d_records (nw_agents n i))" "sys_ok e"
      and a: "d_action (nw_agents n i) = \<lparr>as_client = client_init_st, as_log = []\<rparr>" by (auto simp: daemon_start_def)
    then have m: "records_map (d_records (nw_agents n i)) = (\<lambda>_. None)"
      using records_init_spec [of records_start e] by (auto simp: records_start_def hr_vector_chunksize_def)
    have "streams client_init_st = []"
      by (simp add: streams_def client_init_st_def active_def takeWhile_eq_Nil_iff MAXCLIENTQUEUES_def)
    with m a daemon_start_inv [OF s] show ?thesis
      by (simp add: agent_inv_def held_def stream_of_def undisclosed_def)
  qed
  with assms show ?thesis by (simp add: net_inv_def network_start_def)
qed

lemma net_step_inv:
  assumes "net_step x name peer n n'" and "net_inv n" and x: "\<And>i. ext_ok (x i)" and names: "\<And>i. numeric_name (name i)"
  shows "net_inv n'"
  using assms(1,2)
proof (induction rule: net_step.induct)
  case (net_own i h n d)
  have ag: "agent_inv (nw_agents n i)" using net_own by (simp add: net_inv_def)
  note s = own_step_gossip [OF net_own(1) x ag]
  have "commands ip (nw_sent n i' k) + held (((nw_agents n)(i := d)) i') k ip
      \<le> (case h of None \<Rightarrow> nw_seen n | Some ip \<Rightarrow> upd2 (nw_seen n) i ip (Suc (nw_seen n i ip))) i' ip" for i' k ip
  proof -
    have old: "commands ip (nw_sent n i' k) + held (nw_agents n i') k ip \<le> nw_seen n i' ip"
      using net_own(2) by (simp add: net_inv_def)
    show ?thesis using old s [of k ip] by (auto simp: upd2_apply split: option.splits)
  qed
  with net_own s show ?case by (simp add: net_inv_def)
next
  case (net_write d n i k tr buff nd lg q)
  have ag: "agent_inv d" using net_write by (simp add: net_inv_def)
  note w = agent_write [OF ag net_write(2-5) x]
  have "commands ip (upd2 (nw_sent n) i k (nw_sent n i k @ pl_sent lg) i' k')
      + held (((nw_agents n)(i := d\<lparr>d_action := set_queue k q (d_action d)\<rparr>)) i') k' ip \<le> nw_seen n i' ip" for i' k' ip
  proof -
    have old: "commands ip (nw_sent n i' k') + held (nw_agents n i') k' ip \<le> nw_seen n i' ip"
      using net_write(6) by (simp add: net_inv_def)
    show ?thesis using old w(3) [of ip] w(4) [of k' ip] net_write(1) by (auto simp: upd2_apply)
  qed
  with net_write w(1,2) show ?case by (auto simp: net_inv_def upd2_apply)
next
  case (net_handle n i k d e nd st handled)
  have ag: "agent_inv d" using net_handle by (simp add: net_inv_def)
  obtain r where r: "nw_sent n i k ! nw_read n i k = wire ADD r" "own_record r"
    using net_inv_sent [OF net_handle(5) nth_mem [OF net_handle(1)]] by blast
  then have "good_remote r" by (simp add: own_record_def)
  from agent_receive [OF ag x [of "peer i k"] net_handle(3) this names [of i], of nd] net_handle(4) r(1)
  have d': "agent_inv (d\<lparr>d_records := st\<rparr>)" "\<And>k ip. held (d\<lparr>d_records := st\<rparr>) k ip \<le> held d k ip" by (auto simp del: worker_loop.simps)
  have "commands ip (nw_sent n i' k') + held (((nw_agents n)(peer i k := d\<lparr>d_records := st\<rparr>)) i') k' ip \<le> nw_seen n i' ip"
    for i' k' ip
  proof -
    have old: "commands ip (nw_sent n i' k') + held (nw_agents n i') k' ip \<le> nw_seen n i' ip"
      using net_handle(5) by (simp add: net_inv_def)
    show ?thesis using old d'(2) [of k' ip] net_handle(2) by auto
  qed
  with net_handle d'(1) show ?case by (simp add: net_inv_def)
next
  case (net_lose n i k)
  then show ?case by (simp add: net_inv_def)
qed

lemma net_reach_inv:
  assumes "net_reach x name peer n0 n" and "network_start x n0" and "\<And>i. numeric_name (name i)"
  shows "net_inv n"
  using assms(1)
proof (induction rule: net_reach.induct)
  case net_start
  show ?case by (rule net_inv_start [OF assms(2)])
next
  case (net_next n n')
  then show ?case using net_step_inv assms(2,3) by (auto simp: network_start_def)
qed

subsection \<open>From one log to another script\<close>

text \<open>What a session leaves for a host: nothing changes unless it is named, and a new host comes in as it was sent.\<close>

lemma remote_effect_other: "ip_of hr \<noteq> ip \<Longrightarrow> remote_effect CONFIG pton N h t hr m ip = m ip"
  by (simp add: remote_effect_adopt host_merge_record adopt_record_wf)

lemma remote_effects_other: "queued ip hrs = 0 \<Longrightarrow> remote_effects CONFIG pton N h es k hrs m ip = m ip"
proof (induction hrs arbitrary: k m)
  case (Cons hr hrs)
  then have "ip_of hr \<noteq> ip" "queued ip hrs = 0" by (auto simp: queued_def split: if_splits)
  then show ?case using Cons.IH by (simp add: remote_effect_other)
qed simp

lemma remote_effects_once:
  assumes "queued ip hrs = 1" and "m ip = None" and "\<not> (cfg_remote_authoritative CONFIG = 0 \<and> is_excluded pton N ip)"
  shows "\<exists>r \<in> set hrs. ip_of r = ip \<and> remote_effects CONFIG pton N h es k hrs m ip = Some (adopt_record h r)"
proof -
  have "filter (\<lambda>r. ip_of r = ip) hrs \<noteq> []" using assms(1) by (auto simp: queued_def)
  then obtain r where r: "r \<in> set hrs" "ip_of r = ip" by (auto simp: filter_empty_conv)
  obtain xs ys where s: "hrs = xs @ r # ys" using split_list [OF r(1)] by blast
  then have q: "queued ip xs = 0" "queued ip ys = 0" using assms(1) r(2) by (auto simp: queued_def)
  have "remote_effects CONFIG pton N h es k hrs m ip = Some (adopt_record h r)"
    unfolding s remote_effects_append using assms(2,3) r(2) q
    by (simp add: remote_effects_other remote_effect_adopt host_merge_record adopt_record_wf)
  with r show ?thesis by blast
qed

lemma remote_effects_books:
  assumes "\<forall>r \<in> set hrs. good_remote r" and "\<forall>ip r. m ip = Some r \<longrightarrow> length ip > 2"
  shows "(\<forall>ip r. remote_effects CONFIG pton N h es k hrs m ip = Some r \<longrightarrow> length ip > 2)
    \<and> (\<forall>ip. in_effect (remote_effects CONFIG pton N h es k hrs m ip) = in_effect (m ip))"
  using assms
proof (induction hrs arbitrary: k m)
  case (Cons hr hrs)
  let ?m = "remote_effect CONFIG pton N h (now (es k)) hr m"
  have p: "hr_processed (adopt_record h hr) = 0" by (simp add: adopt_record_def)
  have a: "\<forall>ip r. ?m ip = Some r \<longrightarrow> length ip > 2"
    using Cons.prems by (auto simp: remote_effect_adopt host_merge_record adopt_record_wf good_remote_def split: if_splits)
  have b: "in_effect (?m ip) = in_effect (m ip)" for ip
    using in_effect_merge [OF p, where m = m and ip = "ip_of hr" and t = "now (es k)"]
    by (simp add: remote_effect_adopt host_merge_record adopt_record_wf)
  have c: "\<forall>r \<in> set hrs. good_remote r" using Cons.prems(1) by simp
  show ?case unfolding remote_effects.simps using Cons.IH [OF c a, of "Suc k"] unfolding b .
qed simp

lemma session_daemon:
  assumes "daemon_inv d" and "records_inv st" and "\<forall>r \<in> set hrs. good_remote r"
    and "records_map st = remote_effects CONFIG pton N h es k hrs (records_map (d_records d))"
  shows "daemon_inv (d\<lparr>d_records := st\<rparr>)"
proof -
  have "\<forall>ip r. records_map (d_records d) ip = Some r \<longrightarrow> length ip > 2" using assms(1) by (simp add: daemon_inv_iff)
  note books = remote_effects_books [OF assms(3) this, of CONFIG pton N h es k, folded assms(4)]
  have "balanced (d_records d) (d_action d)" using assms(1) by (simp add: daemon_inv_iff)
  then have "balanced st (d_action d)" unfolding balanced_def using books by metis
  with books assms(1,2) show ?thesis unfolding daemon_inv_iff by simp
qed

lemma fresh_local: "cstr (hr_origin (fresh_record c t ip)) = LOCALHOST"
  using cstr_strncpy [of LOCALHOST IPADDR_SIZE] localhost_cstr by (simp add: fresh_record_def LOCALHOST_def IPADDR_SIZE_def)

text \<open>A find that is due is in what the next pass of the sending thread writes, once.\<close>

lemma find_told:
  assumes ag: "agent_inv d" and x: "ext_ok x" and r: "records_map (d_records d) ip = Some r" "due r" "cstr (hr_origin r) = LOCALHOST"
    and ae: "action_ok ae (dx_config x)"
    and inf: "cfg_inform (dx_config x) = 1" "cfg_inform_agents (dx_config x) \<noteq> []" "cl_started (as_client (d_action d))"
    and k: "k < length (active (as_client (d_action d)))" "queued ip (stream_of d k) = 0"
    and tr: "tls_ready (tr_tls tr) (tr_fd tr)" "reachable_server (dx_config x) tr" "tr_write tr = (\<lambda>_. True)"
      "length buff = REMOTE_COMMAND_SIZE"
  shows "\<exists>st1 s1 l q rs. action_thread_pass ae (dx_config x) (d_records d, d_action d) = Ret (st1, s1)
    \<and> k < length (active (as_client s1))
    \<and> client_queue_worker nd (dx_config x) tr buff tls_null (active (as_client s1) ! k) = Ret (Some l, q)
    \<and> pl_sent l = map (wire ADD) rs \<and> (\<forall>r \<in> set rs. good_remote r) \<and> queued ip rs = 1"
proof -
  let ?c = "dx_config x"
  have d: "daemon_inv d" using ag by (simp add: agent_inv_def)
  then have inv: "records_inv (d_records d)" and ai: "action_inv (d_action d)" by (simp_all add: daemon_inv_iff)
  have rel: "relayed ?c r" using r(3) inf(1,2) by (simp add: relayed_def)
  let ?new = "filter (relayed ?c) (filter due (somes (hr_vector (d_records d))))"
  obtain st1 s1 where p: "action_thread_pass ae ?c (d_records d, d_action d) = Ret (st1, s1)" "pending (as_client s1) = []"
      "streams (as_client s1) = map (\<lambda>l. l @ ?new) (streams (as_client (d_action d)))"
    using action_thread_pass_spec [OF inv ae ai daemon_actionable [OF d]] inf unfolding returns_iff relay_streams_def by auto
  have "own_step x None d (d\<lparr>d_records := st1, d_action := s1\<rparr>)" by (rule own_action [OF ae p(1)])
  from own_step_gossip [OF this x ag] have ag1: "list_all own_record l" if "l \<in> set (streams (as_client s1))" for l
    using that by (simp add: agent_inv_def)
  let ?q = "active (as_client s1) ! k"
  have len: "length (active (as_client s1)) = length (active (as_client (d_action d)))"
    using arg_cong [OF p(3), of length] by (simp add: streams_def)
  then have q: "cq_head ?q = stream_of d k @ ?new"
    using arg_cong [OF p(3), of "\<lambda>l. l ! k"] k(1) p(2) by (simp add: streams_def stream_of_def)
  then have one: "queued ip (cq_head ?q) = 1"
    using k(2) r(1,2) rel by (simp add: queued_relayed [OF inv, unfolded filter_filter])
  have "cq_head ?q \<in> set (streams (as_client s1))" using k(1) len p(2) by (auto simp: streams_def)
  then have good: "\<forall>r \<in> set (cq_head ?q). good_remote r" using ag1 by (fastforce simp: list_all_iff own_record_def)
  have ne: "cq_head ?q \<noteq> []" using one by auto
  have "\<forall>r \<in> set (cq_head ?q). sendable r" using good good_remote_sendable by blast
  from client_queue_worker_spec [OF ne this tr(4,1), of nd ?c] tr(2,3)
  obtain l q' where "client_queue_worker nd ?c tr buff tls_null ?q = Ret (Some l, q')"
      "pl_sent l = map (wire ADD) (map ((!) (cq_head ?q)) [0..<length (cq_head ?q)])"
    unfolding returns_iff by (auto simp: comp_def)
  then show ?thesis using p(1) k(1) len good one unfolding map_nth by metis
qed

text \<open>Lines of the log, one after the other, keep the invariant of the agent.\<close>

lemma agent_reads:
  assumes "agent_inv d" and x: "ext_ok x" and N: "exclude_nets N (d_exclude d)" and ok: "\<And>i. sys_ok (es i)"
    and "\<forall>l \<in> set ls. length l < BUFFSIZE \<and> is_cstring l \<and> (\<forall>ip. capture (dx_pcre x) l = Some ip \<longrightarrow> good_addr ip)"
    and "run_lines (regex_nth es (dx_config x) (dx_pcre_info x) (dx_pcre x) (dx_pton x) (d_exclude d)) ls (m, True, d_records d) = Ret (m', c, st)"
  shows "agent_inv (d\<lparr>d_records := st\<rparr>)"
  using assms(1,3,5,6)
proof (induction ls arbitrary: d m)
  case Nil
  then show ?case by (cases d) simp
next
  case (Cons l ls)
  have pt: "pton_ok (dx_pton x)" and pc: "pcre_ok (dx_pcre x)" using x by (auto simp: ext_ok_def)
  have inv: "records_inv (d_records d)" using Cons.prems(1) by (simp add: agent_inv_def daemon_inv_iff)
  obtain st1 where st1: "regex_do (es m) (dx_config x) (dx_pcre_info x) (dx_pcre x) (dx_pton x) (d_exclude d) l (True, d_records d) = Ret (True, st1)"
    using regex_do_spec [OF inv Cons.prems(2) pt pc ok [of m], of l "dx_config x" "dx_pcre_info x"] Cons.prems(3)
    unfolding returns_iff by auto
  let ?d = "d\<lparr>d_records := st1\<rparr>"
  have "own_step x (capture (dx_pcre x) l) d ?d" by (rule own_line [of "es m"]) (use ok st1 Cons.prems(3) in auto)
  then have "agent_inv ?d" using own_step_gossip [OF _ x Cons.prems(1)] by blast
  from Cons.IH [OF this, of "Suc m"] Cons.prems(2-4) st1 show ?case by (simp add: regex_nth_def)
qed

text \<open>So a host that the log names often enough is told.\<close>

lemma detection_told:
  assumes ag: "agent_inv d" and x: "ext_ok x" and new: "records_map (d_records d) ip = None"
    and M: "exclude_nets M (d_exclude d)" "\<not> is_excluded (dx_pton x) M ip"
    and rd: "reader_has rd acc" "ls = map cstr (fst (split_lines acc cs))"
      "\<forall>l \<in> set ls. \<forall>ip. capture (dx_pcre x) l = Some ip \<longrightarrow> good_addr ip"
    and es: "\<And>j. sys_ok (es j)" "sighting_times (dx_pcre x) es m ls ip = t # ts" "\<forall>t' \<in> set ts. t' - t <=s cfg_time_interval (dx_config x)"
    and n: "sint (cfg_action_threshold (dx_config x)) \<le> int (Suc (length ts))" "Suc (length ts) < 2 ^ 31"
    and ae: "action_ok ae (dx_config x)"
    and inf: "cfg_inform (dx_config x) = 1" "cfg_inform_agents (dx_config x) \<noteq> []" "cl_started (as_client (d_action d))"
    and k: "k < length (active (as_client (d_action d)))" "queued ip (stream_of d k) = 0"
    and tr: "tls_ready (tr_tls tr) (tr_fd tr)" "reachable_server (dx_config x) tr" "tr_write tr = (\<lambda>_. True)"
      "length buff = REMOTE_COMMAND_SIZE"
  shows "returns (obind (readtoeof (regex_nth es (dx_config x) (dx_pcre_info x) (dx_pcre x) (dx_pton x) (d_exclude d)) (map FChar cs) rd
        (m, True, d_records d)) (\<lambda>(stopped, rd', m', compiled, st).
      obind (action_thread_pass ae (dx_config x) (st, d_action d)) (\<lambda>(st1, s1).
      client_queue_worker nd (dx_config x) tr buff tls_null (active (as_client s1) ! k))))
    (\<lambda>(lg, q). \<exists>l rs. lg = Some l \<and> pl_sent l = map (wire ADD) rs \<and> (\<forall>r \<in> set rs. good_remote r) \<and> queued ip rs = 1)"
proof -
  let ?c = "dx_config x" and ?f = "regex_nth es (dx_config x) (dx_pcre_info x) (dx_pcre x) (dx_pton x) (d_exclude d)"
  have inv: "records_inv (d_records d)" using ag by (simp add: agent_inv_def daemon_inv_iff)
  have pt: "pton_ok (dx_pton x)" and pc: "pcre_ok (dx_pcre x)" using x by (auto simp: ext_ok_def)
  note lines = completed_lines [OF rd(1) rd(3) [unfolded rd(2)], folded rd(2)]
  obtain rd' where read: "readtoeof ?f (map FChar cs) rd (m, True, d_records d) = obind (run_lines ?f ls (m, True, d_records d)) (\<lambda>s'. Ret (False, rd', s'))"
    using readtoeof_spec [OF rd(1), of ?f cs "(m, True, d_records d)"] unfolding rd(2) by blast
  obtain m' st where st: "run_lines ?f ls (m, True, d_records d) = Ret (m', True, st)" "records_inv st"
      "records_map st = log_effects ?c (dx_pcre x) (dx_pton x) M es m ls (records_map (d_records d))"
    using run_regex_lines [of "d_records d" M "d_exclude d" "dx_pton x" "dx_pcre x" es ls ?c "dx_pcre_info x" m, OF inv M(1) pt pc es(1) lines] unfolding returns_iff by auto
  obtain r where r: "records_map st ip = Some r" "hr_origin r = hr_origin (fresh_record ?c t ip)" "hr_processed r = 0"
      "hr_action_threshold r = cfg_action_threshold ?c" "hr_occurrences r = of_nat (Suc (length ts))"
    using sightings_in_log [OF M(2), of "records_map (d_records d)", OF new es(2,3)] st(3) by auto
  have due: "due r" using of_nat_sle [OF n] r(3-5) by (simp add: due_def del: of_nat_Suc)
  let ?d = "d\<lparr>d_records := st\<rparr>"
  have ag1: "agent_inv ?d" by (rule agent_reads [OF ag x M(1) es(1) lines st(1)])
  have m: "records_map (d_records ?d) ip = Some r" using r(1) by simp
  have o': "cstr (hr_origin r) = LOCALHOST" by (simp only: r(2) fresh_local)
  have k': "k < length (active (as_client (d_action ?d)))" "queued ip (stream_of ?d k) = 0" using k by (simp_all add: stream_of_def)
  have inf': "cl_started (as_client (d_action ?d))" using inf(3) by simp
  from find_told [OF ag1 x m due o' ae inf(1,2) inf' k' tr, of nd] st(1) show ?thesis by (fastforce simp: read)
qed

subsection \<open>Properties\<close>

text \<open>
  A network for the witnesses: every agent acts at the first sighting and informs one other; agent 0 starts its
  client, finds a host in its log and tells agent 1.
\<close>

definition demo_informing :: config where
  "demo_informing = demo_config\<lparr>cfg_action_threshold := 1, cfg_inform := 1, cfg_inform_agents := [[demo_addrinfo]]\<rparr>"

definition demo_ext_net :: daemon_ext where
  "demo_ext_net = demo_ext\<lparr>dx_config := demo_informing\<rparr>"

definition demo_network :: network where
  "demo_network = \<lparr>nw_agents = (\<lambda>_. demo_daemon), nw_sent = (\<lambda>_ _. []), nw_read = (\<lambda>_ _. 0), nw_seen = (\<lambda>_ _. 0)\<rparr>"

lemma demo_informing_simps [simp]: "cfg_action_threshold demo_informing = 1" "cfg_inform demo_informing = 1"
    "cfg_inform_agents demo_informing = [[demo_addrinfo]]" "cfg_time_interval demo_informing = 60"
    "cfg_remote_authoritative demo_informing = 0" "cfg_inform_retry demo_informing = 30" "action_ok calm_action demo_informing"
  using calm_action_ok(1) by (simp_all add: demo_informing_def action_ok_def)

lemma demo_ext_net_simps [simp]: "dx_config demo_ext_net = demo_informing" "ext_ok demo_ext_net"
    "dx_pcre demo_ext_net = demo_pcre" "dx_pton demo_ext_net = demo_pton" "dx_pcre_info demo_ext_net = demo_pcre_info"
  using demo_ext_ok(1) by (simp_all add: demo_ext_net_def ext_ok_def demo_ext_def)

lemma demo_network_start [simp]: "network_start (\<lambda>_. demo_ext_net) demo_network"
  using demo_daemon_start by (simp add: network_start_def demo_network_def daemon_start_def)

lemma demo_name [simp]: "numeric_name ''192.0.2.7''"
  by (simp add: numeric_name_def is_cstring_def IPADDR_SIZE_def LOCALHOST_def)

lemma demo_transport_informing: "reachable_server demo_informing demo_transport" "tls_ready (tr_tls demo_transport) (tr_fd demo_transport)"
    "tr_write demo_transport = (\<lambda>_. True)" "length (replicate 144 (0 :: u8)) = REMOTE_COMMAND_SIZE"
  by (auto simp: reachable_server_def demo_transport_def tls_ok_def tls_ready_def REMOTE_COMMAND_SIZE_def intro!: bexI [of _ 1])

lemma demo_net_up:
  "\<exists>n cl. net_reach (\<lambda>_. demo_ext_net) (\<lambda>_. ''192.0.2.7'') (\<lambda>_ _. 1) demo_network n
    \<and> nw_agents n 0 = demo_daemon\<lparr>d_action := idle_action\<lparr>as_client := cl\<rparr>\<rparr> \<and> nw_agents n 1 = demo_daemon
    \<and> nw_sent n = (\<lambda>_ _. []) \<and> nw_seen n = (\<lambda>_ _. 0) \<and> cl_started cl \<and> length (active cl) = 1 \<and> streams cl = [[]]"
proof -
  let ?ag = "cfg_inform_agents demo_informing"
  have ok: "agents_ok ?ag" "?ag \<noteq> []" "\<And>i. sys_ok ((\<lambda>_. calm_env) i)"
    by (simp_all add: agents_ok_def demo_addrinfo_def AF_INET_NUM_def)
  obtain cl where cl: "client_start False (\<lambda>_. calm_env) (\<lambda>_. 0) ?ag (as_client idle_action) = Ret (RETVAL_OK, cl)"
      "cl_started cl" "pending cl = []" "active cl = map new_queue (take MAXCLIENTQUEUES ?ag)"
    using client_start_spec [OF ok, where nd = False and st = "as_client idle_action"] unfolding returns_iff by auto
  have d: "nw_agents demo_network 0 = demo_daemon" "d_action demo_daemon = idle_action"
    by (simp_all add: demo_network_def demo_daemon_def)
  have "own_step demo_ext_net None demo_daemon (demo_daemon\<lparr>d_action := (d_action demo_daemon)\<lparr>as_client := cl\<rparr>\<rparr>)"
    by (rule own_client_up) (use ok cl(1) d(2) in simp_all)
  then have "own_step demo_ext_net None (nw_agents demo_network 0) (demo_daemon\<lparr>d_action := idle_action\<lparr>as_client := cl\<rparr>\<rparr>)"
    by (simp only: d)
  from net_next [OF net_start net_own [where x = "\<lambda>_. demo_ext_net", OF this]]
  obtain n where "net_reach (\<lambda>_. demo_ext_net) (\<lambda>_. ''192.0.2.7'') (\<lambda>_ _. 1) demo_network n"
      "n = demo_network\<lparr>nw_agents := (nw_agents demo_network)(0 := demo_daemon\<lparr>d_action := idle_action\<lparr>as_client := cl\<rparr>\<rparr>),
         nw_seen := nw_seen demo_network\<rparr>" by simp
  with cl(2-4) show ?thesis
    by (intro exI [of _ n] exI [of _ cl]) (simp add: demo_network_def MAXCLIENTQUEUES_def streams_def new_queue_def)
qed

lemma demo_net_told:
  "\<exists>n b. net_reach (\<lambda>_. demo_ext_net) (\<lambda>_. ''192.0.2.7'') (\<lambda>_ _. 1) demo_network n
    \<and> b \<in> set (nw_sent n 0 0) \<and> commands ''10.1.2.3'' (nw_sent n 0 0) = 1 \<and> nw_seen n 0 ''10.1.2.3'' = 1"
proof -
  let ?x = "\<lambda>_ :: nat. demo_ext_net" and ?nm = "\<lambda>_ :: nat. ''192.0.2.7''" and ?peer = "\<lambda>(_ :: nat) (_ :: nat). 1 :: nat"
  let ?line = "''Failed from 10.1.2.3'' @ [CHR 0x0A]" and ?ip = "''10.1.2.3''"
  obtain n cl where n: "net_reach ?x ?nm ?peer demo_network n" "nw_agents n 0 = demo_daemon\<lparr>d_action := idle_action\<lparr>as_client := cl\<rparr>\<rparr>"
      "nw_sent n = (\<lambda>_ _. [])" "nw_seen n = (\<lambda>_ _. 0)" "cl_started cl" "length (active cl) = 1" "streams cl = [[]]"
    using demo_net_up by blast
  let ?d = "nw_agents n 0"
  have dd: "d_records ?d = empty_records" "d_exclude ?d = empty_excludes" "as_client (d_action ?d) = cl"
    using n(2) by (simp_all add: demo_daemon_def)
  have line: "length ?line < BUFFSIZE" "is_cstring ?line" "\<And>ip. capture demo_pcre ?line = Some ip \<Longrightarrow> good_addr ip"
    using demo_line_cstr(2,3) by (simp add: BUFFSIZE_def, blast, simp only: demo_capture option.inject)
  obtain st where st: "regex_do calm_env demo_informing demo_pcre_info demo_pcre demo_pton empty_excludes ?line (True, empty_records) = Ret (True, st)"
      "records_inv st" "records_map st = log_effect demo_informing demo_pcre demo_pton {#} 1000 ?line (records_map empty_records)"
    using regex_do_spec [of empty_records "{#}" empty_excludes demo_pton demo_pcre calm_env ?line demo_informing demo_pcre_info] line
    unfolding returns_iff by auto
  let ?r = "fresh_record demo_informing 1000 ?ip" and ?d1 = "?d\<lparr>d_records := st\<rparr>"
  have "own_step demo_ext_net (capture (dx_pcre demo_ext_net) ?line) ?d ?d1"
    by (rule own_line [of calm_env]) (use st(1) line dd in auto)
  then have "own_step demo_ext_net (Some ?ip) ?d ?d1" using demo_capture by (simp only: demo_ext_net_simps)
  from net_next [OF n(1) net_own [where x = ?x, OF this]]
  obtain n1 where n1: "net_reach ?x ?nm ?peer demo_network n1" "nw_agents n1 0 = ?d1" "nw_sent n1 = nw_sent n" "nw_seen n1 0 ?ip = 1"
    using n(4) by (auto simp: upd2_apply)
  have m: "records_map (d_records ?d1) ?ip = Some ?r"
    using st(3) by (simp add: log_effect_def is_excluded_def host_seen_bump del: append_Cons append_Nil)
  have "net_inv n1" using net_reach_inv [OF n1(1) demo_network_start] by simp
  then have ag: "agent_inv ?d1" using n1(2) by (metis net_inv_def)
  have due: "due ?r" by (simp add: due_def fresh_record_def word_sle_eq)
  have k: "0 < length (active (as_client (d_action ?d1)))" "queued ?ip (stream_of ?d1 0) = 0" "cl_started (as_client (d_action ?d1))"
    using n(5-7) dd(3) by (simp_all add: stream_of_def)
  obtain st2 s2 l q rs where p: "action_thread_pass calm_action demo_informing (d_records ?d1, d_action ?d1) = Ret (st2, s2)"
      "0 < length (active (as_client s2))"
      "client_queue_worker False demo_informing demo_transport (replicate 144 0) tls_null (active (as_client s2) ! 0) = Ret (Some l, q)"
      "pl_sent l = map (wire ADD) rs" "\<forall>r \<in> set rs. good_remote r" "queued ?ip rs = 1"
    using find_told [OF ag demo_ext_net_simps(2) m due fresh_local, where ae = calm_action and k = 0 and tr = demo_transport and buff = "replicate 144 0" and nd = False]
      k demo_transport_informing by auto
  let ?d2 = "?d1\<lparr>d_records := st2, d_action := s2\<rparr>"
  have "own_step demo_ext_net None (nw_agents n1 0) ?d2" unfolding n1(2) by (rule own_action [of calm_action]) (use p(1) in simp_all)
  from net_next [OF n1(1) net_own [where x = ?x, OF this]]
  obtain n2 where n2: "net_reach ?x ?nm ?peer demo_network n2" "nw_agents n2 0 = ?d2" "nw_sent n2 = nw_sent n1" "nw_seen n2 = nw_seen n1" by auto
  from net_next [OF n2(1) net_write [where x = ?x and i = 0 and k = 0 and tr = demo_transport and buff = "replicate 144 0" and nd = False, OF refl]] p(2,3) n2(2)
  obtain n3 where n3: "net_reach ?x ?nm ?peer demo_network n3" "nw_sent n3 0 0 = map (wire ADD) rs" "nw_seen n3 = nw_seen n2"
    using demo_transport_informing(2,4) n2(3) n1(3) n(3) p(4) by (fastforce simp: upd2_apply)
  have wf: "\<forall>r \<in> set rs. wf_hostrecord r" using p(5) by (simp add: good_remote_def)
  have "rs \<noteq> []" using p(6) by auto
  then obtain b where "b \<in> set (nw_sent n3 0 0)" unfolding n3(2) by (cases rs) auto
  with n3 n2(4) n1(4) p(6) commands_wires [OF wf] show ?thesis by (intro exI [of _ n3] exI [of _ b]) simp
qed

text \<open>
  C10. Agents that trust each other can: in every network the agents reach, each command one of them has written is
  one the worker of any other takes. No assertion on what was received fails, no address is read past its end, and the
  table keeps its invariant; the record is one of the sender's own finds, with at least as many
  occurrences as its threshold.
\<close>

theorem network_commands_taken:
  assumes "network_start x n0" and "\<And>i. numeric_name (name i)" and "net_reach x name peer n0 n"
    and "b \<in> set (nw_sent n i k)" and "sys_ok e"
  shows "returns (worker_loop nd (\<lambda>_. e) (dx_config (x j)) (dx_pton (x j)) (Some (name i)) (d_exclude (nw_agents n j)) 0 [RecvBytes b]
      (d_records (nw_agents n j))) (\<lambda>(st, handled). handled = 1 \<and> records_inv st)
    \<and> (\<exists>r. b = wire ADD r \<and> wf_hostrecord r \<and> cstr (hr_origin r) = LOCALHOST \<and> hr_action_threshold r <=s hr_occurrences r)"
proof -
  have inv: "net_inv n" using net_reach_inv assms(1-3) by blast
  then obtain r where r: "b = wire ADD r" "own_record r" using net_inv_sent [OF _ assms(4)] by blast
  then have g: "good_remote r" by (simp add: own_record_def)
  have x: "ext_ok (x j)" using assms(1) by (simp add: network_start_def)
  have ag: "agent_inv (nw_agents n j)" using inv by (simp add: net_inv_def)
  from agent_receive [OF ag x assms(5) g assms(2) [of i], of nd] r(1)
  have "returns (worker_loop nd (\<lambda>_. e) (dx_config (x j)) (dx_pton (x j)) (Some (name i)) (d_exclude (nw_agents n j)) 0 [RecvBytes b]
      (d_records (nw_agents n j))) (\<lambda>(st, handled). handled = 1 \<and> records_inv st)"
    by (auto simp: agent_inv_def daemon_inv_iff simp del: worker_loop.simps elim!: ospec_mono)
  with r g show ?thesis by (auto simp: own_record_def good_remote_def)
qed

theorem network_commands_taken_witness:
  "\<exists>n b. net_reach (\<lambda>_. demo_ext_net) (\<lambda>_. ''192.0.2.7'') (\<lambda>_ _. 1) demo_network n \<and> b \<in> set (nw_sent n 0 0)
     \<and> returns (worker_loop False (\<lambda>_. calm_env) demo_informing demo_pton (Some ''192.0.2.7'') (d_exclude (nw_agents n 1)) 0 [RecvBytes b]
         (d_records (nw_agents n 1))) (\<lambda>(st, handled). handled = 1)"
proof -
  obtain n b where n: "net_reach (\<lambda>_. demo_ext_net) (\<lambda>_. ''192.0.2.7'') (\<lambda>_ _. 1) demo_network n" "b \<in> set (nw_sent n 0 0)" using demo_net_told by blast
  from network_commands_taken [OF demo_network_start demo_name n, of calm_env False 1]
  have "returns (worker_loop False (\<lambda>_. calm_env) demo_informing demo_pton (Some ''192.0.2.7'') (d_exclude (nw_agents n 1)) 0 [RecvBytes b]
         (d_records (nw_agents n 1))) (\<lambda>(st, handled). handled = 1)"
    by (auto simp del: worker_loop.simps elim!: ospec_mono)
  with n show ?thesis by blast
qed

text \<open>
  C9. Nothing that was heard is passed on: however the agents' sections and the network interleave, the commands that one queue
  of an agent has written and the records it is still to send name a host at most as often as the agent's own log does.
  So an agent whose log does not name a host never tells anybody about it, and the messages in the network
  are bounded by the lines of the logs.
\<close>

theorem nothing_passed_on:
  assumes "network_start x n0" and "\<And>i. numeric_name (name i)" and "net_reach x name peer n0 n"
  shows "commands ip (nw_sent n i k) + queued ip (stream_of (nw_agents n i) k) \<le> nw_seen n i ip"
proof -
  have "net_inv n" using net_reach_inv assms by blast
  then have "commands ip (nw_sent n i k) + held (nw_agents n i) k ip \<le> nw_seen n i ip" by (simp add: net_inv_def)
  then show ?thesis by (simp add: held_def)
qed

theorem nothing_passed_on_witness:
  "\<exists>n. net_reach (\<lambda>_. demo_ext_net) (\<lambda>_. ''192.0.2.7'') (\<lambda>_ _. 1) demo_network n \<and> commands ''10.1.2.3'' (nw_sent n 0 0) = 1
     \<and> queued ''10.1.2.3'' (stream_of (nw_agents n 0) 0) = 0 \<and> nw_seen n 0 ''10.1.2.3'' = 1"
proof -
  obtain n where n: "net_reach (\<lambda>_. demo_ext_net) (\<lambda>_. ''192.0.2.7'') (\<lambda>_ _. 1) demo_network n" "commands ''10.1.2.3'' (nw_sent n 0 0) = 1"
      "nw_seen n 0 ''10.1.2.3'' = 1" using demo_net_told by blast
  from nothing_passed_on [OF demo_network_start demo_name n(1), of "''10.1.2.3''" 0 0] n show ?thesis by auto
qed

text \<open>
  C8. What one agent finds, the others act upon. In every network the agents reach, suppose that neither of two agents knows a
  host, that the first does not exclude it and the second either does not exclude it or trusts its peers
  (\<^verbatim>\<open>remote_authoritative\<close>), that the first has its client running and nothing about the host queued for the second, that its
  server can be reached and every write succeeds, and that the system calls succeed. If the first reads a piece of its log
  whose completed lines name the host at least as often as its threshold, none of them later than the interval after
  the first, then the next passes of its action thread and of its sending
  thread, the session in which the second agent reads what was written, and the next pass of the action thread
  there run the second agent's script with \<^verbatim>\<open>new\<close> for the host, once; its record names the first agent as the origin.
\<close>

theorem detection_spreads:
  assumes "network_start x n0" and "\<And>i. numeric_name (name i)" and "net_reach x name peer n0 n"
    and "d = nw_agents n i" and "d' = nw_agents n j" and "c = dx_config (x i)" and "c' = dx_config (x j)"
    and "records_map (d_records d) ip = None" and "records_map (d_records d') ip = None"
    and "exclude_nets M (d_exclude d)" and "\<not> is_excluded (dx_pton (x i)) M ip"
    and "exclude_nets N (d_exclude d')" and "\<not> (cfg_remote_authoritative c' = 0 \<and> is_excluded (we_pton w) N ip)"
    and "reader_has rd acc" and "ls = map cstr (fst (split_lines acc cs))"
    and "\<forall>l \<in> set ls. \<forall>ip. capture (dx_pcre (x i)) l = Some ip \<longrightarrow> good_addr ip" and "\<And>j. sys_ok (es j)"
    and "sighting_times (dx_pcre (x i)) es m ls ip = t # ts" and "\<forall>t' \<in> set ts. t' - t <=s cfg_time_interval c"
    and "sint (cfg_action_threshold c) \<le> int (Suc (length ts))" and "Suc (length ts) < 2 ^ 31"
    and "action_ok ae c" and "cfg_inform c = 1" and "cfg_inform_agents c \<noteq> []" and "cl_started (as_client (d_action d))"
    and "k < length (active (as_client (d_action d)))" and "queued ip (stream_of d k) = 0"
    and "tls_ready (tr_tls tr) (tr_fd tr)" and "reachable_server c tr" and "tr_write tr = (\<lambda>_. True)" and "length buff = REMOTE_COMMAND_SIZE"
    and "\<And>evs. session_ok (w\<lparr>we_recv := evs\<rparr>)" and "action_ok ae' c'"
  shows "returns (obind (obind (readtoeof (regex_nth es c (dx_pcre_info (x i)) (dx_pcre (x i)) (dx_pton (x i)) (d_exclude d)) (map FChar cs) rd
          (m, True, d_records d)) (\<lambda>(stopped, rd', m', compiled, st).
        obind (action_thread_pass ae c (st, d_action d)) (\<lambda>(st1, s1).
        client_queue_worker nd c tr buff tls_null (active (as_client s1) ! k))))
      (\<lambda>(lg, q). obind (network_server_worker nd' (w\<lparr>we_recv := map RecvBytes (pl_sent (the lg))\<rparr>) c' (Some (name i)) (d_exclude d') (d_records d'))
      (\<lambda>wr. action_thread_pass ae' c' (wr_records (the wr), d_action d'))))
    (\<lambda>(st', s'). runs AC_NEW ip (as_log s') = runs AC_NEW ip (as_log (d_action d')) + 1
      \<and> (\<exists>r. records_map st' ip = Some r \<and> hr_processed r = 1 \<and> cstr (hr_origin r) = name i))"
proof -
  have inv: "net_inv n" using net_reach_inv assms(1-3) by blast
  then have ag: "agent_inv d" and ag': "agent_inv d'" using assms(4,5) by (simp_all add: net_inv_def)
  have x: "ext_ok (x i)" "ext_ok (x j)" using assms(1) by (simp_all add: network_start_def)
  have dj: "daemon_inv d'" using ag' by (simp add: agent_inv_def)
  note told = detection_told [OF ag x(1) assms(8,10,11,14-18) assms(19-24) [unfolded assms(6)] assms(25-28) assms(29) [unfolded assms(6)]
      assms(30,31), of nd, folded assms(6)]
  have heard: "returns (obind (network_server_worker nd' (w\<lparr>we_recv := map RecvBytes (map (wire ADD) rs)\<rparr>) c' (Some (name i)) (d_exclude d')
        (d_records d')) (\<lambda>wr. action_thread_pass ae' c' (wr_records (the wr), d_action d')))
    (\<lambda>(st', s'). runs AC_NEW ip (as_log s') = runs AC_NEW ip (as_log (d_action d')) + 1
      \<and> (\<exists>r. records_map st' ip = Some r \<and> hr_processed r = 1 \<and> cstr (hr_origin r) = name i))"
    if rs: "\<forall>r \<in> set rs. good_remote r" "queued ip rs = 1" for rs
  proof -
    let ?w = "w\<lparr>we_recv := map RecvBytes (map (wire ADD) rs)\<rparr>"
    have rinv: "records_inv (d_records d')" using dj by (simp add: daemon_inv_iff)
    have recv: "we_recv ?w = map (\<lambda>hr. RecvBytes (wire ADD hr)) rs" by simp
    obtain wr where wr: "network_server_worker nd' ?w c' (Some (name i)) (d_exclude d') (d_records d') = Ret (Some wr)"
        "records_inv (wr_records wr)" "records_map (wr_records wr) =
          remote_effects c' (we_pton w) N (name i) (we_sys w) 0 rs (records_map (d_records d'))"
      using session_merges [OF assms(32) rinv assms(12) rs(1) recv, of nd' c' "name i"]
      unfolding returns_iff by (auto split: option.splits)
    obtain r where r: "r \<in> set rs" "ip_of r = ip" "records_map (wr_records wr) ip = Some (adopt_record (name i) r)"
      using remote_effects_once [where m = "records_map (d_records d')", OF rs(2) assms(9,13)] wr(3) by metis
    have due: "due (adopt_record (name i) r)"
      using rs(1) r(1) by (auto simp: due_def adopt_record_wf good_remote_def) (simp add: adopt_record_def)
    have "daemon_inv (d'\<lparr>d_records := wr_records wr\<rparr>)" by (rule session_daemon [OF dj wr(2) rs(1) wr(3)])
    from action_pass_counts [OF this, of ae' "x j"] assms(7,33) wr(1) r(3) due adopt_record_foreign(1) [OF assms(2) [of i]]
    show ?thesis by (auto simp: acted_def elim!: ospec_mono)
  qed
  show ?thesis
    by (subst ospec_obind, rule ospec_mono [OF told]) (use heard in auto)
qed

theorem detection_spreads_witness:
  "\<exists>n. net_reach (\<lambda>_. demo_ext_net) (\<lambda>_. ''192.0.2.7'') (\<lambda>_ _. 1) demo_network n
     \<and> returns (obind (obind (readtoeof (regex_nth (\<lambda>_. calm_env) demo_informing demo_pcre_info demo_pcre demo_pton (d_exclude (nw_agents n 0)))
             (map FChar demo_log) reader_start (0, True, d_records (nw_agents n 0))) (\<lambda>(stopped, rd', m', compiled, st).
           obind (action_thread_pass calm_action demo_informing (st, d_action (nw_agents n 0))) (\<lambda>(st1, s1).
           client_queue_worker False demo_informing demo_transport (replicate 144 0) tls_null (active (as_client s1) ! 0))))
         (\<lambda>(lg, q). obind (network_server_worker False (demo_session\<lparr>we_recv := map RecvBytes (pl_sent (the lg))\<rparr>) demo_informing
             (Some ''192.0.2.7'') (d_exclude (nw_agents n 1)) (d_records (nw_agents n 1)))
         (\<lambda>wr. action_thread_pass calm_action demo_informing (wr_records (the wr), d_action (nw_agents n 1)))))
       (\<lambda>(st', s'). runs AC_NEW ''10.1.2.3'' (as_log s') = 1)"
proof -
  let ?ip = "''10.1.2.3''"
  let ?ls = "map cstr (fst (split_lines [] demo_log))"
  obtain n cl where n: "net_reach (\<lambda>_. demo_ext_net) (\<lambda>_. ''192.0.2.7'') (\<lambda>_ _. 1) demo_network n"
      "nw_agents n 0 = demo_daemon\<lparr>d_action := idle_action\<lparr>as_client := cl\<rparr>\<rparr>" "nw_agents n 1 = demo_daemon"
      "cl_started cl" "length (active cl) = 1" "streams cl = [[]]"
    using demo_net_up by blast
  have d0: "d_records (nw_agents n 0) = empty_records" "d_exclude (nw_agents n 0) = empty_excludes" "as_client (d_action (nw_agents n 0)) = cl"
    using n(2) by (simp_all add: demo_daemon_def)
  have d1: "d_records (nw_agents n 1) = empty_records" "d_exclude (nw_agents n 1) = empty_excludes" "d_action (nw_agents n 1) = idle_action"
    unfolding n(3) by (simp_all add: demo_daemon_def)
  have w: "session_ok (demo_session\<lparr>we_recv := evs\<rparr>)" for evs
    by (simp add: session_ok_def demo_session_def FD_SETSIZE_def tls_ready_def tls_ok_def)
  have ex: "\<not> is_excluded p {#} ?ip" for p by (simp add: is_excluded_def)
  have ls: "?ls = [''Failed from 10.1.2.3'' @ [CHR 0x0A]]" using demo_line_cstr(1) by simp
  have good: "\<forall>l \<in> set ?ls. \<forall>ip. capture (dx_pcre demo_ext_net) l = Some ip \<longrightarrow> good_addr ip"
    unfolding ls using demo_line_cstr(3) demo_capture by (simp only: demo_ext_net_simps) simp
  have times: "sighting_times (dx_pcre demo_ext_net) (\<lambda>_. calm_env) 0 ?ls ?ip = [1000]"
    unfolding ls using demo_capture by (simp only: demo_ext_net_simps sighting_times.simps) (simp add: calm_env_def)
  have k: "queued ?ip (stream_of (nw_agents n 0) 0) = 0" using n(6) d0(3) by (simp add: stream_of_def)
  have none: "runs AC_NEW ?ip (as_log (d_action (nw_agents n 1))) = 0" using d1(3) by (simp add: runs_def)
  note ok = detection_spreads [OF demo_network_start demo_name n(1) refl refl refl refl, of 0 ?ip 1 "{#}" "{#}" demo_session reader_start "[]" ?ls demo_log "\<lambda>_. calm_env" 0 1000 "[]"
      calm_action 0 demo_transport "replicate 144 0" calm_action False False, OF _ _ _ ex _ _ reader_start_has refl good _ times]
  have "returns (obind (obind (readtoeof (regex_nth (\<lambda>_. calm_env) demo_informing demo_pcre_info demo_pcre demo_pton (d_exclude (nw_agents n 0)))
             (map FChar demo_log) reader_start (0, True, d_records (nw_agents n 0))) (\<lambda>(stopped, rd', m', compiled, st).
           obind (action_thread_pass calm_action demo_informing (st, d_action (nw_agents n 0))) (\<lambda>(st1, s1).
           client_queue_worker False demo_informing demo_transport (replicate 144 0) tls_null (active (as_client s1) ! 0))))
         (\<lambda>(lg, q). obind (network_server_worker False (demo_session\<lparr>we_recv := map RecvBytes (pl_sent (the lg))\<rparr>) demo_informing
             (Some ''192.0.2.7'') (d_exclude (nw_agents n 1)) (d_records (nw_agents n 1)))
         (\<lambda>wr. action_thread_pass calm_action demo_informing (wr_records (the wr), d_action (nw_agents n 1)))))
       (\<lambda>(st', s'). runs AC_NEW ?ip (as_log s') = runs AC_NEW ?ip (as_log (d_action (nw_agents n 1))) + 1
      \<and> (\<exists>r. records_map st' ?ip = Some r \<and> hr_processed r = 1 \<and> cstr (hr_origin r) = ''192.0.2.7''))"
    using ok [unfolded demo_ext_net_simps] d0 d1 n(4,5) demo_transport_informing w ex k by simp
  then have "returns (obind (obind (readtoeof (regex_nth (\<lambda>_. calm_env) demo_informing demo_pcre_info demo_pcre demo_pton (d_exclude (nw_agents n 0)))
             (map FChar demo_log) reader_start (0, True, d_records (nw_agents n 0))) (\<lambda>(stopped, rd', m', compiled, st).
           obind (action_thread_pass calm_action demo_informing (st, d_action (nw_agents n 0))) (\<lambda>(st1, s1).
           client_queue_worker False demo_informing demo_transport (replicate 144 0) tls_null (active (as_client s1) ! 0))))
         (\<lambda>(lg, q). obind (network_server_worker False (demo_session\<lparr>we_recv := map RecvBytes (pl_sent (the lg))\<rparr>) demo_informing
             (Some ''192.0.2.7'') (d_exclude (nw_agents n 1)) (d_records (nw_agents n 1)))
         (\<lambda>wr. action_thread_pass calm_action demo_informing (wr_records (the wr), d_action (nw_agents n 1)))))
       (\<lambda>(st', s'). runs AC_NEW ?ip (as_log s') = 1)"
    unfolding none by (rule ospec_mono) auto
  with n(1) show ?thesis by blast
qed

end
