(* ===== verification/Tests.thy ===== *)
theory Tests
  imports Support
begin

section \<open>The test programs (tests/records1.c to records7.c, exclude1.c)\<close>

text \<open>
  The test programs that come with the sources, on the model: each calls the operations of the host table or of the
  exclusion list and ends with status 1 as soon as an answer is not the expected one. The lemmas show what the loops
  of the tests do to the table, including the slots they use, and that every test ends with status 0 when the calls to
  the system succeed. \<^verbatim>\<open>CONFIG\<close> has its initial value in all of them, and the answers of the system are an argument, as is
  \<^verbatim>\<open>inet_pton\<close>. The tests are built with \<^verbatim>\<open>CHECK\<close> defined, which leaves two parts out of \<^verbatim>\<open>records_add_ip\<close>, the counting within
  the interval and the copying of the configured limits; here the operation of the program is used. No test looks
  at those fields, so that its status is the same.
\<close>

subsection \<open>Loops of the tests\<close>

text \<open>\<^verbatim>\<open>snprintf(str, BUFFSIZE, ''192.168.%i.%i'', i, k)\<close>, and the two nested loops over it.\<close>

definition test_ip :: "nat \<Rightarrow> nat \<Rightarrow> string" where
  "test_ip i k = ''192.168.'' @ decimal i @ ''.'' @ decimal k"

definition test_ips :: "nat \<Rightarrow> nat \<Rightarrow> string list" where
  "test_ips n m = concat (map (\<lambda>i. map (test_ip i) [0..<m]) [0..<n])"

definition ITERATIONS :: nat where "ITERATIONS = 32"

primrec add_each :: "(string \<Rightarrow> sysenv) \<Rightarrow> string list \<Rightarrow> records_st \<Rightarrow> records_st outcome" where
  "add_each es [] st = Ret st"
| "add_each es (ip # ips) st = obind (records_add_ip (es ip) zero_config ip st) (\<lambda>(retval, st').
     if retval \<noteq> 0 then Exit 1 else add_each es ips st')"

primrec remove_each :: "(string \<Rightarrow> sysenv) \<Rightarrow> string list \<Rightarrow> records_st \<Rightarrow> records_st outcome" where
  "remove_each es [] st = Ret st"
| "remove_each es (ip # ips) st = obind (records_remove (es ip) ip st) (\<lambda>(retval, st').
     if retval \<noteq> 0 then Exit 1 else remove_each es ips st')"

text \<open>\<^verbatim>\<open>records_get\<close> for each address: there must be a record, or there must be none.\<close>

primrec get_each :: "(string \<Rightarrow> sysenv) \<Rightarrow> bool \<Rightarrow> string list \<Rightarrow> records_st \<Rightarrow> unit outcome" where
  "get_each es present [] st = Ret ()"
| "get_each es present (ip # ips) st = obind (records_get (es ip) ip st) (\<lambda>ptr.
     if (ptr \<noteq> None) \<noteq> present then Exit 1 else get_each es present ips st)"

definition test_end :: "sysenv \<Rightarrow> records_st \<Rightarrow> unit outcome" where
  "test_end e st = obind (records_destroy e None (st, ())) (\<lambda>_. Exit 0)"

subsection \<open>The test programs of the host table\<close>

definition records1 :: "sysenv \<Rightarrow> (string \<Rightarrow> sysenv) \<Rightarrow> unit outcome" where
  "records1 e es =
     obind (records_init e records_start) (\<lambda>st.
     obind (add_each es (test_ips ITERATIONS ITERATIONS) st) (test_end e))"

definition records2 :: "sysenv \<Rightarrow> (string \<Rightarrow> sysenv) \<Rightarrow> unit outcome" where
  "records2 e es =
     obind (records_init e records_start) (\<lambda>st.
     obind (add_each es (test_ips ITERATIONS ITERATIONS) st) (\<lambda>st.
     obind (get_each es True (test_ips ITERATIONS ITERATIONS) st) (\<lambda>_. test_end e st)))"

text \<open>\<^verbatim>\<open>records3.c\<close>: fill one chunk and empty it, five times; the vector must not grow.\<close>

primrec fill_and_empty :: "(string \<Rightarrow> sysenv) \<Rightarrow> nat list \<Rightarrow> records_st \<Rightarrow> records_st outcome" where
  "fill_and_empty es [] st = Ret st"
| "fill_and_empty es (i # is) st =
     obind (add_each es (map (test_ip i) [0..<records_dbg_get_vector_chunksize st]) st) (\<lambda>st.
     obind (remove_each es (map (test_ip i) [0..<records_dbg_get_vector_chunksize st]) st) (fill_and_empty es is))"

definition records3 :: "sysenv \<Rightarrow> (string \<Rightarrow> sysenv) \<Rightarrow> unit outcome" where
  "records3 e es =
     obind (records_init e records_start) (\<lambda>st.
     obind (fill_and_empty es [0..<5] st) (\<lambda>st.
     obind (get_each es False (test_ips 5 (records_dbg_get_vector_chunksize st)) st) (\<lambda>_.
       if records_dbg_get_vector_size st \<noteq> records_dbg_get_vector_chunksize st then Exit 1 else test_end e st)))"

definition records4 :: "sysenv \<Rightarrow> (string \<Rightarrow> sysenv) \<Rightarrow> unit outcome" where
  "records4 e es =
     obind (records_init e records_start) (\<lambda>st.
     obind (add_each es (test_ips ITERATIONS ITERATIONS) st) (\<lambda>st.
     obind (remove_each es (test_ips ITERATIONS ITERATIONS) st) (\<lambda>st.
     obind (add_each es (map (test_ip 0) [0..<ITERATIONS]) st) (\<lambda>st.
     obind (records_maintenance e None (st, ())) (\<lambda>(retval, st, u).
       if retval \<noteq> 0 then Exit 1
       else if records_dbg_get_vector_size st \<noteq> records_dbg_get_vector_chunksize st then Exit 1
       else test_end e st)))))"

text \<open>The callbacks of \<^verbatim>\<open>records5.c\<close>: count, and mark for removal.\<close>

definition callback1 :: "nat records_enum_callback" where
  "callback1 ptr num_entries = Ret (RETVAL_OK, ptr, num_entries + 1)"

definition callback2 :: "nat records_enum_callback" where
  "callback2 ptr num_entries = Ret (RETVAL_OK, ptr\<lparr>hr_remove := 1\<rparr>, num_entries)"

definition records5 :: "sysenv \<Rightarrow> (string \<Rightarrow> sysenv) \<Rightarrow> unit outcome" where
  "records5 e es =
     obind (records_init e records_start) (\<lambda>st.
     obind (add_each es (test_ips ITERATIONS ITERATIONS) st) (\<lambda>st.
     obind (records_enumerate e callback1 SYNC (st, 0)) (\<lambda>(retval, th, st, num_entries).
       if retval \<noteq> 0 then Exit 1
       else if num_entries \<noteq> ITERATIONS * ITERATIONS then Exit 1
       else
         obind (add_each es (test_ips ITERATIONS ITERATIONS) st) (\<lambda>st.
         obind (records_enumerate e callback2 SYNC (st, num_entries)) (\<lambda>(retval, th, st, num_entries).
           if retval \<noteq> 0 then Exit 1
           else
             obind (records_maintenance e None (st, ())) (\<lambda>(retval, st, u).
               if retval \<noteq> 0 then Exit 1
               else
                 obind (get_each es False (test_ips ITERATIONS ITERATIONS) st) (\<lambda>_.
                   if records_dbg_get_vector_size st \<noteq> records_dbg_get_vector_chunksize st then Exit 1
                   else if records_dbg_get_vector_fill st \<noteq> 0 then Exit 1
                   else test_end e st)))))))"

text \<open>
  \<^verbatim>\<open>records6.c\<close>: three threads add, remove and enumerate until they are cancelled, which can only be between two rounds.
  Each call is a critical section, so that what they do together is a sequence of calls. \<open>pthread_rv\<close> is the answer of
  the calls that create, cancel and join the threads.
\<close>

datatype test_call = Call_add string | Call_remove string | Call_enumerate

primrec test_calls :: "(nat \<Rightarrow> sysenv) \<Rightarrow> test_call list \<Rightarrow> records_st \<times> nat \<Rightarrow> (records_st \<times> nat) outcome" where
  "test_calls es [] sts = Ret sts"
| "test_calls es (c # cs) sts = (case sts of (st, num_entries) \<Rightarrow> (case c of
     Call_add ip \<Rightarrow> obind (records_add_ip (es (length cs)) zero_config ip st) (\<lambda>(retval, st').
       if retval \<noteq> 0 then Exit 1 else test_calls es cs (st', num_entries))
   | Call_remove ip \<Rightarrow> obind (records_remove (es (length cs)) ip st) (\<lambda>(retval, st'). test_calls es cs (st', num_entries))
   | Call_enumerate \<Rightarrow> obind (records_enumerate (es (length cs)) callback1 SYNC (st, num_entries)) (\<lambda>(retval, th, st', num_entries').
       if retval \<noteq> 0 then Exit 1 else test_calls es cs (st', num_entries'))))"

definition records6 :: "sysenv \<Rightarrow> (nat \<Rightarrow> sysenv) \<Rightarrow> test_call list \<Rightarrow> unit outcome" where
  "records6 e es cs =
     obind (records_init e records_start) (\<lambda>st.
       if pthread_rv e \<noteq> 0 then Exit 1
       else obind (test_calls es cs (st, 0)) (\<lambda>(st, num_entries). test_end e st))"

text \<open>
  \<^verbatim>\<open>records7.c\<close>. A wrong fill is only reported there; the outcome has the reports, whether the fill differed before and
  after the maintenance, in place of the status 0.
\<close>

definition records7 :: "sysenv \<Rightarrow> (string \<Rightarrow> sysenv) \<Rightarrow> (bool \<times> bool) outcome" where
  "records7 e es =
     obind (records_init e records_start) (\<lambda>st.
     obind (add_each es [''192.168.100.1'', ''192.168.100.2'', ''192.168.100.3''] st) (\<lambda>st.
     obind (remove_each es [''192.168.100.1''] st) (\<lambda>st.
     obind (add_each es [''192.168.100.2''] st) (\<lambda>st.
       let before = (records_dbg_get_vector_fill st \<noteq> 3) in
       obind (records_maintenance e None (st, ())) (\<lambda>(retval, st, u).
         if retval \<noteq> 0 then Exit 1
         else
           let after = (records_dbg_get_vector_fill st \<noteq> 3) in
           obind (records_destroy e None (st, ())) (\<lambda>_. Ret (before, after)))))))"

subsection \<open>The test program of the exclusion list\<close>

definition test_net :: "nat \<Rightarrow> nat \<Rightarrow> string" where
  "test_net a b = decimal a @ ''.'' @ decimal b @ ''.0.0''"

definition test_host :: "nat \<Rightarrow> nat \<Rightarrow> string" where
  "test_host a b = decimal a @ ''.'' @ decimal b @ ''.1.1''"

definition test_pairs :: "(nat \<Rightarrow> nat \<Rightarrow> 'a) \<Rightarrow> 'a list" where
  "test_pairs f = concat (map (\<lambda>a. map (f a) [1..<10]) [1..<10])"

primrec exclude_each :: "(string \<Rightarrow> sysenv) \<Rightarrow> inet_pton \<Rightarrow> string list \<Rightarrow> exclude_st \<Rightarrow> exclude_st outcome" where
  "exclude_each es pton [] ex = Ret ex"
| "exclude_each es pton (s # ss) ex = obind (exclude_add (es s) pton s ex) (\<lambda>(retval, ex').
     if retval \<noteq> 0 then Exit 1 else exclude_each es pton ss ex')"

text \<open>\<^verbatim>\<open>exclude_isexcluded\<close> for each address, with what the test wants: 0 means excluded.\<close>

primrec check_each :: "(string \<Rightarrow> sysenv) \<Rightarrow> inet_pton \<Rightarrow> (string \<times> bool) list \<Rightarrow> exclude_st \<Rightarrow> unit outcome" where
  "check_each es pton [] ex = Ret ()"
| "check_each es pton (c # cs) ex = obind (exclude_isexcluded (es (fst c)) pton (fst c) ex) (\<lambda>retval.
     if (retval = 0) \<noteq> snd c then Exit 1 else check_each es pton cs ex)"

definition test_checks :: "(string \<times> bool) list" where
  "test_checks =
     [(''192.1.1.0'', True), (''192.1.1.1'', True), (''192.1.1.128'', True), (''192.1.1.255'', True), (''192.1.2.1'', False),
      (''10.1.0.0'', True), (''10.1.15.255'', True), (''192.168.240.21'', True),
      (''2001:1:2:8::'', True), (''2001:1:2:8::0'', True), (''2001:1:2:f:ffff:ffff:ffff:ffff'', True), (''2001:1:2:f:ffff:ffff:ffff:1'', True),
      (''192.168.240.22'', False), (''192.168.240.20'', False), (''10.1.16.1'', False), (''10.0.0.1'', False), (''2001:1:2:7::1'', False)]"

definition exclude1 :: "sysenv \<Rightarrow> (string \<Rightarrow> sysenv) \<Rightarrow> inet_pton \<Rightarrow> unit outcome" where
  "exclude1 e es pton =
     obind (exclude_init e exclude_start) (\<lambda>ex.
     obind (exclude_each es pton (test_pairs (\<lambda>a b. test_net a b @ ''/24'')) ex) (\<lambda>ex.
     obind (exclude_clear e ex) (\<lambda>(retval, ex).
       if retval \<noteq> 0 then Exit 1
       else
         obind (check_each es pton (test_pairs (\<lambda>a b. (test_host a b, False))) ex) (\<lambda>_.
         obind (exclude_each es pton [''192.168.240.21'', ''192.1.1.0/24'', ''10.1.0.0/20'', ''2001:1:2:e::/61''] ex) (\<lambda>ex.
         obind (check_each es pton test_checks ex) (\<lambda>_.
         obind (exclude_destroy ex) (\<lambda>_. Exit 0)))))))"

subsection \<open>The addresses\<close>

lemma decimal_eq_iff [simp]: "decimal i = decimal j \<longleftrightarrow> i = j"
  using digits_value_decimal by (metis of_nat_eq_iff)

lemma decimal_no_dot: "CHR ''.'' \<notin> set (decimal n)" and decimal_cstring: "is_cstring (decimal n)"
  using decimal_digits [of n] by (auto simp: list_all_iff isdigit_def is_cstring_def)

lemma test_ip_eq_iff [simp]: "test_ip i k = test_ip j l \<longleftrightarrow> i = j \<and> k = l"
proof
  assume "test_ip i k = test_ip j l"
  then have eq: "decimal i @ ''.'' @ decimal k = decimal j @ ''.'' @ decimal l" by (simp add: test_ip_def)
  have tw: "takeWhile (\<lambda>c. c \<noteq> CHR ''.'') (decimal n @ ''.'' @ xs) = decimal n" for n xs
    using decimal_no_dot [of n] by (subst takeWhile_append2) auto
  from arg_cong [OF eq, of "takeWhile (\<lambda>c. c \<noteq> CHR ''.'')"] have "i = j" unfolding tw by simp
  with eq show "i = j \<and> k = l" by simp
qed simp

lemma decimal_length: "n < 1000 \<Longrightarrow> length (decimal n) \<le> 3"
  by (subst decimal.simps, subst decimal.simps, subst decimal.simps) auto

lemma test_ip_valid: "i < 1000 \<Longrightarrow> k < 1000 \<Longrightarrow> valid_ip (test_ip i k)"
  using decimal_length [of i] decimal_length [of k] decimal_cstring [of i] decimal_cstring [of k]
  by (auto simp: valid_ip_def test_ip_def IPADDR_SIZE_def is_cstring_def)

lemma test_ips_set: "set (test_ips n m) = {test_ip i k | i k. i < n \<and> k < m}"
  by (auto simp: test_ips_def)

lemma test_ips_distinct: "distinct (test_ips n m)"
proof (induction n)
  case (Suc n)
  have "test_ips (Suc n) m = test_ips n m @ map (test_ip n) [0..<m]" by (simp add: test_ips_def)
  with Suc show ?case by (auto simp: test_ips_set distinct_map inj_on_def)
qed (simp add: test_ips_def)

lemma test_ips_length: "length (test_ips n m) = n * m"
  by (induction n) (simp_all add: test_ips_def)

lemma test_row: "distinct (map (test_ip i) [0..<m])" "\<And>ip. ip \<in> set (map (test_ip i) [0..<m]) \<longleftrightarrow> (\<exists>k < m. ip = test_ip i k)"
  by (auto simp: distinct_map inj_on_def)

subsection \<open>What the loops do\<close>

text \<open>A success of the operations, with the system answering as it should.\<close>

lemma add_ok:
  assumes "records_inv st" and "valid_ip ip" and "sys_ok e"
  shows "\<exists>st'. records_add_ip e c ip st = Ret (0, st') \<and> records_inv st' \<and> records_map st' = host_seen c (now e) ip (records_map st)"
  using records_add_ip_spec [OF assms(1,2), of e c] assms(3)
  by (cases "records_add_ip e c ip st") (auto simp: sys_ok_def)

lemma dom_seen: "dom (host_seen c t ip m) = insert ip (dom m)"
  by (auto simp: host_seen_def)

lemma add_each_dom:
  assumes "records_inv st" and "\<forall>ip \<in> set ips. valid_ip ip" and "\<forall>ip. sys_ok (es ip)"
  shows "\<exists>st'. add_each es ips st = Ret st' \<and> records_inv st' \<and> dom (records_map st') = dom (records_map st) \<union> set ips"
  using assms(1,2)
proof (induction ips arbitrary: st)
  case (Cons ip ips)
  obtain st1 where s1: "records_add_ip (es ip) zero_config ip st = Ret (0, st1)" "records_inv st1"
      "dom (records_map st1) = insert ip (dom (records_map st))"
    using add_ok [OF Cons.prems(1) _ assms(3) [THEN spec], of ip ip zero_config] Cons.prems(2) by (auto simp: dom_seen)
  with Cons.IH [OF s1(2)] Cons.prems(2) show ?case by auto
qed simp

lemma remove_ok:
  assumes "records_inv st" and "is_cstring ip" and "sys_ok e" and "ip \<in> dom (records_map st)"
  shows "\<exists>st'. records_remove e ip st = Ret (0, st') \<and> records_inv st' \<and> records_map st' = (records_map st)(ip := None)
    \<and> hr_vector_size st' = hr_vector_size st \<and> hr_vector_fill st' = hr_vector_fill st"
proof -
  have "records_remove e ip st = Ret (rv, st') \<Longrightarrow> hr_vector_size st' = hr_vector_size st \<and> hr_vector_fill st' = hr_vector_fill st" for rv st'
    by (auto simp: records_remove_def with_mutex_def c_assert_def obind_eq_Ret split: if_splits option.splits)
  with records_remove_spec [OF assms(1,2), of e] assms(3,4) show ?thesis by (auto simp: returns_iff)
qed

lemma remove_each_dom:
  assumes "records_inv st" and "\<forall>ip \<in> set ips. is_cstring ip" and "\<forall>ip. sys_ok (es ip)" and "set ips \<subseteq> dom (records_map st)" and "distinct ips"
  shows "\<exists>st'. remove_each es ips st = Ret st' \<and> records_inv st' \<and> dom (records_map st') = dom (records_map st) - set ips
    \<and> hr_vector_size st' = hr_vector_size st \<and> hr_vector_fill st' = hr_vector_fill st"
  using assms(1,2,4,5)
proof (induction ips arbitrary: st)
  case (Cons ip ips)
  obtain st1 where s1: "records_remove (es ip) ip st = Ret (0, st1)" "records_inv st1" "records_map st1 = (records_map st)(ip := None)"
      "hr_vector_size st1 = hr_vector_size st" "hr_vector_fill st1 = hr_vector_fill st"
    using remove_ok [OF Cons.prems(1) _ assms(3) [THEN spec], of ip ip] Cons.prems(2,3) by auto
  have "set ips \<subseteq> dom (records_map st1)" using Cons.prems(3,4) s1(3) by auto
  from Cons.IH [OF s1(2) _ this] Cons.prems(2,4) s1 show ?case by (auto simp: dom_def)
qed simp

lemma get_each_ok:
  assumes "records_inv st" and "\<forall>ip. sys_ok (es ip)" and "\<forall>ip \<in> set ips. is_cstring ip \<and> (ip \<in> dom (records_map st)) = present"
  shows "get_each es present ips st = Ret ()"
  using assms(3) by (induction ips) (auto simp: records_get_spec [OF assms(1) _ assms(2) [THEN spec]] dom_def)

lemma no_callback: "rm_ok (\<lambda>_. True) None (\<lambda>r s. s)"
  by (simp add: rm_ok_def)

lemma test_end_ok: "records_inv st \<Longrightarrow> test_end e st = Exit 0"
  unfolding test_end_def by (simp only: records_destroy_spec [OF _ no_callback TrueI] obind.simps)

lemma init_ok:
  assumes "sys_ok e"
  shows "\<exists>st. records_init e records_start = Ret st \<and> records_inv st \<and> records_map st = (\<lambda>_. None) \<and> hr_vector_size st = hr_vector_chunksize \<and> hr_vector_fill st = 0"
proof -
  have "records_init e records_start = Ret st \<Longrightarrow> hr_vector_size st = hr_vector_chunksize \<and> hr_vector_fill st = 0" for st
    by (auto simp: records_init_def records_start_def hr_vector_chunksize_def c_assert_def split: if_splits)
  with records_init_spec [of records_start e] assms show ?thesis
    by (auto simp: returns_iff records_start_def hr_vector_chunksize_def)
qed

subsection \<open>The slots that are used\<close>

text \<open>The first \<open>n\<close> slots are used and no other: what adding to an empty vector makes of it.\<close>

definition packed :: "nat \<Rightarrow> records_st \<Rightarrow> bool" where
  "packed n st \<longleftrightarrow> (\<forall>j < hr_vector_size st. hr_vector st ! j \<noteq> None \<longleftrightarrow> j < n)"

lemma packed_above: "packed n st \<Longrightarrow> n \<le> j \<Longrightarrow> j < hr_vector_size st \<Longrightarrow> hr_vector st ! j = None"
  by (auto simp: packed_def)

lemma empty_packed:
  assumes "records_inv st" and "dom (records_map st) = {}"
  shows "packed 0 st"
proof -
  have "hr_vector st ! j = None" if "j < hr_vector_size st" for j
  proof (rule ccontr)
    assume "hr_vector st ! j \<noteq> None"
    then obtain r where "hr_vector st ! j = Some r" by auto
    with that records_invD(2) [OF assms(1)] have "Some r \<in> set (hr_vector st)" by (metis nth_mem)
    then have "records_map st (ip_of r) = Some r" using assms(1) by (simp add: records_map_Some)
    with assms(2) show False by auto
  qed
  then show ?thesis by (simp add: packed_def)
qed

lemma find_free_packed:
  assumes "records_inv st" and "packed n st" and "n < hr_vector_size st"
  shows "records_find_free st = Ret (n, RETVAL_OK)"
proof -
  let ?v = "hr_vector st" and ?f = "\<lambda>j. if hr_vector st ! j = None then Some j else None"
  have len: "length ?v = hr_vector_size st" by (rule records_invD(2) [OF assms(1)])
  have hit: "first_hit ?f 0 (hr_vector_size st) = Some n"
  proof (cases "first_hit ?f 0 (hr_vector_size st)")
    case None
    then have "hr_vector st ! n \<noteq> None" using assms(3) by (auto simp: first_hit_None dest: spec [of _ n] split: if_splits)
    then show ?thesis using assms(2,3) by (simp add: packed_def)
  next
    case (Some i)
    then obtain j where "j < hr_vector_size st" "?f j = Some i" "\<forall>k < j. ?f k = None" by (auto dest: first_hit_Some)
    then have i: "i < hr_vector_size st" "?v ! i = None" "\<forall>k < i. ?v ! k \<noteq> None" by (auto split: if_splits)
    then have "\<not> i < n" using assms(2) by (auto simp: packed_def)
    moreover have "\<not> n < i" using i(3) assms(2,3) by (auto simp: packed_def)
    ultimately show ?thesis using Some by simp
  qed
  have "c_for 0 (hr_vector_size st) (\<lambda>i u. obind (read_at ?v i) (\<lambda>p. Ret (if p = None then Inl i else Inr u))) ()
      = Ret (case first_hit ?f 0 (hr_vector_size st) of None \<Rightarrow> Inr () | Some i \<Rightarrow> Inl i)"
    by (rule c_for_search) (use len in \<open>auto simp: read_at_def\<close>)
  with hit show ?thesis by (simp add: records_find_free_def)
qed

lemma add_packed:
  assumes inv: "records_inv st" and p: "packed n st" and n: "n < hr_vector_size st" and ip: "valid_ip ip" and e: "sys_ok e"
    and new: "ip \<notin> dom (records_map st)"
  shows "records_add_ip e c ip st = Ret (0, st\<lparr>hr_vector := (hr_vector st)[n := Some (fresh_record c (now e) ip)],
    hr_vector_fill := max (Suc n) (hr_vector_fill st)\<rparr>)"
proof -
  have cs: "cstr (bytes_of ip) = ip" using ip by (simp add: valid_ip_def)
  have "records_find st (bytes_of ip) = Ret None"
    using records_find_spec [OF inv terminated_bytes_of [of ip]] new unfolding returns_iff cs by (auto split: option.splits)
  then show ?thesis
    using e n records_invD(1,2) [OF inv] find_free_packed [OF inv p n]
    by (auto simp: records_add_ip_def records_store_def alloc_slot_def with_mutex_def c_assert_def sys_ok_def write_at_def max_def)
qed

lemma add_each_packed:
  assumes "records_inv st" and "packed n st" and "n + length ips \<le> hr_vector_size st" and "\<forall>ip \<in> set ips. valid_ip ip"
    and "distinct ips" and "set ips \<inter> dom (records_map st) = {}" and "\<forall>ip. sys_ok (es ip)"
  shows "\<exists>st'. add_each es ips st = Ret st' \<and> records_inv st' \<and> packed (n + length ips) st' \<and> hr_vector_size st' = hr_vector_size st
    \<and> hr_vector_fill st' = max (if ips = [] then 0 else n + length ips) (hr_vector_fill st) \<and> dom (records_map st') = dom (records_map st) \<union> set ips
    \<and> (\<forall>i < length ips. hr_vector st' ! (n + i) = Some (fresh_record zero_config (now (es (ips ! i))) (ips ! i)))
    \<and> (\<forall>i < n. hr_vector st' ! i = hr_vector st ! i)"
  using assms(1-6)
proof (induction ips arbitrary: st n)
  case (Cons ip ips)
  let ?st = "st\<lparr>hr_vector := (hr_vector st)[n := Some (fresh_record zero_config (now (es ip)) ip)], hr_vector_fill := max (Suc n) (hr_vector_fill st)\<rparr>"
  have ip: "valid_ip ip" "n < hr_vector_size st" "ip \<notin> dom (records_map st)" using Cons.prems by auto
  have a: "records_add_ip (es ip) zero_config ip st = Ret (0, ?st)"
    by (rule add_packed [OF Cons.prems(1,2) ip(2,1) assms(7) [THEN spec] ip(3)])
  then have s: "records_inv ?st" "dom (records_map ?st) = insert ip (dom (records_map st))"
    using add_ok [OF Cons.prems(1) ip(1) assms(7) [THEN spec], of ip zero_config] by (auto simp: dom_seen)
  have len: "length (hr_vector st) = hr_vector_size st" by (rule records_invD(2) [OF Cons.prems(1)])
  have "packed (Suc n) ?st" using Cons.prems(2) ip(2) len by (auto simp: packed_def nth_list_update less_Suc_eq)
  from Cons.IH [OF s(1) this] Cons.prems(3-6) s(2)
  obtain st' where st': "add_each es ips ?st = Ret st'" "records_inv st'" "packed (Suc n + length ips) st'"
      "hr_vector_size st' = hr_vector_size st" "hr_vector_fill st' = max (if ips = [] then 0 else Suc n + length ips) (max (Suc n) (hr_vector_fill st))"
      "dom (records_map st') = insert ip (dom (records_map st)) \<union> set ips"
      "\<forall>i < length ips. hr_vector st' ! (Suc n + i) = Some (fresh_record zero_config (now (es (ips ! i))) (ips ! i))"
      "\<forall>i < Suc n. hr_vector st' ! i = hr_vector ?st ! i"
    by auto
  have "hr_vector st' ! (n + i) = Some (fresh_record zero_config (now (es ((ip # ips) ! i))) ((ip # ips) ! i))" if "i < length (ip # ips)" for i
    using that st'(7,8) len ip(2) by (cases i) auto
  with a st' show ?case by (auto simp: max_def)
qed auto

text \<open>A maintenance of a vector whose used slots are within the first chunk, with a free slot at the end.\<close>

lemma maintenance_ok:
  assumes inv: "records_inv st" and e: "sys_ok e" and n: "n < hr_vector_size st" "\<And>j. n \<le> j \<Longrightarrow> j < hr_vector_size st \<Longrightarrow> hr_vector st ! j = None"
  shows "\<exists>st'. records_maintenance e None (st, ()) = Ret (0, st', ()) \<and> maintained st st' \<and> hr_vector_fill st' \<le> n
    \<and> (keep_record (hr_vector st ! (n - 1)) \<noteq> None \<longrightarrow> hr_vector_fill st' = n)"
proof -
  let ?v = "map keep_record (hr_vector st)"
  have len: "length (hr_vector st) = hr_vector_size st" by (rule records_invD(2) [OF inv])
  have free: "?v ! j = None" if "n \<le> j" "j < hr_vector_size st" for j using that n(2) len by (simp add: keep_record_def)
  obtain st' where st': "records_maintenance e None (st, ()) = Ret (0, st', ())" "maintained st st'"
    using records_maintenance_spec [OF inv no_callback TrueI, of e "()"] e
    by (cases "records_maintenance e None (st, ())") (auto simp: sys_ok_def)
  have pu: "records_purge None (st, ()) = Ret (?v, ())"
    using records_purge_spec [OF inv no_callback TrueI, of "()"] by simp
  obtain k where lu: "records_last_used ?v (hr_vector_size st) = Ret k" "k \<le> hr_vector_size st"
      "\<forall>j. k \<le> j \<longrightarrow> j < hr_vector_size st \<longrightarrow> ?v ! j = None" "0 < k \<longrightarrow> ?v ! (k - 1) \<noteq> None"
    using records_last_used_spec [of "hr_vector_size st" ?v] len unfolding returns_iff by (metis le_refl length_map)
  have kn: "k \<le> n" using lu(2,4) free [of "k - 1"] by (cases "k \<le> n") auto
  have nk: "k = n" if "keep_record (hr_vector st ! (n - 1)) \<noteq> None"
    using that lu(3) [rule_format, of "n - 1"] kn n len by (cases "n = 0"; cases "k = n") auto
  have "hr_vector_fill st' = k"
    using st'(1) e pu lu(1) kn n(1)
    by (auto simp: records_maintenance_def records_shrink_def with_mutex_def c_assert_def sys_ok_def Let_def split: if_splits)
  with kn nk st' show ?thesis by blast
qed

subsection \<open>The tests of the host table pass\<close>

lemma grid_valid: "\<forall>ip \<in> set (test_ips ITERATIONS ITERATIONS). valid_ip ip \<and> is_cstring ip"
  using test_ip_valid by (auto simp: test_ips_set ITERATIONS_def valid_ip_def)

lemma filled:
  assumes "sys_ok e" and "\<forall>ip. sys_ok (es ip)"
  obtains st st' where "records_init e records_start = Ret st" "add_each es (test_ips ITERATIONS ITERATIONS) st = Ret st'"
    "records_inv st'" "dom (records_map st') = set (test_ips ITERATIONS ITERATIONS)"
proof -
  obtain st where st: "records_init e records_start = Ret st" "records_inv st" "records_map st = (\<lambda>_. None)"
    using init_ok [OF assms(1)] by blast
  with add_each_dom [OF st(2) _ assms(2), of "test_ips ITERATIONS ITERATIONS"] grid_valid that show ?thesis by auto
qed

lemma records1_ok:
  assumes "sys_ok e" and "\<forall>ip. sys_ok (es ip)"
  shows "records1 e es = Exit 0"
  by (rule filled [OF assms]) (simp_all add: records1_def test_end_ok)

lemma records2_ok:
  assumes "sys_ok e" and "\<forall>ip. sys_ok (es ip)"
  shows "records2 e es = Exit 0"
proof (rule filled [OF assms])
  fix st st' assume a: "records_init e records_start = Ret st" "add_each es (test_ips ITERATIONS ITERATIONS) st = Ret st'"
    "records_inv st'" "dom (records_map st') = set (test_ips ITERATIONS ITERATIONS)"
  have "get_each es True (test_ips ITERATIONS ITERATIONS) st' = Ret ()"
    using grid_valid a(4) by (intro get_each_ok [OF a(3) assms(2)]) auto
  with a show ?thesis by (simp add: records2_def test_end_ok)
qed

lemma fill_and_empty_ok:
  assumes "records_inv st" and "dom (records_map st) = {}" and "\<forall>ip. sys_ok (es ip)" and "\<forall>i \<in> set is. i < 1000"
    and "hr_vector_size st = hr_vector_chunksize"
  shows "\<exists>st'. fill_and_empty es is st = Ret st' \<and> records_inv st' \<and> dom (records_map st') = {} \<and> hr_vector_size st' = hr_vector_chunksize"
  using assms(1,2,4,5)
proof (induction "is" arbitrary: st)
  case (Cons i "is")
  let ?row = "map (test_ip i) [0..<hr_vector_chunksize]"
  have v: "\<forall>ip \<in> set ?row. valid_ip ip" "\<forall>ip \<in> set ?row. is_cstring ip"
    using Cons.prems(3) test_ip_valid by (auto simp: hr_vector_chunksize_def valid_ip_def)
  obtain st1 where s1: "add_each es ?row st = Ret st1" "records_inv st1" "hr_vector_size st1 = hr_vector_size st" "dom (records_map st1) = set ?row"
    using add_each_packed [OF Cons.prems(1) empty_packed [OF Cons.prems(1,2)] _ v(1) test_row(1) _ assms(3)] Cons.prems(2,4) by auto
  obtain st2 where s2: "remove_each es ?row st1 = Ret st2" "records_inv st2" "dom (records_map st2) = {}" "hr_vector_size st2 = hr_vector_size st1"
    using remove_each_dom [OF s1(2) v(2) assms(3) _ test_row(1)] s1(4) by auto
  from Cons.IH [OF s2(2,3)] Cons.prems(3,4) s1 s2 show ?case by (simp add: records_dbg_get_vector_chunksize_def)
qed simp

lemma records3_ok:
  assumes "sys_ok e" and "\<forall>ip. sys_ok (es ip)"
  shows "records3 e es = Exit 0"
proof -
  obtain st where st: "records_init e records_start = Ret st" "records_inv st" "dom (records_map st) = {}" "hr_vector_size st = hr_vector_chunksize"
    using init_ok [OF assms(1)] by auto
  obtain st' where st': "fill_and_empty es [0..<5] st = Ret st'" "records_inv st'" "dom (records_map st') = {}" "hr_vector_size st' = hr_vector_chunksize"
    using fill_and_empty_ok [OF st(2,3) assms(2) _ st(4), of "[0..<5]"] by auto
  have "get_each es False (test_ips 5 hr_vector_chunksize) st' = Ret ()"
    using test_ip_valid st'(3) by (intro get_each_ok [OF st'(2) assms(2)]) (auto simp: test_ips_set hr_vector_chunksize_def valid_ip_def)
  with st(1) st' show ?thesis
    by (simp add: records3_def test_end_ok records_dbg_get_vector_chunksize_def records_dbg_get_vector_size_def)
qed

lemma small_chunk: "maintained st st' \<Longrightarrow> hr_vector_fill st' \<le> hr_vector_chunksize \<Longrightarrow> hr_vector_size st' = hr_vector_chunksize"
  using chunks_ceil_bounds(3) [of hr_vector_chunksize hr_vector_chunksize "hr_vector_fill st'"]
  by (simp add: maintained_def max_def hr_vector_chunksize_def)

lemma records4_ok:
  assumes "sys_ok e" and "\<forall>ip. sys_ok (es ip)"
  shows "records4 e es = Exit 0"
proof (rule filled [OF assms])
  let ?all = "test_ips ITERATIONS ITERATIONS" and ?row = "map (test_ip 0) [0..<ITERATIONS]"
  fix st st1 assume a: "records_init e records_start = Ret st" "add_each es ?all st = Ret st1" "records_inv st1" "dom (records_map st1) = set ?all"
  obtain st2 where s2: "remove_each es ?all st1 = Ret st2" "records_inv st2" "dom (records_map st2) = {}"
    using remove_each_dom [OF a(3) _ assms(2) _ test_ips_distinct, of ITERATIONS ITERATIONS] grid_valid a(4) by auto
  have sz: "hr_vector_chunksize \<le> hr_vector_size st2" using records_invD(4) [OF s2(2)] by (simp add: vec_ok_def)
  have v: "\<forall>ip \<in> set ?row. valid_ip ip" using test_ip_valid by (auto simp: ITERATIONS_def)
  obtain st3 where s3: "add_each es ?row st2 = Ret st3" "records_inv st3" "packed ITERATIONS st3" "hr_vector_size st3 = hr_vector_size st2"
    using add_each_packed [OF s2(2) empty_packed [OF s2(2,3)] _ v test_row(1) _ assms(2)] s2(3) sz
    by (auto simp: ITERATIONS_def hr_vector_chunksize_def)
  have it: "ITERATIONS < hr_vector_size st3" "ITERATIONS \<le> hr_vector_chunksize" using sz s3(4) by (simp_all add: ITERATIONS_def hr_vector_chunksize_def)
  obtain st4 where s4: "records_maintenance e None (st3, ()) = Ret (0, st4, ())" "maintained st3 st4" "hr_vector_fill st4 \<le> ITERATIONS"
    using maintenance_ok [OF s3(2) assms(1) it(1) packed_above [OF s3(3)]] by auto
  have "records_inv st4" "hr_vector_size st4 = hr_vector_chunksize"
    using s4 it(2) small_chunk [OF s4(2)] by (auto simp: maintained_def)
  with a s2 s3 s4 show ?thesis
    by (simp add: records4_def test_end_ok records_dbg_get_vector_chunksize_def records_dbg_get_vector_size_def)
qed

text \<open>An enumeration meets as many records as there are addresses.\<close>

lemma length_somes:
  assumes "records_inv st"
  shows "length (somes (hr_vector st)) = card (dom (records_map st))"
proof -
  have "dom (records_map st) = set (map ip_of (somes (hr_vector st)))"
    using assms by (auto simp: records_map_Some set_somes dom_def)
  then show ?thesis using distinct_card [of "map ip_of (somes (hr_vector st))"] records_invD(6) [OF assms] by (simp add: keys_unique_def)
qed

lemma enumerate_ok:
  assumes inv: "records_inv st" and e: "sys_ok e" and cb: "cb_ok (\<lambda>_. True) (\<lambda>_. True) cb f g"
  shows "\<exists>st'. records_enumerate e cb SYNC (st, s) = Ret (0, False, st', fold g (somes (hr_vector st)) s)
    \<and> records_inv st' \<and> records_map st' = (\<lambda>ip. map_option f (records_map st ip))"
proof -
  obtain st' where "records_enumerate_sync e cb (st, s) = Ret (RETVAL_OK, st', fold g (somes (hr_vector st)) s)"
      "records_inv st'" "records_map st' = (\<lambda>ip. map_option f (records_map st ip))"
    using records_enumerate_sync_spec [OF inv cb TrueI TrueI e, of s] by blast
  then show ?thesis using records_invD(1) [OF inv] by (simp add: records_enumerate_def c_assert_def)
qed

lemma callbacks_ok:
  "cb_ok (\<lambda>_. True) (\<lambda>_. True) callback1 (\<lambda>r. r) (\<lambda>r. Suc)"
  "cb_ok (\<lambda>_. True) (\<lambda>_. True) callback2 (\<lambda>r. r\<lparr>hr_remove := 1\<rparr>) (\<lambda>r n. n)"
  by (simp_all add: cb_ok_def callback1_def callback2_def wf_hostrecord_def ip_of_def)

lemma fold_count: "fold (\<lambda>r. Suc) xs k = k + length xs"
  by (induction xs arbitrary: k) simp_all

lemma records5_ok:
  assumes "sys_ok e" and "\<forall>ip. sys_ok (es ip)"
  shows "records5 e es = Exit 0"
proof (rule filled [OF assms])
  let ?all = "test_ips ITERATIONS ITERATIONS"
  fix st st1 assume a: "records_init e records_start = Ret st" "add_each es ?all st = Ret st1" "records_inv st1" "dom (records_map st1) = set ?all"
  have n: "length (somes (hr_vector st1)) = ITERATIONS * ITERATIONS"
    unfolding length_somes [OF a(3)] a(4) distinct_card [OF test_ips_distinct] by (rule test_ips_length)
  obtain st2 where s2: "records_enumerate e callback1 SYNC (st1, 0) = Ret (0, False, st2, ITERATIONS * ITERATIONS)" "records_inv st2"
      "records_map st2 = (\<lambda>ip. map_option (\<lambda>r. r) (records_map st1 ip))"
    using enumerate_ok [OF a(3) assms(1) callbacks_ok(1), of 0] by (auto simp: fold_count n)
  obtain st3 where s3: "add_each es ?all st2 = Ret st3" "records_inv st3"
    using add_each_dom [OF s2(2) _ assms(2), of ?all] grid_valid by auto
  obtain st4 k where s4: "records_enumerate e callback2 SYNC (st3, ITERATIONS * ITERATIONS) = Ret (0, False, st4, k)" "records_inv st4"
      "records_map st4 = (\<lambda>ip. map_option (\<lambda>r. r\<lparr>hr_remove := 1\<rparr>) (records_map st3 ip))"
    using enumerate_ok [OF s3(2) assms(1) callbacks_ok(2), of "ITERATIONS * ITERATIONS"] by blast
  obtain st5 where s5: "records_maintenance e None (st4, ()) = Ret (0, st5, ())" "maintained st4 st5"
    using records_maintenance_spec [OF s4(2) no_callback TrueI, of e "()"] assms(1)
    by (cases "records_maintenance e None (st4, ())") (auto simp: sys_ok_def)
  have "keep_record (map_option (\<lambda>r. r\<lparr>hr_remove := 1\<rparr>) p) = None" for p by (cases p) (simp_all add: keep_record_def)
  then have inv: "records_inv st5" and none: "dom (records_map st5) = {}" using s5(2) s4(3) by (simp_all add: maintained_def)
  have "hr_vector_fill st5 = 0"
    using s5(2) empty_packed [OF inv none] records_invD(3) [OF inv] by (force simp: maintained_def packed_def)
  moreover from this have "hr_vector_size st5 = hr_vector_chunksize" by (intro small_chunk [OF s5(2)]) simp
  moreover have "get_each es False ?all st5 = Ret ()" using grid_valid none by (intro get_each_ok [OF inv assms(2)]) auto
  ultimately show ?thesis
    using a s2 s3 s4 s5 inv
    by (simp add: records5_def test_end_ok records_dbg_get_vector_chunksize_def records_dbg_get_vector_size_def records_dbg_get_vector_fill_def)
qed

text \<open>\<^verbatim>\<open>records6.c\<close>, for every interleaving of the three threads.\<close>

definition of_grid :: "test_call \<Rightarrow> bool" where
  "of_grid c = (case c of Call_add ip \<Rightarrow> ip \<in> set (test_ips ITERATIONS ITERATIONS)
     | Call_remove ip \<Rightarrow> ip \<in> set (test_ips ITERATIONS ITERATIONS) | Call_enumerate \<Rightarrow> True)"

lemma test_calls_ok:
  assumes "records_inv st" and "\<forall>c \<in> set cs. of_grid c" and "\<forall>i. sys_ok (es i)"
  shows "\<exists>st' k. test_calls es cs (st, n) = Ret (st', k) \<and> records_inv st'"
  using assms(1,2)
proof (induction cs arbitrary: st n)
  case (Cons c cs)
  have e: "sys_ok (es (length cs))" using assms(3) by blast
  have IH: "\<exists>st'' k. test_calls es cs (st', m) = Ret (st'', k) \<and> records_inv st''" if "records_inv st'" for st' m
    using Cons.IH [OF that] Cons.prems(2) by simp
  show ?case
  proof (cases c)
    case (Call_add ip)
    then have "valid_ip ip" using Cons.prems(2) grid_valid by (auto simp: of_grid_def)
    from add_ok [OF Cons.prems(1) this e, of zero_config] IH Call_add show ?thesis by auto
  next
    case (Call_remove ip)
    then have "is_cstring ip" using Cons.prems(2) grid_valid by (auto simp: of_grid_def)
    from records_remove_spec [OF Cons.prems(1) this, of "es (length cs)"] IH Call_remove show ?thesis by (auto simp: returns_iff)
  next
    case Call_enumerate
    from enumerate_ok [OF Cons.prems(1) e callbacks_ok(1), of n] IH Call_enumerate show ?thesis by auto
  qed
qed simp

lemma records6_ok:
  assumes "sys_ok e" and "\<forall>i. sys_ok (es i)" and "\<forall>c \<in> set cs. of_grid c"
  shows "records6 e es cs = Exit 0"
proof -
  obtain st where st: "records_init e records_start = Ret st" "records_inv st" using init_ok [OF assms(1)] by blast
  with test_calls_ok [OF st(2) assms(3,2), of 0] assms(1) show ?thesis by (auto simp: records6_def test_end_ok sys_ok_def)
qed

text \<open>\<^verbatim>\<open>records7.c\<close>: the fill is 3 before and after the maintenance.\<close>

lemma find_ok:
  assumes inv: "records_inv st" and ip: "is_cstring ip" and d: "ip \<in> dom (records_map st)"
  obtains j r where "records_find st (bytes_of ip) = Ret (Some (j, r))" "j < hr_vector_fill st" "hr_vector st ! j = Some r" "ip_of r = ip"
proof -
  obtain hit where "records_find st (bytes_of ip) = Ret hit" "case hit of None \<Rightarrow> records_map st ip = None
      | Some (j, q) \<Rightarrow> j < hr_vector_fill st \<and> hr_vector st ! j = Some q \<and> ip_of q = ip \<and> records_map st ip = Some q"
    using records_find_spec [OF inv terminated_bytes_of [of ip], unfolded cstr_bytes_of [OF ip]] unfolding returns_iff by blast
  with d that show ?thesis by (auto split: option.splits)
qed

lemma three_addresses:
  assumes e: "sys_ok e" and es: "\<forall>ip. sys_ok (es ip)" and v: "valid_ip a" "valid_ip b" "valid_ip c" and d: "distinct [a, b, c]"
  shows "\<exists>st st1 st2 st3 st4. records_init e records_start = Ret st \<and> add_each es [a, b, c] st = Ret st1
    \<and> remove_each es [a] st1 = Ret st2 \<and> add_each es [b] st2 = Ret st3 \<and> hr_vector_fill st3 = 3
    \<and> records_maintenance e None (st3, ()) = Ret (0, st4, ()) \<and> hr_vector_fill st4 = 3 \<and> records_inv st4"
proof -
  have cs: "is_cstring a" "is_cstring b" using v by (auto simp: valid_ip_def)
  obtain st where st: "records_init e records_start = Ret st" "records_inv st" "dom (records_map st) = {}" "hr_vector_size st = 100"
      "hr_vector_fill st = 0"
    using init_ok [OF e] by (auto simp: hr_vector_chunksize_def)
  let ?r = "fresh_record zero_config (now (es c)) c"
  obtain st1 where s1: "add_each es [a, b, c] st = Ret st1" "records_inv st1" "packed 3 st1" "hr_vector_size st1 = 100" "hr_vector_fill st1 = 3"
      "dom (records_map st1) = {a, b, c}" "\<forall>i < 3. hr_vector st1 ! i = Some (fresh_record zero_config (now (es ([a, b, c] ! i))) ([a, b, c] ! i))"
    using add_each_packed [OF st(2) empty_packed [OF st(2,3)] _ _ d _ es] v st(3-5) by (auto simp: numeral_3_eq_3)
  have r: "hr_vector st1 ! 2 = Some ?r" "ip_of ?r = c" "hr_remove ?r = 0"
    using s1(7) fresh_record_wf [OF v(3)] by (auto simp: fresh_record_def)
  obtain j q where j: "records_find st1 (bytes_of a) = Ret (Some (j, q))" "j < 3" "hr_vector st1 ! j = Some q" "ip_of q = a"
    using find_ok [OF s1(2) cs(1)] s1(5,6) by auto
  let ?st2 = "st1\<lparr>hr_vector := (hr_vector st1)[j := None]\<rparr>"
  have rm: "records_remove (es a) a st1 = Ret (0, ?st2)"
    using j(1) es records_invD(1) [OF s1(2)] by (simp add: records_remove_def with_mutex_def c_assert_def sys_ok_def)
  have s2: "records_inv ?st2" "dom (records_map ?st2) = {b, c}"
    using remove_ok [OF s1(2) cs(1) es [THEN spec], of a] s1(6) rm d by auto
  obtain k p where k: "records_find ?st2 (bytes_of b) = Ret (Some (k, p))" "k < 3" "hr_vector ?st2 ! k = Some p" "ip_of p = b"
    using find_ok [OF s2(1) cs(2)] s1(5) s2(2) by auto
  let ?st3 = "?st2\<lparr>hr_vector := (hr_vector ?st2)[k := Some (bump_record (now (es b)) p)]\<rparr>"
  have ad: "records_add_ip (es b) zero_config b ?st2 = Ret (0, ?st3)"
    using k(1) es records_invD(1) [OF s2(1)] by (simp add: records_add_ip_def with_mutex_def c_assert_def sys_ok_def)
  have s3: "records_inv ?st3" using add_ok [OF s2(1) v(2) es [THEN spec], of b zero_config] ad by auto
  have "j \<noteq> 2" using j(3,4) r(1,2) d by auto
  moreover have "k \<noteq> 2" using k(3,4) r(1,2) d \<open>j \<noteq> 2\<close> by auto
  ultimately have slot2: "hr_vector ?st3 ! 2 = Some ?r" using r(1) by simp
  have above: "hr_vector ?st3 ! i = None" if "3 \<le> i" "i < hr_vector_size ?st3" for i
    using that packed_above [OF s1(3)] j(2) k(2) by simp
  have lt: "3 < hr_vector_size ?st3" using s1(4) by simp
  obtain st4 where s4: "records_maintenance e None (?st3, ()) = Ret (0, st4, ())" "maintained ?st3 st4" "hr_vector_fill st4 = 3"
    using maintenance_ok [OF s3 e lt above] slot2 r(3) by (auto simp: keep_record_def)
  have "remove_each es [a] st1 = Ret ?st2" "add_each es [b] ?st2 = Ret ?st3" using rm ad by simp_all
  moreover have "hr_vector_fill ?st3 = 3" using s1(5) by simp
  moreover have "records_inv st4" using s4(2) by (simp add: maintained_def)
  ultimately show ?thesis using st(1) s1(1) s4(1,3) by blast
qed

lemma records7_ok:
  assumes "sys_ok e" and "\<forall>ip. sys_ok (es ip)"
  shows "records7 e es = Ret (False, False)"
proof -
  have v: "valid_ip ''192.168.100.1''" "valid_ip ''192.168.100.2''" "valid_ip ''192.168.100.3''"
      "distinct [''192.168.100.1'', ''192.168.100.2'', ''192.168.100.3'']"
    by (simp_all add: valid_ip_def is_cstring_def IPADDR_SIZE_def)
  from three_addresses [OF assms v] obtain st st1 st2 st3 st4
    where s: "records_init e records_start = Ret st" "add_each es [''192.168.100.1'', ''192.168.100.2'', ''192.168.100.3''] st = Ret st1"
      "remove_each es [''192.168.100.1''] st1 = Ret st2" "add_each es [''192.168.100.2''] st2 = Ret st3" "hr_vector_fill st3 = 3"
      "records_maintenance e None (st3, ()) = Ret (0, st4, ())" "hr_vector_fill st4 = 3" "records_inv st4"
    by (elim exE conjE)
  have "records_destroy e None (st4, ()) = Ret (st4\<lparr>hr_vector := []\<rparr>, fold (\<lambda>r s. s) (somes (hr_vector st4)) ())"
    by (rule records_destroy_spec [OF s(8) no_callback TrueI])
  then show ?thesis unfolding records7_def s obind.simps by (simp add: records_dbg_get_vector_fill_def s(5-7))
qed

subsection \<open>The test of the exclusion list passes\<close>

text \<open>The addresses of the test, as \<^verbatim>\<open>inet_pton\<close> reads them, with what the test expects.\<close>

definition test_facts :: "(string \<times> bool \<times> af \<times> u8 list) list" where
  "test_facts =
     [(''192.1.1.0'', True, AF_INET, [192, 1, 1, 0]), (''192.1.1.1'', True, AF_INET, [192, 1, 1, 1]),
      (''192.1.1.128'', True, AF_INET, [192, 1, 1, 128]), (''192.1.1.255'', True, AF_INET, [192, 1, 1, 255]),
      (''192.1.2.1'', False, AF_INET, [192, 1, 2, 1]), (''10.1.0.0'', True, AF_INET, [10, 1, 0, 0]),
      (''10.1.15.255'', True, AF_INET, [10, 1, 15, 255]), (''192.168.240.21'', True, AF_INET, [192, 168, 240, 21]),
      (''2001:1:2:8::'', True, AF_INET6, [0x20, 1, 0, 1, 0, 2, 0, 8, 0, 0, 0, 0, 0, 0, 0, 0]),
      (''2001:1:2:8::0'', True, AF_INET6, [0x20, 1, 0, 1, 0, 2, 0, 8, 0, 0, 0, 0, 0, 0, 0, 0]),
      (''2001:1:2:f:ffff:ffff:ffff:ffff'', True, AF_INET6, [0x20, 1, 0, 1, 0, 2, 0, 0xf, 0xff, 0xff, 0xff, 0xff, 0xff, 0xff, 0xff, 0xff]),
      (''2001:1:2:f:ffff:ffff:ffff:1'', True, AF_INET6, [0x20, 1, 0, 1, 0, 2, 0, 0xf, 0xff, 0xff, 0xff, 0xff, 0xff, 0xff, 0, 1]),
      (''192.168.240.22'', False, AF_INET, [192, 168, 240, 22]), (''192.168.240.20'', False, AF_INET, [192, 168, 240, 20]),
      (''10.1.16.1'', False, AF_INET, [10, 1, 16, 1]), (''10.0.0.1'', False, AF_INET, [10, 0, 0, 1]),
      (''2001:1:2:7::1'', False, AF_INET6, [0x20, 1, 0, 1, 0, 2, 0, 7, 0, 0, 0, 0, 0, 0, 0, 1])]"

definition test_networks :: "network list" where
  "test_networks = [(AF_INET6, [0x20, 1, 0, 1, 0, 2, 0, 0xe, 0, 0, 0, 0, 0, 0, 0, 0], 61), (AF_INET, [10, 1, 0, 0], 20),
     (AF_INET, [192, 1, 1, 0], 24), (AF_INET, [192, 168, 240, 21], 32)]"

definition reads_addresses :: "inet_pton \<Rightarrow> bool" where
  "reads_addresses pton \<longleftrightarrow> (\<forall>a \<in> {1..<10}. \<forall>b \<in> {1..<10}. pton AF_INET (test_net a b) = Some [of_nat a, of_nat b, 0, 0])
     \<and> list_all (\<lambda>(s, w, f, b). pton f s = Some b) test_facts
     \<and> pton AF_INET6 ''2001:1:2:e::'' = Some [0x20, 1, 0, 1, 0, 2, 0, 0xe, 0, 0, 0, 0, 0, 0, 0, 0]"

text \<open>What the literals of the test look like, and which of them the networks cover.\<close>

lemma test_facts_checks: "test_checks = map (\<lambda>(s, w, f, b). (s, w)) test_facts"
  by (simp add: test_checks_def test_facts_def)

lemma test_facts_shape: "list_all (\<lambda>(s, w, f, b). af_of s = f \<and> 3 \<le> length s \<and> CHR ''/'' \<notin> set s \<and> last s \<noteq> CHR 0x0A) test_facts"
  by (simp add: test_facts_def af_of_def)

lemma test_networks_own:
  "list_ex (\<lambda>n. net_covers n AF_INET [192, 1, 1, 0]) test_networks = True"
  "list_ex (\<lambda>n. net_covers n AF_INET [10, 1, 0, 0]) test_networks = True"
  "list_ex (\<lambda>n. net_covers n AF_INET [192, 168, 240, 21]) test_networks = True"
  by (simp_all add: test_networks_def same_prefix_def)

lemma test_networks_cover:
  "list_ex (\<lambda>n. net_covers n AF_INET [192, 1, 1, 1]) test_networks = True"
  "list_ex (\<lambda>n. net_covers n AF_INET [192, 1, 1, 128]) test_networks = True"
  "list_ex (\<lambda>n. net_covers n AF_INET [192, 1, 1, 255]) test_networks = True"
  "list_ex (\<lambda>n. net_covers n AF_INET [192, 1, 2, 1]) test_networks = False"
  "list_ex (\<lambda>n. net_covers n AF_INET [10, 1, 15, 255]) test_networks = True"
  "list_ex (\<lambda>n. net_covers n AF_INET6 [0x20, 1, 0, 1, 0, 2, 0, 8, 0, 0, 0, 0, 0, 0, 0, 0]) test_networks = True"
  "list_ex (\<lambda>n. net_covers n AF_INET6 [0x20, 1, 0, 1, 0, 2, 0, 0xf, 0xff, 0xff, 0xff, 0xff, 0xff, 0xff, 0xff, 0xff]) test_networks = True"
  "list_ex (\<lambda>n. net_covers n AF_INET6 [0x20, 1, 0, 1, 0, 2, 0, 0xf, 0xff, 0xff, 0xff, 0xff, 0xff, 0xff, 0, 1]) test_networks = True"
  "list_ex (\<lambda>n. net_covers n AF_INET [192, 168, 240, 22]) test_networks = False"
  "list_ex (\<lambda>n. net_covers n AF_INET [192, 168, 240, 20]) test_networks = False"
  "list_ex (\<lambda>n. net_covers n AF_INET [10, 1, 16, 1]) test_networks = False"
  "list_ex (\<lambda>n. net_covers n AF_INET [10, 0, 0, 1]) test_networks = False"
  "list_ex (\<lambda>n. net_covers n AF_INET6 [0x20, 1, 0, 1, 0, 2, 0, 7, 0, 0, 0, 0, 0, 0, 0, 1]) test_networks = False"
  by code_simp+

lemma test_facts_covered: "list_all (\<lambda>(s, w, f, b). list_ex (\<lambda>n. net_covers n f b) test_networks = w) test_facts"
  by (simp add: test_facts_def test_networks_own [simplified] test_networks_cover [simplified])

lemma exclude_net_ok:
  assumes "exclude_nets N ex" and "pton_ok pton" and "sys_ok e" and "CHR ''/'' \<notin> set s" and "s \<noteq> []" and "1 \<le> p" and "p \<le> max_prefix (af_of s)"
    and "pton (af_of s) s = Some a"
  shows "\<exists>ex'. exclude_add e pton (cidr s p) ex = Ret (0, ex') \<and> exclude_nets (add_mset (af_of s, a, p) N) ex'"
proof -
  have p: "p \<le> 128" using assms(7) by (auto simp: max_prefix_def split: af.splits)
  have w: "(of_nat p :: u32) \<le> of_nat (max_prefix (af_of s))"
    using assms(7) p by (auto simp: word_le_nat_alt unat_of_nat max_prefix_def split: af.splits)
  have nz: "(of_nat p :: u32) \<noteq> 0" using assms(6) p by (auto simp: word_unat_eq_iff unat_of_nat)
  have up: "unat (of_nat p :: u32) = p" using p by (simp add: unat_of_nat)
  have e: "buf_ok e" "lock_rv e = 0" "unlock_rv e = 0" "malloc_ok e" "realloc_ok e" using assms(3) by (auto simp: sys_ok_def)
  from exclude_add_spec [OF assms(1,2) e(1) exclude_parse_cidr [OF assms(4,5,7)] assms(8) w nz, unfolded up] e
  show ?thesis by (cases "exclude_add e pton (cidr s p) ex") auto
qed

lemma exclude_host_ok:
  assumes "exclude_nets N ex" and "pton_ok pton" and "sys_ok e" and s: "3 \<le> length s" "CHR ''/'' \<notin> set s" "last s \<noteq> CHR 0x0A"
    and "pton (af_of s) s = Some a"
  shows "\<exists>ex'. exclude_add e pton s ex = Ret (0, ex') \<and> exclude_nets (add_mset (af_of s, a, max_prefix (af_of s)) N) ex'"
proof -
  have w: "(of_nat (max_prefix (af_of s)) :: u32) \<noteq> 0" "unat (of_nat (max_prefix (af_of s)) :: u32) = max_prefix (af_of s)"
    by (cases "af_of s"; simp add: max_prefix_def)+
  have e: "buf_ok e" "lock_rv e = 0" "unlock_rv e = 0" "malloc_ok e" "realloc_ok e" using assms(3) by (auto simp: sys_ok_def)
  from exclude_add_spec [OF assms(1,2) e(1) exclude_parse_host [OF s] assms(7) order_refl w(1), unfolded w(2)] e
  show ?thesis by (cases "exclude_add e pton s ex") auto
qed

lemma check_each_ok:
  assumes "exclude_nets (mset ns) ex" and "pton_ok pton" and "\<forall>ip. sys_ok (es ip)"
    and "\<forall>(s, w) \<in> set cs. 3 \<le> length s \<and> CHR ''/'' \<notin> set s \<and> last s \<noteq> CHR 0x0A
      \<and> (\<exists>a. pton (af_of s) s = Some a \<and> list_ex (\<lambda>n. net_covers n (af_of s) a) ns) = w"
  shows "check_each es pton cs ex = Ret ()"
  using assms(4)
proof (induction cs)
  case (Cons c cs)
  obtain s w where c: "c = (s, w)" by (cases c)
  with Cons.prems have "exclude_isexcluded (es s) pton s ex = Ret (if w then RETVAL_OK else RETVAL_ERR)"
    using exclude_isexcluded_spec [OF assms(1,2) assms(3) [THEN spec], of s s] by (auto simp: list_ex_iff)
  with Cons c show ?case by (cases w) auto
qed simp

text \<open>The two loops over nine times nine networks.\<close>

lemma test_pairs_set: "x \<in> set (test_pairs f) \<longleftrightarrow> (\<exists>a \<in> {1..<10}. \<exists>b \<in> {1..<10}. x = f a b)"
  by (auto simp: test_pairs_def)

lemma decimal_shape: "CHR ''/'' \<notin> set (decimal n)" "CHR '':'' \<notin> set (decimal n)"
  using decimal_digits [of n] by (auto simp: list_all_iff dest: isdigit_not)

lemma test_net_shape: "CHR ''/'' \<notin> set (test_net a b)" "test_net a b \<noteq> []" "af_of (test_net a b) = AF_INET" "test_net a b @ ''/24'' = cidr (test_net a b) 24"
proof -
  have "decimal 24 = ''24''" by code_simp
  then show "test_net a b @ ''/24'' = cidr (test_net a b) 24" by (simp add: cidr_def)
qed (use decimal_shape in \<open>auto simp: test_net_def af_of_def\<close>)

lemma test_host_shape: "3 \<le> length (test_host a b)" "CHR ''/'' \<notin> set (test_host a b)" "last (test_host a b) \<noteq> CHR 0x0A"
  using decimal_shape by (auto simp: test_host_def)

lemma exclude_each_ok:
  assumes "\<exists>N. exclude_nets N ex" and "pton_ok pton" and "\<forall>ip. sys_ok (es ip)"
    and "\<forall>s \<in> set ss. \<exists>a b. s = test_net a b @ ''/24'' \<and> pton AF_INET (test_net a b) \<noteq> None"
  shows "\<exists>ex'. exclude_each es pton ss ex = Ret ex' \<and> (\<exists>N. exclude_nets N ex')"
  using assms(1,4)
proof (induction ss arbitrary: ex)
  case (Cons s ss)
  obtain N a b where N: "exclude_nets N ex" and s: "s = cidr (test_net a b) 24" "pton AF_INET (test_net a b) \<noteq> None"
    using Cons.prems test_net_shape(4) by auto
  then obtain c where "pton (af_of (test_net a b)) (test_net a b) = Some c" by (auto simp: test_net_shape)
  from exclude_net_ok [OF N assms(2) assms(3) [THEN spec] test_net_shape(1,2) _ _ this, of 24 s] s(1)
  obtain ex1 where "exclude_add (es s) pton s ex = Ret (0, ex1)" "\<exists>N. exclude_nets N ex1"
    by (auto simp: test_net_shape max_prefix_def)
  with Cons.IH [of ex1] Cons.prems(2) show ?case by simp
qed auto

lemma exclude_four:
  assumes N: "exclude_nets {#} ex" and pt: "pton_ok pton" and es: "\<forall>ip. sys_ok (es ip)" and r: "reads_addresses pton"
  shows "\<exists>ex'. exclude_each es pton [''192.168.240.21'', ''192.1.1.0/24'', ''10.1.0.0/20'', ''2001:1:2:e::/61''] ex = Ret ex'
    \<and> exclude_nets (mset test_networks) ex'"
proof -
  have t: "cidr ''192.1.1.0'' 24 = ''192.1.1.0/24''" "cidr ''10.1.0.0'' 20 = ''10.1.0.0/20''" "cidr ''2001:1:2:e::'' 61 = ''2001:1:2:e::/61''"
    by code_simp+
  have p: "pton (af_of ''192.168.240.21'') ''192.168.240.21'' = Some [192, 168, 240, 21]" "pton (af_of ''192.1.1.0'') ''192.1.1.0'' = Some [192, 1, 1, 0]"
      "pton (af_of ''10.1.0.0'') ''10.1.0.0'' = Some [10, 1, 0, 0]"
      "pton (af_of ''2001:1:2:e::'') ''2001:1:2:e::'' = Some [0x20, 1, 0, 1, 0, 2, 0, 0xe, 0, 0, 0, 0, 0, 0, 0, 0]"
    using r by (simp_all add: reads_addresses_def test_facts_def af_of_def)
  have f: "af_of ''192.168.240.21'' = AF_INET" "af_of ''192.1.1.0'' = AF_INET" "af_of ''10.1.0.0'' = AF_INET" "af_of ''2001:1:2:e::'' = AF_INET6"
    by (simp_all add: af_of_def)
  obtain ex1 where 1: "exclude_add (es ''192.168.240.21'') pton ''192.168.240.21'' ex = Ret (0, ex1)" "exclude_nets {#(AF_INET, [192, 168, 240, 21], 32)#} ex1"
    using exclude_host_ok [OF N pt es [THEN spec] _ _ _ p(1)] by (auto simp: f max_prefix_def)
  obtain ex2 where 2: "exclude_add (es ''192.1.1.0/24'') pton ''192.1.1.0/24'' ex1 = Ret (0, ex2)"
      "exclude_nets {#(AF_INET, [192, 1, 1, 0], 24), (AF_INET, [192, 168, 240, 21], 32)#} ex2"
    using exclude_net_ok [OF 1(2) pt es [THEN spec] _ _ _ _ p(2), of 24 "''192.1.1.0/24''"] by (auto simp: f max_prefix_def t)
  obtain ex3 where 3: "exclude_add (es ''10.1.0.0/20'') pton ''10.1.0.0/20'' ex2 = Ret (0, ex3)"
      "exclude_nets {#(AF_INET, [10, 1, 0, 0], 20), (AF_INET, [192, 1, 1, 0], 24), (AF_INET, [192, 168, 240, 21], 32)#} ex3"
    using exclude_net_ok [OF 2(2) pt es [THEN spec] _ _ _ _ p(3), of 20 "''10.1.0.0/20''"] by (auto simp: f max_prefix_def t)
  obtain ex4 where 4: "exclude_add (es ''2001:1:2:e::/61'') pton ''2001:1:2:e::/61'' ex3 = Ret (0, ex4)" "exclude_nets (mset test_networks) ex4"
    using exclude_net_ok [OF 3(2) pt es [THEN spec] _ _ _ _ p(4), of 61 "''2001:1:2:e::/61''"] by (auto simp: f max_prefix_def t test_networks_def)
  show ?thesis
    by (intro exI [of _ ex4] conjI) (simp_all only: exclude_each.simps 1(1) 2(1) 3(1) 4 obind.simps prod.case simp_thms if_False)
qed

lemma exclude1_ok:
  assumes e: "sys_ok e" and es: "\<forall>ip. sys_ok (es ip)" and pt: "pton_ok pton" and r: "reads_addresses pton"
  shows "exclude1 e es pton = Exit 0"
proof -
  obtain ex where ex: "exclude_init e exclude_start = Ret ex" "exclude_nets {#} ex"
    using exclude_init_spec [of exclude_start e] e by (auto simp: exclude_start_def er_vector_chunksize_def returns_iff)
  have "\<forall>s \<in> set (test_pairs (\<lambda>a b. test_net a b @ ''/24'')). \<exists>a b. s = test_net a b @ ''/24'' \<and> pton AF_INET (test_net a b) \<noteq> None"
  proof
    fix s assume "s \<in> set (test_pairs (\<lambda>a b. test_net a b @ ''/24''))"
    then obtain a b where ab: "a \<in> {1..<10}" "b \<in> {1..<10}" "s = test_net a b @ ''/24''" unfolding test_pairs_set by blast
    then have "pton AF_INET (test_net a b) \<noteq> None" using r unfolding reads_addresses_def by (metis option.distinct(1))
    with ab(3) show "\<exists>a b. s = test_net a b @ ''/24'' \<and> pton AF_INET (test_net a b) \<noteq> None" by blast
  qed
  then obtain ex1 N where ex1: "exclude_each es pton (test_pairs (\<lambda>a b. test_net a b @ ''/24'')) ex = Ret ex1" "exclude_nets N ex1"
    using exclude_each_ok [OF _ pt es] ex(2) by blast
  obtain ex2 where ex2: "exclude_clear e ex1 = Ret (0, ex2)" "exclude_nets {#} ex2"
    using exclude_clear_spec [OF ex1(2), of e] e by (cases "exclude_clear e ex1") (auto simp: sys_ok_def)
  have c1: "check_each es pton (test_pairs (\<lambda>a b. (test_host a b, False))) ex2 = Ret ()"
    by (rule check_each_ok [of "[]", OF _ pt es]) (use ex2(2) test_host_shape in \<open>auto simp: test_pairs_set\<close>)
  obtain ex3 where ex3: "exclude_each es pton [''192.168.240.21'', ''192.1.1.0/24'', ''10.1.0.0/20'', ''2001:1:2:e::/61''] ex2 = Ret ex3"
      "exclude_nets (mset test_networks) ex3"
    using exclude_four [OF ex2(2) pt es r] by blast
  have c2: "check_each es pton test_checks ex3 = Ret ()"
  proof (rule check_each_ok [OF ex3(2) pt es], clarify)
    fix s w assume "(s, w) \<in> set test_checks"
    then obtain f b where m: "(s, w, f, b) \<in> set test_facts" by (auto simp: test_facts_checks)
    have "pton f s = Some b" using r m by (auto simp: reads_addresses_def list_all_iff)
    moreover have "af_of s = f \<and> 3 \<le> length s \<and> CHR ''/'' \<notin> set s \<and> last s \<noteq> CHR 0x0A"
      using test_facts_shape m by (auto simp: list_all_iff)
    moreover have "list_ex (\<lambda>n. net_covers n f b) test_networks = w" using test_facts_covered m by (auto simp: list_all_iff)
    ultimately show "3 \<le> length s \<and> CHR ''/'' \<notin> set s \<and> last s \<noteq> CHR 0x0A
        \<and> (\<exists>a. pton (af_of s) s = Some a \<and> list_ex (\<lambda>n. net_covers n (af_of s) a) test_networks) = w" by auto
  qed
  obtain ex4 where "exclude_destroy ex3 = Ret ex4" using exclude_destroy_ok [OF ex3(2)] by blast
  with ex(1) ex1(1) ex2(1) c1 ex3(1) c2 show ?thesis
    unfolding exclude1_def by (simp only: obind.simps prod.case simp_thms if_False)
qed

subsection \<open>Properties\<close>

text \<open>An \<^verbatim>\<open>inet_pton\<close> that knows the addresses of the test.\<close>

definition test_pton :: inet_pton where
  "test_pton f s =
     (if length s = 7
      then (case List.find (\<lambda>(a, b). test_net a b = s) (test_pairs Pair) of
              None \<Rightarrow> None | Some (a, b) \<Rightarrow> if f = AF_INET then Some [of_nat a, of_nat b, 0, 0] else None)
      else map_of (((AF_INET6, ''2001:1:2:e::''), [0x20, 1, 0, 1, 0, 2, 0, 0xe, 0, 0, 0, 0, 0, 0, 0, 0])
             # map (\<lambda>(s, w, f, b). ((f, s), b)) test_facts) (f, s))"

lemma test_net_digits: "a < 10 \<Longrightarrow> b < 10 \<Longrightarrow> test_net a b = [char_of (48 + a), CHR ''.'', char_of (48 + b)] @ ''.0.0''"
  by (simp add: test_net_def decimal.simps)

lemma test_net_inj:
  assumes "test_net a b = test_net c d"
  shows "a = c \<and> b = d"
proof -
  have tw: "takeWhile (\<lambda>c. c \<noteq> CHR ''.'') (decimal n @ ''.'' @ xs) = decimal n" for n xs
    using decimal_no_dot [of n] by (subst takeWhile_append2) auto
  from arg_cong [OF assms, of "takeWhile (\<lambda>c. c \<noteq> CHR ''.'')"] have "a = c" unfolding test_net_def tw by simp
  with assms show ?thesis by (simp add: test_net_def)
qed

lemma test_pton_ok: "pton_ok test_pton" and test_pton_reads: "reads_addresses test_pton"
proof -
  have len: "list_all (\<lambda>(s, w, f, b). length b = addr_len f) test_facts" by (simp add: test_facts_def addr_len_def)
  have "length b = addr_len f" if p: "test_pton f s = Some b" for f s b
  proof (cases "length s = 7")
    case True
    then show ?thesis using p by (auto simp: test_pton_def addr_len_def split: option.splits if_splits)
  next
    case False
    then show ?thesis using p len
      by (auto simp: test_pton_def addr_len_def list_all_iff dest!: map_of_SomeD split: if_splits)
  qed
  then show "pton_ok test_pton" by (auto simp: pton_ok_def addr_len_def dest: meta_spec split: af.splits)
next
  have "test_pton AF_INET (test_net a b) = Some [of_nat a, of_nat b, 0, 0]" if ab: "a \<in> {1..<10}" "b \<in> {1..<10}" for a b
  proof -
    have "length (test_net a b) = 7" using ab by (simp add: test_net_digits)
    moreover have "List.find (\<lambda>(c, d). test_net c d = test_net a b) (test_pairs Pair) = Some (a, b)"
    proof (cases "List.find (\<lambda>(c, d). test_net c d = test_net a b) (test_pairs Pair)")
      case None
      then show ?thesis using ab by (auto simp: find_None_iff test_pairs_set)
    next
      case (Some p)
      then show ?thesis by (auto simp: find_Some_iff dest!: test_net_inj)
    qed
    ultimately show ?thesis by (simp add: test_pton_def)
  qed
  moreover have "list_all (\<lambda>(s, w, f, b). test_pton f s = Some b) test_facts"
    unfolding test_facts_def by (simp add: test_pton_def test_facts_def)
  ultimately show "reads_addresses test_pton" by (simp add: reads_addresses_def test_pton_def)
qed

text \<open>
  C37. The test programs that come with the sources pass on the model: whatever the clock says, and for every
  interleaving of the three threads of \<^verbatim>\<open>records6.c\<close>, each of them ends with status 0 as long as the calls to the system
  succeed and \<^verbatim>\<open>inet_pton\<close> reads the addresses that occur in them; \<^verbatim>\<open>records7.c\<close>, which does not fail when the fill of the
  vector is wrong, has nothing to report either.
\<close>

theorem test_suite_passes:
  assumes "sys_ok e" and "\<forall>ip. sys_ok (es ip)" and "\<forall>i. sys_ok (fs i)" and "\<forall>c \<in> set cs. of_grid c"
    and "pton_ok pton" and "reads_addresses pton"
  shows "records1 e es = Exit 0 \<and> records2 e es = Exit 0 \<and> records3 e es = Exit 0 \<and> records4 e es = Exit 0 \<and> records5 e es = Exit 0
    \<and> records6 e fs cs = Exit 0 \<and> records7 e es = Ret (False, False) \<and> exclude1 e es pton = Exit 0"
  using assms by (simp add: records1_ok records2_ok records3_ok records4_ok records5_ok records6_ok records7_ok exclude1_ok)

theorem test_suite_passes_witness:
  "records5 calm_env (\<lambda>_. calm_env) = Exit 0 \<and> records6 calm_env (\<lambda>_. calm_env) [Call_add (test_ip 1 2), Call_enumerate, Call_remove (test_ip 1 2)] = Exit 0
     \<and> exclude1 calm_env (\<lambda>_. calm_env) test_pton = Exit 0"
proof -
  have "\<forall>c \<in> set [Call_add (test_ip 1 2), Call_enumerate, Call_remove (test_ip 1 2)]. of_grid c"
    by (auto simp: of_grid_def test_ips_set ITERATIONS_def intro!: exI [of _ 1] exI [of _ 2])
  from test_suite_passes [OF calm_env_ok(1) _ _ this test_pton_ok test_pton_reads, of "\<lambda>_. calm_env" "\<lambda>_. calm_env"] show ?thesis by simp
qed

end
