(* ===== verification/Spec2Isabelle.thy ===== *)
theory Spec2Isabelle
  imports Program Progress Support Sender Client_Stop Shutdown Life Network Tests
begin

section \<open>agentsmith: a verification library\<close>

text \<open>
  agentsmith is a daemon that follows a log file, extracts the address of a host from every line that
  matches a pattern, counts how often each host is seen, and runs an action script when a host has been
  seen too often; it runs the script again to undo the action when the host has been quiet for long
  enough. Instances of the program inform each other about such hosts over TLS. The program is written
  in C under \<^verbatim>\<open>src/src\<close>; this library translates it into definitions of HOL, function by function, and proves
  what the program promises.

  \<^bold>\<open>Parts of the program and theories.\<close> The theories are listed in the order in which they build on each
  other.

  \<^item> \<open>Prelude\<close>: what the language and its library provide. A C function that may end the program is a
    function into \<open>outcome\<close>: \<open>Ret\<close> (it returns), \<open>Exit c\<close>, \<open>Abort\<close> (a failed assertion) and \<open>Undef\<close>
    (undefined behaviour: access outside an array, null or uninitialised pointer, oversized shift, a string
    without its null byte). \<open>sysenv\<close> holds the answers of locks, allocations, \<^verbatim>\<open>pthread_create\<close> and the clock,
    and whether assertions are compiled in. Arrays are lists with checked access, \<open>c_for\<close> is a counting
    loop with early exit, strings are character arrays read up to the null byte.
  \<^item> \<open>Slot_Vector\<close>: the vector of pointers both tables are kept in, with the locale \<open>slot_vector\<close> for its two
    primitives (find a free slot, grow by a chunk), interpreted for the host table and for the exclusion list.
  \<^item> \<open>Bytes\<close>: words as bytes in both orders, \<^verbatim>\<open>htonl\<close>, and the bits of an address in network order.
  \<^item> \<open>Config\<close>, \<open>Config_File\<close> (\<^verbatim>\<open>cfg.c\<close>, \<^verbatim>\<open>cfg.h\<close>): the configuration record, its defaults and ranges; the
    option table, the conversion of numbers, the splitting of addresses, and the loop over the file.
  \<^item> \<open>Records\<close> (\<^verbatim>\<open>records.c\<close>, \<^verbatim>\<open>records.h\<close>): the host table. The state \<open>records_st\<close> has the fields of the
    static variables. The abstraction \<open>records_map\<close> is a map from addresses to records, and every operation
    implements an operation on that map (locale \<open>host_table\<close>, interpreted on the operations).
  \<^item> \<open>Exclude\<close> (\<^verbatim>\<open>exclude.c\<close>): the exclusion list as a multiset of networks.
  \<^item> \<open>Netshared\<close> (\<^verbatim>\<open>network/netshared.c\<close>): the wire format and the read and write loops.
  \<^item> \<open>Tls\<close> (\<^verbatim>\<open>network/netssl.c\<close>, \<^verbatim>\<open>network/sslutils.c\<close>): the contexts and what they verify, handshakes, the shutdown
    dialogue, the locks of older versions of the library.
  \<^item> \<open>Client_Queue\<close>, \<open>Client\<close> (\<^verbatim>\<open>network/cli\<close>): the queue of one remote agent with its sending thread, and the
    distribution of records over all queues (locale \<open>record_distributor\<close>).
  \<^item> \<open>Sender\<close> (\<^verbatim>\<open>network/cli/clientqueue.c\<close>): the sending thread in steps, between which others append to its queue or cancel
    it (\<open>queue_step\<close>), with the error exits of its locks and its cleanup handler.
  \<^item> \<open>Client_Stop\<close> (\<^verbatim>\<open>network/cli/client.c\<close>): \<^verbatim>\<open>client_queue_flush\<close> and \<^verbatim>\<open>client_stop\<close> in steps, one queue at a time, and
    what a schedule of the two does (\<open>race_run\<close>).
  \<^item> \<open>Worker\<close>, \<open>Server\<close> (\<^verbatim>\<open>network/srv\<close>): one session of a remote agent; opening the sockets, accepting
    connections, and the semaphore that bounds the sessions (\<open>server_step\<close>).
  \<^item> \<open>Actions\<close> (\<^verbatim>\<open>threads.c\<close>): the callbacks and the passes of the action and maintenance threads.
  \<^item> \<open>Follow\<close> (\<^verbatim>\<open>follow.c\<close>, \<^verbatim>\<open>regex.c\<close>): the line buffer, the loop that follows the log, and the matcher.
  \<^item> \<open>Output\<close> (\<^verbatim>\<open>output.c\<close>): messages on the console or to syslog, as a trace of what reaches the outside.
  \<^item> \<open>Signals\<close> (\<^verbatim>\<open>sighandler.c\<close>): the table \<^verbatim>\<open>signalhandler_setup\<close> installs and what each handler does.
  \<^item> \<open>Daemon\<close>: the threads together. Every access to the shared tables is a critical section, and
    \<open>daemon_step\<close> has one rule per section, so that a run is any interleaving of them.
  \<^item> \<open>Program\<close> (\<^verbatim>\<open>main.c\<close>, and starting and stopping of threads in \<^verbatim>\<open>threads.c\<close>): the options, the way up, and the
    way down to \<^verbatim>\<open>exit\<close>. \<open>Life\<close> puts the threads in between.
  \<^item> \<open>Progress\<close>: what follows for a host: it is acted upon, released, and made known to another agent.
  \<^item> \<open>Shutdown\<close> (\<^verbatim>\<open>threads.c\<close>, the loops of \<^verbatim>\<open>records.c\<close>): the passes slot by slot under \<^verbatim>\<open>vector_mutex\<close>, with the points where a
    thread can be cancelled, and the calls of \<^verbatim>\<open>threads_stop\<close> (\<open>agent_step\<close>).
  \<^item> \<open>Life\<close> (\<^verbatim>\<open>main.c\<close>): from the options to \<^verbatim>\<open>exit\<close> over the threads of \<open>Shutdown\<close>, and the sections that never end the
    program.
  \<^item> \<open>Network\<close>: several agents, each a \<open>Daemon\<close>, whose sending threads and workers are connected by streams of
    commands (\<open>net_step\<close>).
  \<^item> \<open>Support\<close> (parts of \<^verbatim>\<open>exclude.c\<close>, \<^verbatim>\<open>netshared.c\<close>, \<^verbatim>\<open>records.c\<close>; \<^verbatim>\<open>malloc.c\<close>): debugging aids and allocation replacements.
  \<^item> \<open>Tests\<close> (\<^verbatim>\<open>tests/records1.c\<close> to \<^verbatim>\<open>records7.c\<close>, \<^verbatim>\<open>exclude1.c\<close>): the test programs, which all pass on the model.

  \<^bold>\<open>What is shown.\<close> Each component has an invariant that its operations keep, and a description of each
  operation on every branch in terms of an abstract state: the map of hosts, the multiset of excluded
  networks, the sequence of records an agent is to receive, the messages sent. On these rest the properties
  of the whole: the script is run with \<^verbatim>\<open>new\<close> and \<^verbatim>\<open>remove\<close> in balance for every address, in every reachable state.
  The same books hold at every instant of the threads in pieces, up to the one record in hand, and what the daemon of whole
  passes reaches the threads in pieces reach; whenever the shutdown of the threads returns, the rest
  of the way down undoes all actions, but for at most one address if it has cancelled a thread in the script, and releases the resources;
  the states from which the shutdown never returns are characterised. Further: no
  critical section ends the program, if its system calls succeed and the commands it receives are those of an agent; a frequent host is acted upon and a quiet one released by the next
  passes; what one agent queues another merges, and what one agent finds in its log the
  others act upon; among agents no command trips the one that receives it, and none is passed on; a line of the log, a received command, a signal, a pass of
  a thread change exactly what they should; no TLS context is used without verification. The optimised or
  low-level routines are shown equal to their description: netmasks to bit prefixes, the \<^verbatim>\<open>memcpy\<close> sequences to the
  wire image, buffered reading to cutting the text into lines, chunked network reads to the stream. Some
  properties state what the code does where it goes wrong: over-long addresses, an IPv4 prefix of 0, a peer
  that makes up its commands, the dead test for a replaced log file, a second \<^verbatim>\<open>listen\<close> option, a thread
  cancelled in the script, which can make the shutdown hang, a flush that \<^verbatim>\<open>client_stop\<close> overtakes, a pid file with too
  long a name.

  \<^bold>\<open>Parameters.\<close> Code the program only calls is an argument: \<^verbatim>\<open>inet_pton\<close> (hypothesis \<open>pton_ok\<close>: results of
  the size of the address family), PCRE (\<open>pcre_ok\<close>: the captured range lies within the text),
  \<^verbatim>\<open>getaddrinfo\<close>, the file system, the answers of OpenSSL (\<open>ssl_lib\<close>, \<open>tls_answers\<close>; \<open>tls_ready\<close>: there is a context and
  a descriptor), the numbers of signals (\<open>signo_ok\<close>: two names share a number only within a class, which holds on
  Linux), \<^verbatim>\<open>ctime_r\<close> (\<open>ctime_ok\<close>: its text fits the buffer). Answers of the system are arguments too, so that
  error paths are branches of the definitions; the hypotheses \<open>sys_ok\<close>, \<open>append_ok\<close>, \<open>client_env_ok\<close> and
  \<open>action_ok\<close> say that the calls of one operation succeed.

  \<^bold>\<open>Choices.\<close> A little-endian machine with 64 bit \<^verbatim>\<open>long\<close> and a build with IPv6 are modelled;
  \<^verbatim>\<open>FD_SETSIZE\<close> is 1024. Integers have their width, and the signed counters wrap around. \<^verbatim>\<open>time(NULL)\<close> is read once per operation or
  pass. The quotient of \<^verbatim>\<open>ceil((double) ...)\<close> is computed exactly, which agrees with the floating point
  computation for every vector that fits into memory. Memory is not bounded. Freed memory is modelled
  by the absence of what it held, but for the queues of the client and its vector of records, which others can still
  reach: they carry a mark, and the operations that use them are undefined on what is marked. No definition needs fuel: every loop has a termination proof, and the
  endless loops are given by their passes, or run over the list of what the system reports.

  \<^bold>\<open>What is not modelled.\<close> Messages are part of the state in \<open>Output\<close>, \<open>Signals\<close> and \<open>Program\<close>; those of the other
  components, which have no effect there, are left out, but for the strings they read: an address or the name of a
  peer that is not a string is undefined there, too. The name of the server a sending thread talks to appears in
  messages only and is left out. In \<open>Daemon\<close> a pass of a thread is
  one step; \<open>Shutdown\<close> takes it apart, with the sections of the other threads as steps in between, and \<open>Sender\<close> does so
  for the sending thread and its queue. Cancellation is modelled where POSIX requires a cancellation point; the calls
  it leaves open (\<^verbatim>\<open>syslog\<close>, \<^verbatim>\<open>fprintf\<close>) are taken not to be one. \<^verbatim>\<open>client_queue_destroy\<close> is taken to be able to cancel
  and join the sending thread.
\<close>

end
